(* ===== verification/Kvbm_Prelude.thy ===== *)
theory Kvbm_Prelude
  imports Main "HOL-Library.Word" "HOL-Library.AList" "HOL-Library.Multiset" "HOL-Library.Monad_Syntax"
begin

text \<open>
  What the components share: the type names of the crate, the two standard-library containers
  the sources iterate over (\<open>BTreeMap\<close> as a key-sorted association list, \<open>HashMap\<close> as an
  association list with distinct keys), and generic lemmas on lists, maps and the option monad.

  A Rust panic is the value \<^term>\<open>None\<close> of an operation's result type; operations that cannot
  panic are total functions. Where an operation of the source returns an \<open>Option\<close> or a
  \<open>Result\<close>, that is a second option or sum inside the result.
\<close>

section \<open>Names of the crate's types\<close>

text \<open>\<open>BlockId\<close> is \<open>usize\<close>: an index of a slot vector, never incremented by the code.\<close>

type_synonym block_id = nat
type_synonym u64 = "64 word"
type_synonym u32 = "32 word"
type_synonym u8 = "8 word"

named_theorems store_simps \<open>rewriting of the store's fields after an update\<close>

section \<open>Lemmas on maps, lists and the option monad\<close>

lemma bind_eq_SomeE:
  assumes "Option.bind m f = Some y"
  obtains x where "m = Some x" and "f x = Some y"
  using assms by (cases m) auto

lemma restrict_fun_upd_None: "(m |` (- A))(k := None) = m |` (- insert k A)"
  by (rule ext) (auto simp: restrict_map_def)

lemma restrict_upd_restrict: "(m(k := None)) |` (- A) = m |` (- insert k A)"
  by (rule ext) (auto simp: restrict_map_def)

lemma dom_restrict_compl: "dom (m |` (- A)) = dom m - A"
  by auto

lemma restrict_compl_restrict: "(m |` (- A)) |` (- B) = m |` (- (A \<union> B))"
  by (rule ext) (auto simp: restrict_map_def)

lemma map_of_eq_Some_iff_distinct:
  "distinct (map fst xs) \<Longrightarrow> map_of xs k = Some v \<longleftrightarrow> (k, v) \<in> set xs"
  by simp

lemma map_eqI: "(\<And>k v. m k = Some v \<longleftrightarrow> m' k = Some v) \<Longrightarrow> m = m'"
  by (rule ext) (metis not_None_eq)

lemma card_dom_map_of: "distinct (map fst xs) \<Longrightarrow> card (dom (map_of xs)) = length xs"
  by (simp add: dom_map_of_conv_image_fst distinct_card flip: set_map)

text \<open>\<open>Iterator::rposition\<close>: the last index whose element satisfies a predicate.\<close>

definition rposition :: "('a \<Rightarrow> bool) \<Rightarrow> 'a list \<Rightarrow> nat option" where
  "rposition P xs = find (\<lambda>i. P (xs ! i)) (rev [0..<length xs])"

lemma rposition_None: "rposition P xs = None \<longleftrightarrow> (\<forall>x \<in> set xs. \<not> P x)"
  by (auto simp: rposition_def find_None_iff all_set_conv_all_nth)

lemma rposition_Some:
  assumes "rposition P xs = Some i"
  shows "i < length xs \<and> P (xs ! i) \<and> (\<forall>j < length xs. i < j \<longrightarrow> \<not> P (xs ! j))"
proof -
  from assms obtain k where k: "k < length xs" "P (xs ! (rev [0..<length xs] ! k))"
    "i = rev [0..<length xs] ! k" "\<forall>j<k. \<not> P (xs ! (rev [0..<length xs] ! j))"
    by (auto simp: rposition_def find_Some_iff)
  then have i: "i = length xs - Suc k" by (simp add: rev_nth)
  have "\<not> P (xs ! j)" if "j < length xs" "i < j" for j
  proof -
    have "length xs - Suc j < k" using that i k(1) by linarith
    with k(4) have "\<not> P (xs ! (rev [0..<length xs] ! (length xs - Suc j)))" by blast
    with that show ?thesis by (simp add: rev_nth)
  qed
  with k i show ?thesis by auto
qed

section \<open>\<open>HashMap\<close>: association lists with distinct keys\<close>

text \<open>
  The iteration order of a standard \<open>HashMap\<close> is unspecified. The operations below do not
  depend on the list order; code that iterates a map takes the order as a parameter.
\<close>

type_synonym ('k, 'v) hash_map = "('k \<times> 'v) list"

abbreviation hash_map_ok :: "('k, 'v) hash_map \<Rightarrow> bool" where
  "hash_map_ok m \<equiv> distinct (map fst m)"

lemma hash_map_ok_update: "hash_map_ok m \<Longrightarrow> hash_map_ok (AList.update k v m)"
  by (rule distinct_update)

lemma hash_map_ok_delete: "hash_map_ok m \<Longrightarrow> hash_map_ok (AList.delete k m)"
  by (rule distinct_delete)

lemma map_of_delete: "map_of (AList.delete k m) = (map_of m)(k := None)"
  by (rule ext) (simp add: delete_conv')

lemma map_of_update: "map_of (AList.update k v m) = (map_of m)(k \<mapsto> v)"
  by (rule ext) (simp add: update_conv')

text \<open>
  The order in which an iteration visits a map: any permutation of its entries, given as a
  parameter. A function that is not a permutation of this list stands for the list order.
\<close>

definition iteration_order :: "('e list \<Rightarrow> 'e list) \<Rightarrow> 'e list \<Rightarrow> 'e list" where
  "iteration_order f xs = (if mset (f xs) = mset xs then f xs else xs)"

lemma mset_iteration_order [simp]: "mset (iteration_order f xs) = mset xs"
  by (simp add: iteration_order_def)

lemma set_iteration_order [simp]: "set (iteration_order f xs) = set xs"
  by (rule mset_eq_setD) simp

lemma length_iteration_order [simp]: "length (iteration_order f xs) = length xs"
  by (rule mset_eq_length) simp

lemma distinct_fst_iteration_order [simp]:
  "distinct (map fst (iteration_order f xs)) = distinct (map fst xs)"
  by (rule mset_eq_imp_distinct_iff) simp

section \<open>\<open>BTreeMap\<close>: association lists sorted by key\<close>

type_synonym ('k, 'v) btree_map = "('k \<times> 'v) list"

abbreviation btree_ok :: "('k::linorder, 'v) btree_map \<Rightarrow> bool" where
  "btree_ok m \<equiv> sorted_wrt (<) (map fst m)"

fun btree_insert :: "'k::linorder \<Rightarrow> 'v \<Rightarrow> ('k, 'v) btree_map \<Rightarrow> ('k, 'v) btree_map" where
  "btree_insert k v [] = [(k, v)]"
| "btree_insert k v ((k', v') # m) =
     (if k < k' then (k, v) # (k', v') # m
      else if k = k' then (k, v) # m
      else (k', v') # btree_insert k v m)"

definition btree_remove :: "'k::linorder \<Rightarrow> ('k, 'v) btree_map \<Rightarrow> ('k, 'v) btree_map" where
  "btree_remove k m = filter (\<lambda>kv. fst kv \<noteq> k) m"

fun btree_pop_first :: "('k, 'v) btree_map \<Rightarrow> (('k \<times> 'v) \<times> ('k, 'v) btree_map) option" where
  "btree_pop_first [] = None"
| "btree_pop_first (kv # m) = Some (kv, m)"

lemma btree_ok_distinct: "btree_ok m \<Longrightarrow> distinct (map fst m)"
  by (simp add: strict_sorted_iff)

lemma set_btree_insert:
  "btree_ok m \<Longrightarrow> set (btree_insert k v m) = insert (k, v) {kv \<in> set m. fst kv \<noteq> k}"
proof (induction k v m rule: btree_insert.induct)
  case (2 k v k' v' m)
  then have "\<forall>kv \<in> set m. k' < fst kv" by auto
  with 2 show ?case by (cases "k < k'"; cases "k = k'") auto
qed simp

lemma map_of_btree_insert: "btree_ok m \<Longrightarrow> map_of (btree_insert k v m) = (map_of m)(k \<mapsto> v)"
  by (induction k v m rule: btree_insert.induct) (auto simp: fun_eq_iff)

lemma btree_ok_insert: "btree_ok m \<Longrightarrow> btree_ok (btree_insert k v m)"
proof (induction k v m rule: btree_insert.induct)
  case (2 k v k' v' m)
  from 2 show ?case by (auto simp: set_btree_insert)
qed simp

lemma btree_insert_append:
  "btree_ok m \<Longrightarrow> \<forall>k' \<in> fst ` set m. k' < k \<Longrightarrow> btree_insert k v m = m @ [(k, v)]"
  by (induction m) auto

lemma map_of_btree_remove: "map_of (btree_remove k m) = (map_of m)(k := None)"
  by (induction m) (auto simp: btree_remove_def fun_eq_iff)

lemma btree_ok_remove: "btree_ok m \<Longrightarrow> btree_ok (btree_remove k m)"
  by (induction m) (auto simp: btree_remove_def)

lemma set_btree_remove: "set (btree_remove k m) = {kv \<in> set m. fst kv \<noteq> k}"
  by (auto simp: btree_remove_def)

end
