(* ===== verification/Inactive_Index.thy ===== *)
theory Inactive_Index
  imports Kvbm_Prelude
begin

text \<open>
  The trait \<open>InactiveIndex\<close> of \<open>pools/store.rs\<close>: the eviction index a block store keeps its
  inactive blocks in. A \<open>Box<dyn InactiveIndex>\<close> is a record of operations (the trait object's
  vtable) together with a value of the backend's own state type. The locale \<open>inactive_index\<close>
  states what the store relies on: the operations implement a finite injective map from sequence
  hashes to block ids, whatever the eviction order. Backends interpret it in their own theories.
\<close>

section \<open>Identities and advice (\<open>pools/exact.rs\<close>, \<open>pools/advice.rs\<close>)\<close>

record 'h exact_inactive_victim =
  victim_manager_id :: nat
  victim_block_id :: block_id
  victim_seq_hash :: 'h
  victim_generation :: u64
  victim_inactive_epoch :: u64

record inactive_features =
  poisoned :: bool
  is_leaf :: bool
  age_ticks :: "u64 option"
  freq_estimate :: "u32 option"
  max_fanout :: "u32 option"
  evict_rank :: "u8 option"

record 'h inactive_candidate =
  cand_seq_hash :: 'h
  cand_block_id :: block_id
  cand_generation :: u64
  cand_inactive_epoch :: u64
  cand_features :: inactive_features

datatype exact_reclaim_plan_error =
    Unsupported
  | MissingVictim block_id
  | ParentBeforeChild block_id block_id
  | OmittedLiveChild block_id block_id
  | MissingRealAncestor block_id block_id

text \<open>
  \<open>evict_rank_for\<close>: the position of a candidate in a peeked batch, scaled to a byte. The product
  is computed in \<open>u64\<close>; \<open>u8::try_from\<close> saturates.
\<close>

definition evict_rank_for :: "nat \<Rightarrow> nat \<Rightarrow> u8 option" where
  "evict_rank_for index len =
     (if len = 0 \<or> index \<ge> len then None
      else if len = 1 then Some 0
      else let scaled = (of_nat index * 255 :: u64) div (of_nat len - 1)
           in Some (if unat scaled < 256 then ucast scaled else 255))"

section \<open>The trait object\<close>

record ('h, 'i) index_ops =
  ix_grow_capacity :: "nat \<Rightarrow> 'i \<Rightarrow> 'i"
  ix_find_matches :: "'h list \<Rightarrow> bool \<Rightarrow> 'i \<Rightarrow> (('h \<times> block_id) list \<times> 'i) option"
  ix_find_match :: "'h \<Rightarrow> bool \<Rightarrow> 'i \<Rightarrow> (('h \<times> block_id) option \<times> 'i) option"
  ix_scan_matches :: "'h list \<Rightarrow> bool \<Rightarrow> 'i \<Rightarrow> (('h \<times> block_id) list \<times> 'i) option"
  ix_allocate :: "nat \<Rightarrow> 'i \<Rightarrow> (('h \<times> block_id) list \<times> 'i) option"
  ix_insert :: "'h \<Rightarrow> block_id \<Rightarrow> 'i \<Rightarrow> 'i option"
  ix_rebind :: "'h \<Rightarrow> block_id \<Rightarrow> block_id \<Rightarrow> 'i \<Rightarrow> (bool \<times> 'i) option"
  ix_len :: "'i \<Rightarrow> nat"
  ix_has :: "'i \<Rightarrow> 'h \<Rightarrow> bool"
  ix_take :: "'h \<Rightarrow> block_id \<Rightarrow> 'i \<Rightarrow> (bool \<times> 'i) option"
  ix_take_with_descendants :: "'h \<Rightarrow> block_id \<Rightarrow> 'i \<Rightarrow> (('h \<times> block_id) list \<times> 'i) option"
  ix_take_complete_lineage ::
    "'h \<Rightarrow> block_id \<Rightarrow> 'i \<Rightarrow> (('h \<times> block_id) list option \<times> 'i) option"
  ix_complete_lineage :: "'i \<Rightarrow> 'h \<Rightarrow> block_id \<Rightarrow> ('h \<times> block_id) list option"
  ix_supports_exact_reclaim :: "'i \<Rightarrow> bool"
  ix_exact_block_id :: "'i \<Rightarrow> 'h \<Rightarrow> block_id option"
  ix_preflight_exact_reclaim ::
    "'i \<Rightarrow> 'h exact_inactive_victim list \<Rightarrow> exact_reclaim_plan_error + unit"
  ix_poison :: "'h \<Rightarrow> 'i \<Rightarrow> 'i"
  ix_allocate_all :: "'i \<Rightarrow> (('h \<times> block_id) list \<times> 'i) option"
  ix_peek_victims :: "'i \<Rightarrow> nat \<Rightarrow> ('h \<times> block_id \<times> inactive_features) list"
  ix_advice :: "'i \<Rightarrow> 'h \<Rightarrow> inactive_features option"

text \<open>The trait's provided methods, as functions of the methods they call.\<close>

definition grow_capacity_default :: "nat \<Rightarrow> 'i \<Rightarrow> 'i" where
  "grow_capacity_default capacity i = i"

definition find_match_default ::
  "('h list \<Rightarrow> bool \<Rightarrow> 'i \<Rightarrow> (('h \<times> block_id) list \<times> 'i) option)
    \<Rightarrow> 'h \<Rightarrow> bool \<Rightarrow> 'i \<Rightarrow> (('h \<times> block_id) option \<times> 'i) option" where
  "find_match_default find_matches h touch i = do {
     (ms, i') \<leftarrow> find_matches [h] touch i;
     Some ((case ms of [] \<Rightarrow> None | m # _ \<Rightarrow> Some m), i')
   }"

definition take_with_descendants_default ::
  "('h \<Rightarrow> block_id \<Rightarrow> 'i \<Rightarrow> (bool \<times> 'i) option)
    \<Rightarrow> 'h \<Rightarrow> block_id \<Rightarrow> 'i \<Rightarrow> (('h \<times> block_id) list \<times> 'i) option" where
  "take_with_descendants_default take_pair h b i = do {
     (hit, i') \<leftarrow> take_pair h b i;
     Some (if hit then [(h, b)] else [], i')
   }"

definition take_complete_lineage_default ::
  "'h \<Rightarrow> block_id \<Rightarrow> 'i \<Rightarrow> (('h \<times> block_id) list option \<times> 'i) option" where
  "take_complete_lineage_default h b i = Some (None, i)"

definition complete_lineage_default ::
  "'i \<Rightarrow> 'h \<Rightarrow> block_id \<Rightarrow> ('h \<times> block_id) list option" where
  "complete_lineage_default i h b = None"

definition supports_exact_reclaim_default :: "'i \<Rightarrow> bool" where
  "supports_exact_reclaim_default i = False"

definition exact_block_id_default :: "'i \<Rightarrow> 'h \<Rightarrow> block_id option" where
  "exact_block_id_default i h = None"

definition preflight_exact_reclaim_default ::
  "'i \<Rightarrow> 'h exact_inactive_victim list \<Rightarrow> exact_reclaim_plan_error + unit" where
  "preflight_exact_reclaim_default i victims =
     (if victims = [] then Inr () else Inl Unsupported)"

definition poison_default :: "'h \<Rightarrow> 'i \<Rightarrow> 'i" where
  "poison_default h i = i"

definition allocate_all_default ::
  "('i \<Rightarrow> nat) \<Rightarrow> (nat \<Rightarrow> 'i \<Rightarrow> (('h \<times> block_id) list \<times> 'i) option)
    \<Rightarrow> 'i \<Rightarrow> (('h \<times> block_id) list \<times> 'i) option" where
  "allocate_all_default len allocate i = allocate (len i) i"

definition peek_victims_default :: "'i \<Rightarrow> nat \<Rightarrow> ('h \<times> block_id \<times> inactive_features) list" where
  "peek_victims_default i max_count = []"

definition advice_default :: "'i \<Rightarrow> 'h \<Rightarrow> inactive_features option" where
  "advice_default i h = None"

section \<open>The contract\<close>

text \<open>What the lookups do to the map an index represents.\<close>

fun map_find_matches ::
  "'h list \<Rightarrow> ('h \<rightharpoonup> block_id) \<Rightarrow> ('h \<times> block_id) list \<times> ('h \<rightharpoonup> block_id)" where
  "map_find_matches [] m = ([], m)"
| "map_find_matches (h # hs) m =
     (case m h of
        None \<Rightarrow> ([], m)
      | Some b \<Rightarrow> (let (r, m') = map_find_matches hs (m(h := None)) in ((h, b) # r, m')))"

fun map_scan_matches ::
  "'h list \<Rightarrow> ('h \<rightharpoonup> block_id) \<Rightarrow> ('h \<times> block_id) list \<times> ('h \<rightharpoonup> block_id)" where
  "map_scan_matches [] m = ([], m)"
| "map_scan_matches (h # hs) m =
     (case m h of
        None \<Rightarrow> map_scan_matches hs m
      | Some b \<Rightarrow> (let (r, m') = map_scan_matches hs (m(h := None)) in ((h, b) # r, m')))"

text \<open>
  \<open>extracts m r m'\<close>: the pairs \<open>r\<close>, pairwise distinct in their hashes, were entries of \<open>m\<close> and
  \<open>m'\<close> is what is left. Every removing operation of an index is an extraction.
\<close>

definition extracts ::
  "('h \<rightharpoonup> block_id) \<Rightarrow> ('h \<times> block_id) list \<Rightarrow> ('h \<rightharpoonup> block_id) \<Rightarrow> bool" where
  "extracts m r m' \<longleftrightarrow>
     distinct (map fst r) \<and> (\<forall>(h, b) \<in> set r. m h = Some b) \<and> m' = m |` (- fst ` set r)"

lemma extracts_Nil [simp]: "extracts m [] m' \<longleftrightarrow> m' = m"
  by (auto simp: extracts_def)

lemma extracts_Cons:
  "extracts m ((h, b) # r) m' \<longleftrightarrow> m h = Some b \<and> extracts (m(h := None)) r m'"
proof -
  have "(m(h := None)) |` (- fst ` set r) = m |` (- insert h (fst ` set r))"
    by (rule restrict_upd_restrict)
  moreover have "h \<notin> fst ` set r \<longleftrightarrow> (\<forall>(h', b') \<in> set r. h' \<noteq> h)" by force
  ultimately show ?thesis
    unfolding extracts_def by (auto split: if_splits)
qed

lemma extracts_append:
  "extracts m (r @ r') m'' \<longleftrightarrow> (\<exists>m'. extracts m r m' \<and> extracts m' r' m'')"
  by (induction r arbitrary: m) (auto simp: extracts_Cons)

lemma extracts_lookup:
  "extracts m r m' \<Longrightarrow> m' h = (if h \<in> fst ` set r then None else m h)"
  by (simp add: extracts_def restrict_map_def)

lemma extracts_subset: "extracts m r m' \<Longrightarrow> m' \<subseteq>\<^sub>m m"
  unfolding map_le_def by (metis domIff extracts_lookup)

lemma extracts_entries:
  assumes "extracts m r m'" and "(h, b) \<in> set r"
  shows "m h = Some b \<and> m' h = None"
proof -
  from assms(2) have "h \<in> fst ` set r" by force
  moreover have "m h = Some b" using assms unfolding extracts_def by blast
  ultimately show ?thesis using extracts_lookup [OF assms(1)] by simp
qed

lemma extracts_rest:
  assumes "extracts m r m'"
  shows "m' h = Some b \<longleftrightarrow> m h = Some b \<and> (h, b) \<notin> set r"
proof (cases "h \<in> fst ` set r")
  case True
  then obtain b' where "(h, b') \<in> set r" by force
  with extracts_entries [OF assms this] show ?thesis by auto
next
  case False
  then have "(h, b) \<notin> set r" by force
  with False show ?thesis by (simp add: extracts_lookup [OF assms])
qed

lemma extracts_card:
  assumes "extracts m r m'" and "finite (dom m)"
  shows "card (dom m') + length r = card (dom m)"
  using assms
proof (induction r arbitrary: m)
  case (Cons hb r)
  obtain h b where hb: "hb = (h, b)" by (cases hb)
  from Cons.prems hb have "m h = Some b" and ex: "extracts (m(h := None)) r m'"
    by (auto simp: extracts_Cons)
  then have "h \<in> dom m" and "dom (m(h := None)) = dom m - {h}" by auto
  with Cons.IH [OF ex] Cons.prems(2) have "card (dom m') + length r = card (dom m - {h})"
    by (metis finite_Diff)
  with \<open>h \<in> dom m\<close> Cons.prems(2) show ?case
    using card_Suc_Diff1 [of "dom m" h] by simp
qed simp

lemma extracts_distinct_ids:
  assumes "extracts m r m'" and "inj_on m (dom m)"
  shows "distinct (map snd r)"
  using assms
proof (induction r arbitrary: m)
  case (Cons hb r)
  obtain h b where hb: "hb = (h, b)" by (cases hb)
  from Cons.prems hb have m: "m h = Some b" and ex: "extracts (m(h := None)) r m'"
    by (auto simp: extracts_Cons)
  have "inj_on (m(h := None)) (dom (m(h := None)))"
    using Cons.prems(2) by (auto simp: inj_on_def dom_def)
  with Cons.IH ex have "distinct (map snd r)" by blast
  moreover have "b \<notin> snd ` set r"
  proof
    assume "b \<in> snd ` set r"
    then obtain h' where "(h', b) \<in> set r" by force
    with extracts_entries [OF ex] have "(m(h := None)) h' = Some b" by blast
    with m Cons.prems(2) show False
      by (auto simp: inj_on_def dom_def split: if_splits)
  qed
  ultimately show ?case by (simp add: hb)
qed simp

lemma map_find_matches_extracts:
  "map_find_matches hs m = (r, m') \<Longrightarrow> extracts m r m'"
  by (induction hs m arbitrary: r m' rule: map_find_matches.induct)
     (auto simp: extracts_Cons split: option.splits prod.splits)

lemma map_scan_matches_extracts:
  "map_scan_matches hs m = (r, m') \<Longrightarrow> extracts m r m'"
  by (induction hs m arbitrary: r m' rule: map_scan_matches.induct)
     (auto simp: extracts_Cons split: option.splits prod.splits)

text \<open>Taking the victims of an exact reclaim plan one after another, all of them present.\<close>

fun take_all_victims ::
  "('h, 'i) index_ops \<Rightarrow> 'h exact_inactive_victim list \<Rightarrow> 'i \<Rightarrow> 'i option" where
  "take_all_victims ops [] i = Some i"
| "take_all_victims ops (v # vs) i = do {
     (hit, i') \<leftarrow> ix_take ops (victim_seq_hash v) (victim_block_id v) i;
     if hit then take_all_victims ops vs i' else None
   }"

locale inactive_index =
  fixes ops :: "('h, 'i) index_ops"
    and iinv :: "'i \<Rightarrow> bool"
    and iabs :: "'i \<Rightarrow> 'h \<rightharpoonup> block_id"
    and room :: "nat \<Rightarrow> 'i \<Rightarrow> bool"
  assumes finite_abs: "iinv i \<Longrightarrow> finite (dom (iabs i))"
    and grow_capacity: "iinv i \<Longrightarrow>
      iinv (ix_grow_capacity ops n i) \<and> iabs (ix_grow_capacity ops n i) = iabs i
      \<and> room n (ix_grow_capacity ops n i)"
    and len: "iinv i \<Longrightarrow> ix_len ops i = card (dom (iabs i))"
    and has: "iinv i \<Longrightarrow> ix_has ops i h \<longleftrightarrow> h \<in> dom (iabs i)"
    and find_match: "iinv i \<Longrightarrow> \<exists>i'. ix_find_match ops h touch i =
        Some (map_option (Pair h) (iabs i h), i')
        \<and> iinv i' \<and> iabs i' = (iabs i)(h := None) \<and> (\<forall>n. room n i \<longrightarrow> room n i')"
    and find_matches: "iinv i \<Longrightarrow> \<exists>r i'. ix_find_matches ops hs touch i = Some (r, i')
        \<and> iinv i' \<and> map_find_matches hs (iabs i) = (r, iabs i') \<and> (\<forall>n. room n i \<longrightarrow> room n i')"
    and scan_matches: "iinv i \<Longrightarrow> \<exists>r i'. ix_scan_matches ops hs touch i = Some (r, i')
        \<and> iinv i' \<and> map_scan_matches hs (iabs i) = (r, iabs i') \<and> (\<forall>n. room n i \<longrightarrow> room n i')"
    and allocate: "iinv i \<Longrightarrow> \<exists>r i'. ix_allocate ops k i = Some (r, i')
        \<and> iinv i' \<and> extracts (iabs i) r (iabs i') \<and> length r = min k (card (dom (iabs i)))
        \<and> (\<forall>n. room n i \<longrightarrow> room n i')"
    and allocate_all: "iinv i \<Longrightarrow> \<exists>r i'. ix_allocate_all ops i = Some (r, i')
        \<and> iinv i' \<and> extracts (iabs i) r (iabs i') \<and> iabs i' = Map.empty
        \<and> (\<forall>n. room n i \<longrightarrow> room n i')"
    and insert: "iinv i \<Longrightarrow> room n i \<Longrightarrow> card (dom (iabs i)) < n \<Longrightarrow> h \<notin> dom (iabs i) \<Longrightarrow>
        b \<notin> ran (iabs i) \<Longrightarrow>
        \<exists>i'. ix_insert ops h b i = Some i' \<and> iinv i' \<and> iabs i' = (iabs i)(h \<mapsto> b)
          \<and> (\<forall>n. room n i \<longrightarrow> room n i')"
    and rebind: "iinv i \<Longrightarrow> dst \<notin> ran (iabs i) \<Longrightarrow>
        \<exists>i'. ix_rebind ops h src dst i = Some (iabs i h = Some src, i') \<and> iinv i'
          \<and> iabs i' = (if iabs i h = Some src then (iabs i)(h \<mapsto> dst) else iabs i)
          \<and> (\<forall>n. room n i \<longrightarrow> room n i')"
    and take_pair: "iinv i \<Longrightarrow>
        \<exists>i'. ix_take ops h b i = Some (iabs i h = Some b, i') \<and> iinv i'
          \<and> iabs i' = (if iabs i h = Some b then (iabs i)(h := None) else iabs i)
          \<and> (\<forall>n. room n i \<longrightarrow> room n i')"
    and take_with_descendants: "iinv i \<Longrightarrow>
        \<exists>r i'. ix_take_with_descendants ops h b i = Some (r, i') \<and> iinv i'
          \<and> extracts (iabs i) r (iabs i')
          \<and> (if iabs i h = Some b then (h, b) \<in> set r else r = [])
          \<and> (\<forall>n. room n i \<longrightarrow> room n i')"
    and complete_lineage: "iinv i \<Longrightarrow> ix_complete_lineage ops i h b = Some r \<Longrightarrow>
        r \<noteq> [] \<and> last r = (h, b)
        \<and> (\<exists>i'. ix_take_complete_lineage ops h b i = Some (Some r, i') \<and> iinv i'
          \<and> extracts (iabs i) r (iabs i') \<and> (\<forall>n. room n i \<longrightarrow> room n i'))"
    and exact_block_id: "iinv i \<Longrightarrow> ix_exact_block_id ops i h = Some b \<Longrightarrow> iabs i h = Some b"
    and peek_victims: "iinv i \<Longrightarrow> (h, b, f) \<in> set (ix_peek_victims ops i n) \<Longrightarrow> iabs i h = Some b"
    and poison: "iinv i \<Longrightarrow> iinv (ix_poison ops h i) \<and> iabs (ix_poison ops h i) = iabs i
        \<and> (\<forall>n. room n i \<longrightarrow> room n (ix_poison ops h i))"

end
