(* ===== verification/Reuse_Policy.thy ===== *)
theory Reuse_Policy
  imports Kvbm_Prelude
begin

text \<open>
  The trait \<open>ReusePolicy\<close> and its FIFO implementation (\<open>pools/inactive/backends/reuse_policy.rs\<close>
  and \<open>fifo.rs\<close>). The contract of the trait is a map from block ids to sequence hashes; the FIFO
  policy is moreover a queue: the refinement to the list of its entries in insertion order.
  The sequence counter \<open>next_seq\<close> is a natural number: the \<open>u64\<close> of the source is incremented
  once per insertion and cannot be exhausted.
\<close>

section \<open>The trait\<close>

record 'h inactive_block =
  ib_block_id :: block_id
  ib_seq_hash :: 'h

datatype reuse_policy_error =
    BlockAlreadyExists block_id
  | BlockNotFound block_id

record ('h, 'p) reuse_ops =
  rp_insert :: "'h inactive_block \<Rightarrow> 'p \<Rightarrow> ((reuse_policy_error + unit) \<times> 'p) option"
  rp_remove :: "block_id \<Rightarrow> 'p \<Rightarrow> ((reuse_policy_error + unit) \<times> 'p) option"
  rp_rebind :: "'h \<Rightarrow> block_id \<Rightarrow> block_id \<Rightarrow> 'p \<Rightarrow> (bool \<times> 'p) option"
  rp_next_free :: "'p \<Rightarrow> ('h inactive_block option \<times> 'p) option"
  rp_is_empty :: "'p \<Rightarrow> bool"
  rp_len :: "'p \<Rightarrow> nat"

locale reuse_policy =
  fixes rops :: "('h, 'p) reuse_ops"
    and pinv :: "'p \<Rightarrow> bool"
    and pabs :: "'p \<Rightarrow> block_id \<rightharpoonup> 'h"
  assumes policy_finite: "pinv p \<Longrightarrow> finite (dom (pabs p))"
    and policy_insert: "pinv p \<Longrightarrow> b \<notin> dom (pabs p) \<Longrightarrow>
      \<exists>p'. rp_insert rops \<lparr>ib_block_id = b, ib_seq_hash = h\<rparr> p = Some (Inr (), p') \<and> pinv p'
        \<and> pabs p' = (pabs p)(b \<mapsto> h)"
    and policy_remove: "pinv p \<Longrightarrow> \<exists>p'. rp_remove rops b p =
      Some ((if b \<in> dom (pabs p) then Inr () else Inl (BlockNotFound b)), p') \<and> pinv p'
        \<and> pabs p' = (pabs p)(b := None)"
    and policy_rebind: "pinv p \<Longrightarrow>
      \<exists>p'. rp_rebind rops h src dst p = Some (pabs p src = Some h \<and> dst \<notin> dom (pabs p), p')
        \<and> pinv p' \<and> pabs p' = (if pabs p src = Some h \<and> dst \<notin> dom (pabs p)
             then (pabs p)(src := None, dst \<mapsto> h) else pabs p)"
    and policy_next_free_empty: "pinv p \<Longrightarrow> dom (pabs p) = {} \<Longrightarrow> rp_next_free rops p = Some (None, p)"
    and policy_next_free: "pinv p \<Longrightarrow> dom (pabs p) \<noteq> {} \<Longrightarrow>
      \<exists>b h p'. rp_next_free rops p = Some (Some \<lparr>ib_block_id = b, ib_seq_hash = h\<rparr>, p') \<and> pinv p'
        \<and> pabs p b = Some h \<and> pabs p' = (pabs p)(b := None)"
    and policy_is_empty: "pinv p \<Longrightarrow> rp_is_empty rops p \<longleftrightarrow> dom (pabs p) = {}"
    and policy_len: "pinv p \<Longrightarrow> rp_len rops p = card (dom (pabs p))"

section \<open>\<open>FifoReusePolicy\<close>\<close>

record 'h fifo_reuse_policy =
  fifo_keys :: "(block_id, nat) hash_map"
  fifo_blocks :: "(nat, 'h inactive_block) btree_map"
  fifo_next_seq :: nat

definition fifo_new :: "'h fifo_reuse_policy" where
  "fifo_new = \<lparr>fifo_keys = [], fifo_blocks = [], fifo_next_seq = 0\<rparr>"

definition fifo_insert ::
  "'h inactive_block \<Rightarrow> 'h fifo_reuse_policy
    \<Rightarrow> ((reuse_policy_error + unit) \<times> 'h fifo_reuse_policy) option" where
  "fifo_insert ib p =
     (if map_of (fifo_keys p) (ib_block_id ib) \<noteq> None then None
      else let priority_key = fifo_next_seq p in
        Some (Inr (), p\<lparr>fifo_next_seq := fifo_next_seq p + 1,
                        fifo_keys := AList.update (ib_block_id ib) priority_key (fifo_keys p),
                        fifo_blocks := btree_insert priority_key ib (fifo_blocks p)\<rparr>))"

definition fifo_remove ::
  "block_id \<Rightarrow> 'h fifo_reuse_policy
    \<Rightarrow> ((reuse_policy_error + unit) \<times> 'h fifo_reuse_policy) option" where
  "fifo_remove b p =
     (case map_of (fifo_keys p) b of
        None \<Rightarrow> Some (Inl (BlockNotFound b), p)
      | Some priority_key \<Rightarrow>
          (if map_of (fifo_blocks p) priority_key = None then None
           else Some (Inr (), p\<lparr>fifo_keys := AList.delete b (fifo_keys p),
                                fifo_blocks := btree_remove priority_key (fifo_blocks p)\<rparr>)))"

definition fifo_rebind ::
  "'h \<Rightarrow> block_id \<Rightarrow> block_id \<Rightarrow> 'h fifo_reuse_policy \<Rightarrow> (bool \<times> 'h fifo_reuse_policy) option" where
  "fifo_rebind seq_hash src dst p =
     (case map_of (fifo_keys p) src of
        None \<Rightarrow> Some (False, p)
      | Some priority_key \<Rightarrow>
          (if map_of (fifo_keys p) dst \<noteq> None
              \<or> \<not> (case map_of (fifo_blocks p) priority_key of None \<Rightarrow> False
                    | Some ib \<Rightarrow> ib_seq_hash ib = seq_hash \<and> ib_block_id ib = src)
           then Some (False, p)
           else case map_of (fifo_blocks p) priority_key of
                  None \<Rightarrow> None
                | Some ib \<Rightarrow> Some (True,
                    p\<lparr>fifo_keys := AList.update dst priority_key (AList.delete src (fifo_keys p)),
                      fifo_blocks := btree_insert priority_key (ib\<lparr>ib_block_id := dst\<rparr>)
                        (fifo_blocks p)\<rparr>)))"

definition fifo_next_free ::
  "'h fifo_reuse_policy \<Rightarrow> ('h inactive_block option \<times> 'h fifo_reuse_policy) option" where
  "fifo_next_free p =
     (case btree_pop_first (fifo_blocks p) of
        Some ((_, ib), blocks') \<Rightarrow>
          (if map_of (fifo_keys p) (ib_block_id ib) = None then None
           else Some (Some ib, p\<lparr>fifo_blocks := blocks',
                                 fifo_keys := AList.delete (ib_block_id ib) (fifo_keys p)\<rparr>))
      | None \<Rightarrow> Some (None, p))"

definition fifo_is_empty :: "'h fifo_reuse_policy \<Rightarrow> bool" where
  "fifo_is_empty p = (fifo_blocks p = [])"

definition fifo_len :: "'h fifo_reuse_policy \<Rightarrow> nat" where
  "fifo_len p = length (fifo_blocks p)"

definition fifo_ops :: "('h, 'h fifo_reuse_policy) reuse_ops" where
  "fifo_ops = \<lparr>rp_insert = fifo_insert, rp_remove = fifo_remove, rp_rebind = fifo_rebind,
     rp_next_free = fifo_next_free, rp_is_empty = fifo_is_empty, rp_len = fifo_len\<rparr>"

section \<open>The FIFO policy as a queue\<close>

definition fifo_inv :: "'h fifo_reuse_policy \<Rightarrow> bool" where
  "fifo_inv p \<longleftrightarrow>
     btree_ok (fifo_blocks p) \<and> hash_map_ok (fifo_keys p)
     \<and> (\<forall>b k. map_of (fifo_keys p) b = Some k \<longleftrightarrow>
          (\<exists>ib. map_of (fifo_blocks p) k = Some ib \<and> ib_block_id ib = b))
     \<and> (\<forall>k \<in> fst ` set (fifo_blocks p). k < fifo_next_seq p)"

definition fifo_queue :: "'h fifo_reuse_policy \<Rightarrow> 'h inactive_block list" where
  "fifo_queue p = map snd (fifo_blocks p)"

definition fifo_abs :: "'h fifo_reuse_policy \<Rightarrow> block_id \<rightharpoonup> 'h" where
  "fifo_abs p = map_of (map (\<lambda>ib. (ib_block_id ib, ib_seq_hash ib)) (fifo_queue p))"

lemma fifo_invD:
  assumes "fifo_inv p"
  shows "btree_ok (fifo_blocks p)" "hash_map_ok (fifo_keys p)"
    and "map_of (fifo_keys p) b = Some k \<longleftrightarrow>
      (\<exists>ib. map_of (fifo_blocks p) k = Some ib \<and> ib_block_id ib = b)"
    and "k \<in> fst ` set (fifo_blocks p) \<Longrightarrow> k < fifo_next_seq p"
  using assms by (auto simp: fifo_inv_def)

lemma fifo_entries:
  assumes "fifo_inv p"
  shows "(k, ib) \<in> set (fifo_blocks p) \<longleftrightarrow> map_of (fifo_blocks p) k = Some ib"
  using btree_ok_distinct [OF fifo_invD(1) [OF assms]] by simp

lemma fifo_key_inj:
  assumes "fifo_inv p" and "(k, ib) \<in> set (fifo_blocks p)" and "(k', ib') \<in> set (fifo_blocks p)"
    and "ib_block_id ib = ib_block_id ib'"
  shows "k = k' \<and> ib = ib'"
proof -
  from assms have "map_of (fifo_keys p) (ib_block_id ib) = Some k"
    and "map_of (fifo_keys p) (ib_block_id ib) = Some k'"
    by (auto simp: fifo_invD(3) fifo_entries)
  with assms show ?thesis by (auto simp: fifo_entries)
qed

lemma fifo_queue_distinct:
  assumes "fifo_inv p"
  shows "distinct (map ib_block_id (fifo_queue p))"
proof -
  have "inj_on (ib_block_id \<circ> snd) (set (fifo_blocks p))"
    using fifo_key_inj [OF assms] by (fastforce simp: inj_on_def)
  moreover have "distinct (fifo_blocks p)"
    using btree_ok_distinct [OF fifo_invD(1) [OF assms]] by (simp add: distinct_map)
  ultimately show ?thesis by (simp add: fifo_queue_def distinct_map)
qed

lemma fifo_abs_Some:
  assumes "fifo_inv p"
  shows "fifo_abs p b = Some h \<longleftrightarrow> \<lparr>ib_block_id = b, ib_seq_hash = h\<rparr> \<in> set (fifo_queue p)"
proof -
  have "distinct (map fst (map (\<lambda>ib. (ib_block_id ib, ib_seq_hash ib)) (fifo_queue p)))"
    using fifo_queue_distinct [OF assms] by (simp add: comp_def)
  then have "fifo_abs p b = Some h
      \<longleftrightarrow> (b, h) \<in> (\<lambda>ib. (ib_block_id ib, ib_seq_hash ib)) ` set (fifo_queue p)"
    by (simp add: fifo_abs_def)
  also have "\<dots> \<longleftrightarrow> \<lparr>ib_block_id = b, ib_seq_hash = h\<rparr> \<in> set (fifo_queue p)"
  proof
    assume "(b, h) \<in> (\<lambda>ib. (ib_block_id ib, ib_seq_hash ib)) ` set (fifo_queue p)"
    then obtain ib where "ib \<in> set (fifo_queue p)" "b = ib_block_id ib" "h = ib_seq_hash ib" by auto
    then show "\<lparr>ib_block_id = b, ib_seq_hash = h\<rparr> \<in> set (fifo_queue p)"
      by (metis inactive_block.surjective old.unit.exhaust)
  qed (rule image_eqI, simp_all)
  finally show ?thesis .
qed

lemma fifo_abs_dom: "dom (fifo_abs p) = ib_block_id ` set (fifo_queue p)"
  by (force simp: fifo_abs_def dom_map_of_conv_image_fst image_iff)

lemma fifo_keys_dom:
  assumes "fifo_inv p"
  shows "map_of (fifo_keys p) b = None \<longleftrightarrow> b \<notin> dom (fifo_abs p)"
proof -
  have "map_of (fifo_keys p) b \<noteq> None \<longleftrightarrow> (\<exists>k ib. (k, ib) \<in> set (fifo_blocks p) \<and> ib_block_id ib = b)"
    using fifo_invD(3) [OF assms] fifo_entries [OF assms] by fastforce
  also have "\<dots> \<longleftrightarrow> b \<in> dom (fifo_abs p)"
    by (force simp: fifo_abs_dom fifo_queue_def)
  finally show ?thesis by blast
qed

lemma fifo_inv_new: "fifo_inv fifo_new"
  by (simp add: fifo_inv_def fifo_new_def)

lemma fifo_queue_new: "fifo_queue fifo_new = []"
  by (simp add: fifo_queue_def fifo_new_def)

text \<open>Insertion appends to the queue; a block id that is already queued is a panic.\<close>

lemma fifo_insert_queue:
  assumes inv: "fifo_inv p" and new: "ib_block_id ib \<notin> dom (fifo_abs p)"
  shows "\<exists>p'. fifo_insert ib p = Some (Inr (), p') \<and> fifo_inv p'
    \<and> fifo_queue p' = fifo_queue p @ [ib]"
proof -
  let ?p = "p\<lparr>fifo_next_seq := fifo_next_seq p + 1,
    fifo_keys := AList.update (ib_block_id ib) (fifo_next_seq p) (fifo_keys p),
    fifo_blocks := btree_insert (fifo_next_seq p) ib (fifo_blocks p)\<rparr>"
  note ok = fifo_invD [OF inv]
  have app: "btree_insert (fifo_next_seq p) ib (fifo_blocks p)
      = fifo_blocks p @ [(fifo_next_seq p, ib)]"
    using ok by (intro btree_insert_append) auto
  have fresh: "map_of (fifo_blocks p) (fifo_next_seq p) = None"
    using ok(4) by (fastforce simp: map_of_eq_None_iff)
  have none: "map_of (fifo_keys p) (ib_block_id ib) = None"
    using new fifo_keys_dom [OF inv] by simp
  have "fifo_inv ?p"
    unfolding fifo_inv_def
  proof (intro conjI allI ballI)
    show "btree_ok (fifo_blocks ?p)" using btree_ok_insert [OF ok(1)] by simp
    show "hash_map_ok (fifo_keys ?p)" using ok(2) by (simp add: hash_map_ok_update)
    show "map_of (fifo_keys ?p) b = Some k \<longleftrightarrow>
        (\<exists>ib'. map_of (fifo_blocks ?p) k = Some ib' \<and> ib_block_id ib' = b)" for b k
      using fresh none ok(1) ok(3) [of b k] ok(3) [of "ib_block_id ib" k]
      by (auto simp: map_of_update map_of_btree_insert)
    show "k < fifo_next_seq ?p" if "k \<in> fst ` set (fifo_blocks ?p)" for k
      using that ok(4) by (fastforce simp: app)
  qed
  with none show ?thesis
    by (simp add: fifo_insert_def fifo_queue_def app Let_def)
qed

lemma fifo_insert_panics:
  "fifo_inv p \<Longrightarrow> ib_block_id ib \<in> dom (fifo_abs p) \<Longrightarrow> fifo_insert ib p = None"
  using fifo_keys_dom [of p "ib_block_id ib"] by (auto simp: fifo_insert_def)

text \<open>Removing one block keeps the order of the others.\<close>

lemma fifo_remove_queue:
  assumes inv: "fifo_inv p"
  shows "\<exists>p'. fifo_remove b p =
      Some (if b \<in> dom (fifo_abs p) then Inr () else Inl (BlockNotFound b), p') \<and> fifo_inv p'
    \<and> fifo_queue p' = filter (\<lambda>ib. ib_block_id ib \<noteq> b) (fifo_queue p)"
proof (cases "map_of (fifo_keys p) b")
  case None
  then have "b \<notin> dom (fifo_abs p)" using fifo_keys_dom [OF inv] by simp
  moreover then have "filter (\<lambda>ib. ib_block_id ib \<noteq> b) (fifo_queue p) = fifo_queue p"
    by (auto simp: fifo_abs_dom intro: filter_True)
  ultimately show ?thesis using None inv by (simp add: fifo_remove_def)
next
  case (Some k)
  note ok = fifo_invD [OF inv]
  from Some ok(3) obtain ib where ib: "map_of (fifo_blocks p) k = Some ib" "ib_block_id ib = b" by blast
  let ?p = "p\<lparr>fifo_keys := AList.delete b (fifo_keys p),
    fifo_blocks := btree_remove k (fifo_blocks p)\<rparr>"
  have "fifo_inv ?p"
    unfolding fifo_inv_def
  proof (intro conjI allI ballI)
    show "btree_ok (fifo_blocks ?p)" using btree_ok_remove [OF ok(1)] by simp
    show "hash_map_ok (fifo_keys ?p)" using ok(2) by (simp add: hash_map_ok_delete)
    show "map_of (fifo_keys ?p) b' = Some k' \<longleftrightarrow>
        (\<exists>ib'. map_of (fifo_blocks ?p) k' = Some ib' \<and> ib_block_id ib' = b')" for b' k'
      using ib Some ok(3) [of b k'] ok(3) [of b' k'] ok(3) [of b' k]
      by (auto simp: map_of_delete map_of_btree_remove)
    show "k' < fifo_next_seq ?p" if "k' \<in> fst ` set (fifo_blocks ?p)" for k'
      using that ok(4) by (fastforce simp: set_btree_remove)
  qed
  moreover have "fst kb = k \<longleftrightarrow> ib_block_id (snd kb) = b" if "kb \<in> set (fifo_blocks p)" for kb
    using fifo_key_inj [OF inv, of "fst kb" "snd kb" k ib] ib that
    by (auto simp: fifo_entries [OF inv, symmetric])
       (metis eq_snd_iff fifo_entries inv option.inject prod.collapse)
  then have "fifo_queue ?p = filter (\<lambda>ib. ib_block_id ib \<noteq> b) (fifo_queue p)"
    by (auto simp: fifo_queue_def btree_remove_def filter_map comp_def intro!: arg_cong [where f = "map snd"] filter_cong)
  moreover have "b \<in> dom (fifo_abs p)" using Some fifo_keys_dom [OF inv, of b] by auto
  ultimately show ?thesis using Some ib by (simp add: fifo_remove_def)
qed

text \<open>The head of the queue is the next free block.\<close>

lemma fifo_next_free_Nil: "fifo_queue p = [] \<Longrightarrow> fifo_next_free p = Some (None, p)"
  by (simp add: fifo_next_free_def fifo_queue_def)

lemma fifo_next_free_Cons:
  assumes inv: "fifo_inv p" and q: "fifo_queue p = ib # q"
  shows "\<exists>p'. fifo_next_free p = Some (Some ib, p') \<and> fifo_inv p' \<and> fifo_queue p' = q"
proof -
  note ok = fifo_invD [OF inv]
  from q obtain k bs where bs: "fifo_blocks p = (k, ib) # bs" "q = map snd bs"
    by (auto simp: fifo_queue_def map_eq_Cons_conv)
  have key: "map_of (fifo_keys p) (ib_block_id ib) = Some k"
    using ok(3) [of "ib_block_id ib" k] bs by simp
  have k: "k \<notin> fst ` set bs" using btree_ok_distinct [OF ok(1)] bs by simp
  then have none: "map_of bs k = None" by (simp add: map_of_eq_None_iff)
  let ?p = "p\<lparr>fifo_blocks := bs, fifo_keys := AList.delete (ib_block_id ib) (fifo_keys p)\<rparr>"
  have "fifo_inv ?p"
    unfolding fifo_inv_def
  proof (intro conjI allI ballI)
    show "btree_ok (fifo_blocks ?p)" using ok(1) bs by simp
    show "hash_map_ok (fifo_keys ?p)" using ok(2) by (simp add: hash_map_ok_delete)
    show "map_of (fifo_keys ?p) b' = Some k' \<longleftrightarrow>
        (\<exists>ib'. map_of (fifo_blocks ?p) k' = Some ib' \<and> ib_block_id ib' = b')" for b' k'
      using ok(3) [of b' k'] ok(3) [of "ib_block_id ib" k'] key none
      by (auto simp: map_of_delete bs split: if_splits)
    show "k' < fifo_next_seq ?p" if "k' \<in> fst ` set (fifo_blocks ?p)" for k'
      using that ok(4) [of k'] by (simp add: bs)
  qed
  with key bs show ?thesis
    by (simp add: fifo_next_free_def fifo_queue_def)
qed

text \<open>Rebinding replaces a block id in place: the entry keeps its position in the queue.\<close>

definition rebind_block :: "block_id \<Rightarrow> block_id \<Rightarrow> 'h inactive_block \<Rightarrow> 'h inactive_block" where
  "rebind_block src dst ib = (if ib_block_id ib = src then ib\<lparr>ib_block_id := dst\<rparr> else ib)"

lemma btree_replace:
  assumes "btree_ok m" and "map_of m k = Some v"
  shows "btree_insert k w m = map (\<lambda>(k', v'). (k', if k' = k then w else v')) m"
  using assms
proof (induction m)
  case (Cons kv m)
  obtain k' v' where kv: "kv = (k', v')" by (cases kv)
  show ?case
  proof (cases "k = k'")
    case True
    then have "\<forall>kv \<in> set m. fst kv \<noteq> k" using Cons.prems kv by auto
    then have "map (\<lambda>(k', v'). (k', if k' = k then w else v')) m = m"
      by (intro map_idI) auto
    with True kv show ?thesis by simp
  next
    case False
    then have "map_of m k = Some v" using Cons.prems kv by simp
    then have "k \<in> fst ` set m" by (metis domI dom_map_of_conv_image_fst)
    then have "k' < k" using Cons.prems kv by auto
    with False Cons kv show ?thesis by auto
  qed
qed simp

lemma fifo_rebind_queue:
  assumes inv: "fifo_inv p" and src: "fifo_abs p src = Some h" and dst: "dst \<notin> dom (fifo_abs p)"
  shows "\<exists>p'. fifo_rebind h src dst p = Some (True, p') \<and> fifo_inv p'
    \<and> fifo_queue p' = map (rebind_block src dst) (fifo_queue p)"
proof -
  note ok = fifo_invD [OF inv]
  from src have "\<lparr>ib_block_id = src, ib_seq_hash = h\<rparr> \<in> set (fifo_queue p)"
    by (simp add: fifo_abs_Some [OF inv])
  then obtain k where k: "map_of (fifo_blocks p) k = Some \<lparr>ib_block_id = src, ib_seq_hash = h\<rparr>"
    by (auto simp: fifo_queue_def fifo_entries [OF inv])
  have key: "map_of (fifo_keys p) src = Some k" using k ok(3) by simp
  have none: "map_of (fifo_keys p) dst = None" using dst fifo_keys_dom [OF inv] by simp
  let ?ib = "\<lparr>ib_block_id = dst, ib_seq_hash = h\<rparr>"
  let ?p = "p\<lparr>fifo_keys := AList.update dst k (AList.delete src (fifo_keys p)),
    fifo_blocks := btree_insert k ?ib (fifo_blocks p)\<rparr>"
  have "fifo_inv ?p"
    unfolding fifo_inv_def
  proof (intro conjI allI ballI)
    show "btree_ok (fifo_blocks ?p)" using btree_ok_insert [OF ok(1)] by simp
    show "hash_map_ok (fifo_keys ?p)"
      using ok(2) by (simp add: hash_map_ok_delete hash_map_ok_update)
    show "map_of (fifo_keys ?p) b' = Some k' \<longleftrightarrow>
        (\<exists>ib'. map_of (fifo_blocks ?p) k' = Some ib' \<and> ib_block_id ib' = b')" for b' k'
      using ok(3) [of b' k'] ok(3) [of src k'] ok(3) [of dst k'] key none k
      by (auto simp: map_of_delete map_of_update map_of_btree_insert ok(1) split: if_splits)
    show "k' < fifo_next_seq ?p" if "k' \<in> fst ` set (fifo_blocks ?p)" for k'
    proof -
      have "k \<in> fst ` set (fifo_blocks p)" using map_of_SomeD [OF k] by force
      with that ok(4) show ?thesis by (auto simp: set_btree_insert [OF ok(1)])
    qed
  qed
  moreover have "fifo_queue ?p = map (rebind_block src dst) (fifo_queue p)"
  proof -
    have "(if k' = k then ?ib else ib) = rebind_block src dst ib"
      if that: "(k', ib) \<in> set (fifo_blocks p)" for k' ib
    proof (cases "k' = k")
      case True
      with that k have "ib = \<lparr>ib_block_id = src, ib_seq_hash = h\<rparr>" by (simp add: fifo_entries [OF inv])
      with True show ?thesis by (simp add: rebind_block_def)
    next
      case False
      with fifo_key_inj [OF inv that map_of_SomeD [OF k]] have "ib_block_id ib \<noteq> src" by auto
      with False show ?thesis by (simp add: rebind_block_def)
    qed
    then show ?thesis
      by (auto simp: fifo_queue_def btree_replace [OF ok(1) k])
  qed
  ultimately show ?thesis
    using key none k by (simp add: fifo_rebind_def)
qed

lemma fifo_rebind_refused:
  assumes inv: "fifo_inv p" and no: "\<not> (fifo_abs p src = Some h \<and> dst \<notin> dom (fifo_abs p))"
  shows "fifo_rebind h src dst p = Some (False, p)"
proof (cases "map_of (fifo_keys p) src")
  case (Some k)
  then obtain ib where ib: "map_of (fifo_blocks p) k = Some ib" "ib_block_id ib = src"
    using fifo_invD(3) [OF inv] by blast
  show ?thesis
  proof (cases "map_of (fifo_keys p) dst = None")
    case True
    then have "dst \<notin> dom (fifo_abs p)" using fifo_keys_dom [OF inv] by simp
    with no have "fifo_abs p src \<noteq> Some h" by simp
    moreover have "ib \<in> set (fifo_queue p)"
      using ib(1) by (force simp: fifo_queue_def dest: map_of_SomeD)
    ultimately have "ib_seq_hash ib \<noteq> h"
      using ib(2) fifo_abs_Some [OF inv] by (metis (full_types) inactive_block.surjective old.unit.exhaust)
    with True Some ib show ?thesis by (simp add: fifo_rebind_def)
  qed (use Some in \<open>auto simp: fifo_rebind_def\<close>)
qed (simp add: fifo_rebind_def)

section \<open>The FIFO policy keeps the contract\<close>

lemma fifo_abs_append:
  assumes "fifo_queue p' = fifo_queue p @ [\<lparr>ib_block_id = b, ib_seq_hash = h\<rparr>]" and "b \<notin> dom (fifo_abs p)"
  shows "fifo_abs p' = (fifo_abs p)(b \<mapsto> h)"
  using assms by (auto simp: fifo_abs_def fun_eq_iff map_add_def split: option.splits)

lemma fifo_abs_filter:
  assumes "fifo_queue p' = filter (\<lambda>ib. ib_block_id ib \<noteq> b) (fifo_queue p)"
  shows "fifo_abs p' = (fifo_abs p)(b := None)"
proof -
  have "map_of (map (\<lambda>ib. (ib_block_id ib, ib_seq_hash ib)) (filter (\<lambda>ib. ib_block_id ib \<noteq> b) xs))
      = (map_of (map (\<lambda>ib. (ib_block_id ib, ib_seq_hash ib)) xs))(b := None)" for xs :: "'a inactive_block list"
    by (induction xs) (auto simp: fun_eq_iff)
  with assms show ?thesis by (simp add: fifo_abs_def)
qed

lemma fifo_abs_rebind:
  assumes inv: "fifo_inv p" and q: "fifo_queue p' = map (rebind_block src dst) (fifo_queue p)"
    and src: "fifo_abs p src = Some h" and dst: "dst \<notin> dom (fifo_abs p)"
  shows "fifo_abs p' = (fifo_abs p)(src := None, dst \<mapsto> h)"
proof -
  define f :: "'a inactive_block \<Rightarrow> block_id \<times> 'a" where "f = (\<lambda>ib. (ib_block_id ib, ib_seq_hash ib))"
  have "map_of (map (f \<circ> rebind_block src dst) xs) = (map_of (map f xs))(src := None, dst := map_of (map f xs) src)"
    if "dst \<notin> ib_block_id ` set xs" "distinct (map ib_block_id xs)" for xs
    using that
  proof (induction xs)
    case Nil then show ?case by (simp add: fun_eq_iff)
  next
    case (Cons ib xs)
    have "map_of (map f xs) (ib_block_id ib) = None"
      using Cons.prems(2) by (auto simp: map_of_eq_None_iff f_def image_comp)
    with Cons show ?case
      by (auto simp: rebind_block_def f_def fun_eq_iff)
  qed
  from this [of "fifo_queue p"] have "map_of (map (f \<circ> rebind_block src dst) (fifo_queue p))
      = (fifo_abs p)(src := None, dst := fifo_abs p src)"
    using fifo_queue_distinct [OF inv] dst by (simp add: fifo_abs_dom) (simp add: fifo_abs_def f_def)
  with q src show ?thesis by (simp add: fifo_abs_def f_def)
qed

interpretation fifo: reuse_policy fifo_ops fifo_inv fifo_abs
proof (unfold_locales, goal_cases)
  case 1 then show ?case by (simp add: fifo_abs_dom)
next
  case (2 p b h)
  with fifo_insert_queue [of p "\<lparr>ib_block_id = b, ib_seq_hash = h\<rparr>"]
  show ?case by (auto simp: fifo_ops_def intro: fifo_abs_append)
next
  case (3 p b)
  with fifo_remove_queue [of p b] fifo_abs_filter show ?case
    unfolding fifo_ops_def reuse_ops.simps by blast
next
  case (4 p h src dst)
  show ?case
  proof (cases "fifo_abs p src = Some h \<and> dst \<notin> dom (fifo_abs p)")
    case True
    with fifo_rebind_queue [of p src h dst] 4 obtain p' where
      "fifo_rebind h src dst p = Some (True, p')" "fifo_inv p'"
      "fifo_queue p' = map (rebind_block src dst) (fifo_queue p)" by blast
    with True 4 fifo_abs_rebind [of p p' src dst h] show ?thesis by (simp add: fifo_ops_def)
  qed (use fifo_rebind_refused [OF 4] 4 in \<open>auto simp: fifo_ops_def\<close>)
next
  case (5 p) then show ?case by (simp add: fifo_ops_def fifo_abs_dom fifo_next_free_Nil)
next
  case (6 p)
  then obtain ib q where q: "fifo_queue p = ib # q" by (auto simp: fifo_abs_dom neq_Nil_conv)
  obtain b h where ib: "ib = \<lparr>ib_block_id = b, ib_seq_hash = h\<rparr>" by (cases ib)
  have "b \<notin> ib_block_id ` set q" using fifo_queue_distinct [OF 6(1)] q ib by simp
  then have "q = filter (\<lambda>x. ib_block_id x \<noteq> b) (fifo_queue p)"
    unfolding q ib by (simp, intro filter_True [symmetric]) (metis image_eqI)
  moreover have "fifo_abs p b = Some h" by (simp add: fifo_abs_def q ib)
  moreover obtain p' where "fifo_next_free p = Some (Some ib, p')" "fifo_inv p'" "fifo_queue p' = q"
    using fifo_next_free_Cons [OF 6(1) q] by blast
  ultimately show ?case
    using fifo_abs_filter [of p' b p] by (auto simp: fifo_ops_def ib)
next
  case (7 p) then show ?case
    by (simp add: fifo_ops_def fifo_is_empty_def fifo_abs_dom fifo_queue_def)
next
  case (8 p)
  have "card (ib_block_id ` set (fifo_queue p)) = length (fifo_queue p)"
    using distinct_card [OF fifo_queue_distinct [OF 8]] by simp
  then show ?case by (simp add: fifo_ops_def fifo_len_def fifo_abs_dom fifo_queue_def)
qed

end
