(* ===== verification/Hashmap_Backend.thy ===== *)
theory Hashmap_Backend
  imports Inactive_Index Reuse_Policy
begin

text \<open>
  \<open>HashMapBackend\<close> (\<open>pools/inactive/backends/hashmap_backend.rs\<close>): a hash map from sequence hashes
  to block ids with the eviction order delegated to a reuse policy. For every reuse policy that
  keeps the contract of \<open>Reuse_Policy\<close> the backend keeps the contract of \<open>Inactive_Index\<close>; with the
  FIFO policy it moreover evicts in the order the blocks became inactive.

  \<open>HashMap::drain\<close> yields the entries in an unspecified order, the parameter \<open>order\<close>.
\<close>

section \<open>The backend\<close>

record ('h, 'p) hashmap_backend =
  hm_blocks :: "('h, block_id) hash_map"
  hm_policy :: 'p

definition hm_new :: "'p \<Rightarrow> ('h, 'p) hashmap_backend" where
  "hm_new policy = \<lparr>hm_blocks = [], hm_policy = policy\<rparr>"

definition hm_find_match ::
  "('h, 'p) reuse_ops \<Rightarrow> 'h \<Rightarrow> bool \<Rightarrow> ('h, 'p) hashmap_backend
    \<Rightarrow> (('h \<times> block_id) option \<times> ('h, 'p) hashmap_backend) option" where
  "hm_find_match rops hash touch i =
     (case map_of (hm_blocks i) hash of
        None \<Rightarrow> Some (None, i)
      | Some block_id \<Rightarrow> do {
          (_, p) \<leftarrow> rp_remove rops block_id (hm_policy i);
          Some (Some (hash, block_id),
                i\<lparr>hm_blocks := AList.delete hash (hm_blocks i), hm_policy := p\<rparr>)
        })"

fun hm_find_matches ::
  "('h, 'p) reuse_ops \<Rightarrow> 'h list \<Rightarrow> bool \<Rightarrow> ('h, 'p) hashmap_backend
    \<Rightarrow> (('h \<times> block_id) list \<times> ('h, 'p) hashmap_backend) option" where
  "hm_find_matches rops [] touch i = Some ([], i)"
| "hm_find_matches rops (hash # hashes) touch i =
     (case map_of (hm_blocks i) hash of
        Some block_id \<Rightarrow> do {
          (_, p) \<leftarrow> rp_remove rops block_id (hm_policy i);
          (matches, i') \<leftarrow> hm_find_matches rops hashes touch
            (i\<lparr>hm_blocks := AList.delete hash (hm_blocks i), hm_policy := p\<rparr>);
          Some ((hash, block_id) # matches, i')
        }
      | None \<Rightarrow> Some ([], i))"

fun hm_scan_matches ::
  "('h, 'p) reuse_ops \<Rightarrow> 'h list \<Rightarrow> bool \<Rightarrow> ('h, 'p) hashmap_backend
    \<Rightarrow> (('h \<times> block_id) list \<times> ('h, 'p) hashmap_backend) option" where
  "hm_scan_matches rops [] touch i = Some ([], i)"
| "hm_scan_matches rops (hash # hashes) touch i =
     (case map_of (hm_blocks i) hash of
        Some block_id \<Rightarrow> do {
          (_, p) \<leftarrow> rp_remove rops block_id (hm_policy i);
          (matches, i') \<leftarrow> hm_scan_matches rops hashes touch
            (i\<lparr>hm_blocks := AList.delete hash (hm_blocks i), hm_policy := p\<rparr>);
          Some ((hash, block_id) # matches, i')
        }
      | None \<Rightarrow> hm_scan_matches rops hashes touch i)"

text \<open>
  A policy entry whose hash is not in the map is skipped; the debug assertion on that branch is
  discharged by the invariant.
\<close>

fun hm_allocate ::
  "('h, 'p) reuse_ops \<Rightarrow> nat \<Rightarrow> ('h, 'p) hashmap_backend
    \<Rightarrow> (('h \<times> block_id) list \<times> ('h, 'p) hashmap_backend) option" where
  "hm_allocate rops 0 i = Some ([], i)"
| "hm_allocate rops (Suc n) i = do {
     (next_block, p) \<leftarrow> rp_next_free rops (hm_policy i);
     case next_block of
       None \<Rightarrow> Some ([], i\<lparr>hm_policy := p\<rparr>)
     | Some ib \<Rightarrow>
         (if map_of (hm_blocks i) (ib_seq_hash ib) \<noteq> None then do {
            (allocated, i') \<leftarrow> hm_allocate rops n
              (i\<lparr>hm_blocks := AList.delete (ib_seq_hash ib) (hm_blocks i), hm_policy := p\<rparr>);
            Some ((ib_seq_hash ib, ib_block_id ib) # allocated, i')
          } else hm_allocate rops n (i\<lparr>hm_policy := p\<rparr>))
   }"

definition hm_insert ::
  "('h, 'p) reuse_ops \<Rightarrow> 'h \<Rightarrow> block_id \<Rightarrow> ('h, 'p) hashmap_backend
    \<Rightarrow> ('h, 'p) hashmap_backend option" where
  "hm_insert rops seq_hash block_id i = do {
     (_, p) \<leftarrow> rp_insert rops \<lparr>ib_block_id = block_id, ib_seq_hash = seq_hash\<rparr> (hm_policy i);
     Some (i\<lparr>hm_policy := p, hm_blocks := AList.update seq_hash block_id (hm_blocks i)\<rparr>)
   }"

definition hm_rebind ::
  "('h, 'p) reuse_ops \<Rightarrow> 'h \<Rightarrow> block_id \<Rightarrow> block_id \<Rightarrow> ('h, 'p) hashmap_backend
    \<Rightarrow> (bool \<times> ('h, 'p) hashmap_backend) option" where
  "hm_rebind rops seq_hash src dst i =
     (if map_of (hm_blocks i) seq_hash \<noteq> Some src then Some (False, i)
      else do {
        (ok, p) \<leftarrow> rp_rebind rops seq_hash src dst (hm_policy i);
        if \<not> ok then Some (False, i\<lparr>hm_policy := p\<rparr>)
        else Some (True, i\<lparr>hm_policy := p,
                           hm_blocks := AList.update seq_hash dst (hm_blocks i)\<rparr>)
      })"

definition hm_len :: "('h, 'p) hashmap_backend \<Rightarrow> nat" where
  "hm_len i = length (hm_blocks i)"

definition hm_has :: "('h, 'p) hashmap_backend \<Rightarrow> 'h \<Rightarrow> bool" where
  "hm_has i seq_hash = (map_of (hm_blocks i) seq_hash \<noteq> None)"

definition hm_take ::
  "('h, 'p) reuse_ops \<Rightarrow> 'h \<Rightarrow> block_id \<Rightarrow> ('h, 'p) hashmap_backend
    \<Rightarrow> (bool \<times> ('h, 'p) hashmap_backend) option" where
  "hm_take rops seq_hash block_id i =
     (if map_of (hm_blocks i) seq_hash = Some block_id then do {
        (_, p) \<leftarrow> rp_remove rops block_id (hm_policy i);
        Some (True, i\<lparr>hm_blocks := AList.delete seq_hash (hm_blocks i), hm_policy := p\<rparr>)
      } else Some (False, i))"

text \<open>\<open>while self.reuse_policy.next_free().is_some() {}\<close>: not returning is the value None.\<close>

partial_function (option) hm_drain_policy ::
  "('h, 'p) reuse_ops \<Rightarrow> 'p \<Rightarrow> 'p option" where
  [code]: "hm_drain_policy rops p =
     Option.bind (rp_next_free rops p)
       (\<lambda>(next_block, p'). if next_block \<noteq> None then hm_drain_policy rops p' else Some p')"

definition hm_allocate_all ::
  "('h, 'p) reuse_ops \<Rightarrow> (('h \<times> block_id) list \<Rightarrow> ('h \<times> block_id) list)
    \<Rightarrow> ('h, 'p) hashmap_backend \<Rightarrow> (('h \<times> block_id) list \<times> ('h, 'p) hashmap_backend) option" where
  "hm_allocate_all rops order i = do {
     p \<leftarrow> hm_drain_policy rops (hm_policy i);
     Some (iteration_order order (hm_blocks i), \<lparr>hm_blocks = [], hm_policy = p\<rparr>)
   }"

definition hm_ops ::
  "('h, 'p) reuse_ops \<Rightarrow> (('h \<times> block_id) list \<Rightarrow> ('h \<times> block_id) list)
    \<Rightarrow> ('h, ('h, 'p) hashmap_backend) index_ops" where
  "hm_ops rops order = \<lparr>
     ix_grow_capacity = grow_capacity_default,
     ix_find_matches = hm_find_matches rops,
     ix_find_match = hm_find_match rops,
     ix_scan_matches = hm_scan_matches rops,
     ix_allocate = hm_allocate rops,
     ix_insert = hm_insert rops,
     ix_rebind = hm_rebind rops,
     ix_len = hm_len,
     ix_has = hm_has,
     ix_take = hm_take rops,
     ix_take_with_descendants = take_with_descendants_default (hm_take rops),
     ix_take_complete_lineage = take_complete_lineage_default,
     ix_complete_lineage = complete_lineage_default,
     ix_supports_exact_reclaim = supports_exact_reclaim_default,
     ix_exact_block_id = exact_block_id_default,
     ix_preflight_exact_reclaim = preflight_exact_reclaim_default,
     ix_poison = poison_default,
     ix_allocate_all = hm_allocate_all rops order,
     ix_peek_victims = peek_victims_default,
     ix_advice = advice_default\<rparr>"

section \<open>The invariant\<close>

definition hm_inv ::
  "('p \<Rightarrow> bool) \<Rightarrow> ('p \<Rightarrow> block_id \<rightharpoonup> 'h) \<Rightarrow> ('h, 'p) hashmap_backend \<Rightarrow> bool" where
  "hm_inv pinv pabs i \<longleftrightarrow> hash_map_ok (hm_blocks i) \<and> pinv (hm_policy i)
     \<and> (\<forall>h b. map_of (hm_blocks i) h = Some b \<longleftrightarrow> pabs (hm_policy i) b = Some h)"

definition hm_abs :: "('h, 'p) hashmap_backend \<Rightarrow> 'h \<rightharpoonup> block_id" where
  "hm_abs i = map_of (hm_blocks i)"

definition hm_room :: "nat \<Rightarrow> ('h, 'p) hashmap_backend \<Rightarrow> bool" where
  "hm_room n i = True"

lemma hm_abs_delete:
  "hm_abs (i\<lparr>hm_blocks := AList.delete h (hm_blocks i), hm_policy := p\<rparr>) = (hm_abs i)(h := None)"
  by (simp add: hm_abs_def map_of_delete)

lemma length_delete_hit:
  assumes "hash_map_ok m" and "map_of m k = Some v"
  shows "Suc (length (AList.delete k m)) = length m"
proof -
  have "card (dom (map_of (AList.delete k m))) = card (dom (map_of m)) - 1"
    using assms(2) by (simp add: map_of_delete domI card_Diff_singleton)
  moreover have "card (dom (map_of m)) \<noteq> 0"
    using assms(2) by (auto simp: card_eq_0_iff finite_dom_map_of)
  ultimately show ?thesis
    using assms(1) by (simp add: card_dom_map_of hash_map_ok_delete)
qed

lemma hm_invI:
  assumes "hash_map_ok (hm_blocks i)" and "pinv (hm_policy i)"
    and "\<And>h b. map_of (hm_blocks i) h = Some b \<longleftrightarrow> pabs (hm_policy i) b = Some h"
  shows "hm_inv pinv pabs i"
  using assms by (simp add: hm_inv_def)

lemma hm_invD:
  assumes "hm_inv pinv pabs i"
  shows "hash_map_ok (hm_blocks i)" and "pinv (hm_policy i)"
    and "map_of (hm_blocks i) h = Some b \<longleftrightarrow> pabs (hm_policy i) b = Some h"
  using assms by (auto simp: hm_inv_def)

context reuse_policy
begin

abbreviation hinv :: "('h, 'p) hashmap_backend \<Rightarrow> bool" where
  "hinv \<equiv> hm_inv pinv pabs"

lemma hm_remove_entry:
  assumes inv: "hinv i" and hit: "map_of (hm_blocks i) h = Some b"
  shows "\<exists>e p. rp_remove rops b (hm_policy i) = Some (e, p)
    \<and> hinv (i\<lparr>hm_blocks := AList.delete h (hm_blocks i), hm_policy := p\<rparr>)"
proof -
  from policy_remove [OF hm_invD(2) [OF inv], of b] obtain e p where
    p: "rp_remove rops b (hm_policy i) = Some (e, p)" "pinv p"
       "pabs p = (pabs (hm_policy i))(b := None)" by blast
  have "hinv (i\<lparr>hm_blocks := AList.delete h (hm_blocks i), hm_policy := p\<rparr>)"
  proof (rule hm_invI)
    fix h' b'
    show "map_of (hm_blocks (i\<lparr>hm_blocks := AList.delete h (hm_blocks i), hm_policy := p\<rparr>)) h' = Some b'
      \<longleftrightarrow> pabs (hm_policy (i\<lparr>hm_blocks := AList.delete h (hm_blocks i), hm_policy := p\<rparr>)) b' = Some h'"
      using hm_invD(3) [OF inv, of h b'] hm_invD(3) [OF inv, of h' b'] hm_invD(3) [OF inv, of h' b]
        hit p(3) hm_invD(3) [OF inv, of h b]
      by (auto simp: map_of_delete)
  qed (use inv p in \<open>simp_all add: hm_invD hash_map_ok_delete\<close>)
  with p show ?thesis by blast
qed

lemma hm_finite: "hinv i \<Longrightarrow> finite (dom (hm_abs i))"
  by (simp add: hm_abs_def finite_dom_map_of)

lemma hm_len_card: "hinv i \<Longrightarrow> hm_len i = card (dom (hm_abs i))"
  by (simp add: hm_len_def hm_abs_def card_dom_map_of hm_invD(1))

lemma hm_find_match_spec:
  assumes "hinv i"
  shows "\<exists>i'. hm_find_match rops h touch i = Some (map_option (Pair h) (hm_abs i h), i')
    \<and> hinv i' \<and> hm_abs i' = (hm_abs i)(h := None)"
proof (cases "map_of (hm_blocks i) h")
  case (Some b)
  with hm_remove_entry [OF assms Some] show ?thesis
    by (auto simp: hm_find_match_def hm_abs_def map_of_delete)
qed (use assms in \<open>auto simp: hm_find_match_def hm_abs_def fun_upd_idem\<close>)

lemma hm_find_matches_spec:
  assumes "hinv i"
  shows "\<exists>r i'. hm_find_matches rops hs touch i = Some (r, i')
    \<and> hinv i' \<and> map_find_matches hs (hm_abs i) = (r, hm_abs i')"
  using assms
proof (induction hs arbitrary: i)
  case (Cons h hs)
  show ?case
  proof (cases "map_of (hm_blocks i) h")
    case (Some b)
    from hm_remove_entry [OF Cons.prems Some] obtain e p where
      p: "rp_remove rops b (hm_policy i) = Some (e, p)"
      and inv: "hinv (i\<lparr>hm_blocks := AList.delete h (hm_blocks i), hm_policy := p\<rparr>)" by blast
    from Cons.IH [OF inv] obtain r i' where
      "hm_find_matches rops hs touch (i\<lparr>hm_blocks := AList.delete h (hm_blocks i), hm_policy := p\<rparr>)
        = Some (r, i')"
      "hinv i'" "map_find_matches hs ((hm_abs i)(h := None)) = (r, hm_abs i')"
      unfolding hm_abs_delete by blast
    moreover have "hm_abs i h = Some b" using Some by (simp add: hm_abs_def)
    ultimately show ?thesis using Some p by simp
  qed (use Cons.prems in \<open>auto simp: hm_abs_def\<close>)
qed simp

lemma hm_scan_matches_spec:
  assumes "hinv i"
  shows "\<exists>r i'. hm_scan_matches rops hs touch i = Some (r, i')
    \<and> hinv i' \<and> map_scan_matches hs (hm_abs i) = (r, hm_abs i')"
  using assms
proof (induction hs arbitrary: i)
  case (Cons h hs)
  show ?case
  proof (cases "map_of (hm_blocks i) h")
    case (Some b)
    from hm_remove_entry [OF Cons.prems Some] obtain e p where
      p: "rp_remove rops b (hm_policy i) = Some (e, p)"
      and inv: "hinv (i\<lparr>hm_blocks := AList.delete h (hm_blocks i), hm_policy := p\<rparr>)" by blast
    from Cons.IH [OF inv] obtain r i' where
      "hm_scan_matches rops hs touch (i\<lparr>hm_blocks := AList.delete h (hm_blocks i), hm_policy := p\<rparr>)
        = Some (r, i')"
      "hinv i'" "map_scan_matches hs ((hm_abs i)(h := None)) = (r, hm_abs i')"
      unfolding hm_abs_delete by blast
    moreover have "hm_abs i h = Some b" using Some by (simp add: hm_abs_def)
    ultimately show ?thesis using Some p by simp
  qed (use Cons in \<open>auto simp: hm_abs_def\<close>)
qed simp

text \<open>The next free block of the policy is an entry of the map; popping it keeps the invariant.\<close>

lemma hm_pop_policy:
  assumes inv: "hinv i" and ne: "hm_blocks i \<noteq> []"
  shows "\<exists>b h p. rp_next_free rops (hm_policy i) = Some (Some \<lparr>ib_block_id = b, ib_seq_hash = h\<rparr>, p)
    \<and> map_of (hm_blocks i) h = Some b
    \<and> hinv (i\<lparr>hm_blocks := AList.delete h (hm_blocks i), hm_policy := p\<rparr>)"
proof -
  note ok = hm_invD [OF inv]
  from ne have "hd (hm_blocks i) \<in> set (hm_blocks i)" by simp
  then obtain h0 b0 where "map_of (hm_blocks i) h0 = Some b0"
    using ok(1) by (metis map_of_eq_Some_iff prod.collapse)
  then have "dom (pabs (hm_policy i)) \<noteq> {}" using ok(3) by fastforce
  from policy_next_free [OF ok(2) this] obtain b h p where
    p: "rp_next_free rops (hm_policy i) = Some (Some \<lparr>ib_block_id = b, ib_seq_hash = h\<rparr>, p)" "pinv p"
       "pabs (hm_policy i) b = Some h" "pabs p = (pabs (hm_policy i))(b := None)" by blast
  have hit: "map_of (hm_blocks i) h = Some b" using ok(3) p(3) by blast
  have "hinv (i\<lparr>hm_blocks := AList.delete h (hm_blocks i), hm_policy := p\<rparr>)"
  proof (rule hm_invI)
    fix h' b'
    show "map_of (hm_blocks (i\<lparr>hm_blocks := AList.delete h (hm_blocks i), hm_policy := p\<rparr>)) h' = Some b'
      \<longleftrightarrow> pabs (hm_policy (i\<lparr>hm_blocks := AList.delete h (hm_blocks i), hm_policy := p\<rparr>)) b' = Some h'"
      using ok(3) [of h b'] ok(3) [of h' b'] ok(3) [of h' b] hit p(3,4)
      by (auto simp: map_of_delete)
  qed (use ok p in \<open>simp_all add: hash_map_ok_delete\<close>)
  with p hit show ?thesis by blast
qed

lemma hm_next_free_empty:
  assumes "hinv i" and "hm_blocks i = []"
  shows "rp_next_free rops (hm_policy i) = Some (None, hm_policy i)"
proof -
  have "dom (pabs (hm_policy i)) = {}" using hm_invD(3) [OF assms(1)] assms(2) by fastforce
  with policy_next_free_empty [OF hm_invD(2) [OF assms(1)]] show ?thesis by blast
qed

lemma hm_allocate_spec:
  assumes "hinv i"
  shows "\<exists>r i'. hm_allocate rops k i = Some (r, i') \<and> hinv i' \<and> extracts (hm_abs i) r (hm_abs i')
    \<and> length r = min k (length (hm_blocks i))"
  using assms
proof (induction k arbitrary: i)
  case (Suc k)
  show ?case
  proof (cases "hm_blocks i = []")
    case True
    with hm_next_free_empty [OF Suc.prems True] Suc.prems show ?thesis by simp
  next
    case False
    from hm_pop_policy [OF Suc.prems False] obtain b h p where
      p: "rp_next_free rops (hm_policy i) = Some (Some \<lparr>ib_block_id = b, ib_seq_hash = h\<rparr>, p)"
         "map_of (hm_blocks i) h = Some b"
         "hinv (i\<lparr>hm_blocks := AList.delete h (hm_blocks i), hm_policy := p\<rparr>)" by blast
    from Suc.IH [OF p(3)] obtain r i' where
      r: "hm_allocate rops k (i\<lparr>hm_blocks := AList.delete h (hm_blocks i), hm_policy := p\<rparr>) = Some (r, i')"
         "hinv i'" "extracts ((hm_abs i)(h := None)) r (hm_abs i')"
         "length r = min k (length (hm_blocks
            (i\<lparr>hm_blocks := AList.delete h (hm_blocks i), hm_policy := p\<rparr>)))"
      unfolding hm_abs_delete by blast
    with p show ?thesis
      using length_delete_hit [OF hm_invD(1) [OF Suc.prems] p(2)]
      by (auto simp: extracts_Cons hm_abs_def)
  qed
qed simp

lemma hm_drain_policy_returns:
  assumes "pinv p"
  shows "\<exists>p'. hm_drain_policy rops p = Some p' \<and> pinv p' \<and> dom (pabs p') = {}"
  using assms
proof (induction "card (dom (pabs p))" arbitrary: p rule: less_induct)
  case less
  show ?case
  proof (cases "dom (pabs p) = {}")
    case True
    with policy_next_free_empty [OF less.prems] less.prems show ?thesis
      by (subst hm_drain_policy.simps) auto
  next
    case False
    from policy_next_free [OF less.prems False] obtain b h p' where
      p': "rp_next_free rops p = Some (Some \<lparr>ib_block_id = b, ib_seq_hash = h\<rparr>, p')" "pinv p'"
          "pabs p b = Some h" "pabs p' = (pabs p)(b := None)" by blast
    have "card (dom (pabs p')) < card (dom (pabs p))"
      using p'(3,4) policy_finite [OF less.prems] by (auto intro!: psubset_card_mono)
    from less.hyps [OF this p'(2)] p'(1) show ?thesis
      by (subst hm_drain_policy.simps) auto
  qed
qed

lemma hm_insert_spec:
  assumes inv: "hinv i" and h: "h \<notin> dom (hm_abs i)" and b: "b \<notin> ran (hm_abs i)"
  shows "\<exists>i'. hm_insert rops h b i = Some i' \<and> hinv i' \<and> hm_abs i' = (hm_abs i)(h \<mapsto> b)"
proof -
  note ok = hm_invD [OF inv]
  have "b \<notin> dom (pabs (hm_policy i))"
    using b ok(3) by (fastforce simp: hm_abs_def ran_def)
  from policy_insert [OF ok(2) this, of h] obtain p where
    p: "rp_insert rops \<lparr>ib_block_id = b, ib_seq_hash = h\<rparr> (hm_policy i) = Some (Inr (), p)" "pinv p"
       "pabs p = (pabs (hm_policy i))(b \<mapsto> h)" by blast
  let ?i = "i\<lparr>hm_policy := p, hm_blocks := AList.update h b (hm_blocks i)\<rparr>"
  have "hinv ?i"
  proof (rule hm_invI)
    fix h' b'
    show "map_of (hm_blocks ?i) h' = Some b' \<longleftrightarrow> pabs (hm_policy ?i) b' = Some h'"
      using ok(3) [of h' b'] ok(3) [of h b'] ok(3) [of h' b] h b p(3)
      by (auto simp: map_of_update hm_abs_def ran_def)
  qed (use ok p in \<open>simp_all add: hash_map_ok_update\<close>)
  with p show ?thesis by (simp add: hm_insert_def hm_abs_def map_of_update)
qed

lemma hm_rebind_spec:
  assumes inv: "hinv i" and dst: "dst \<notin> ran (hm_abs i)"
  shows "\<exists>i'. hm_rebind rops h src dst i = Some (hm_abs i h = Some src, i') \<and> hinv i'
    \<and> hm_abs i' = (if hm_abs i h = Some src then (hm_abs i)(h \<mapsto> dst) else hm_abs i)"
proof (cases "hm_abs i h = Some src")
  case True
  note ok = hm_invD [OF inv]
  have src: "pabs (hm_policy i) src = Some h" using True ok(3) by (simp add: hm_abs_def)
  have "dst \<notin> dom (pabs (hm_policy i))"
    using dst ok(3) by (fastforce simp: hm_abs_def ran_def)
  with policy_rebind [OF ok(2), of h src dst] src obtain p where
    p: "rp_rebind rops h src dst (hm_policy i) = Some (True, p)" "pinv p"
       "pabs p = (pabs (hm_policy i))(src := None, dst \<mapsto> h)" by auto
  let ?i = "i\<lparr>hm_policy := p, hm_blocks := AList.update h dst (hm_blocks i)\<rparr>"
  have "hinv ?i"
  proof (rule hm_invI)
    fix h' b'
    show "map_of (hm_blocks ?i) h' = Some b' \<longleftrightarrow> pabs (hm_policy ?i) b' = Some h'"
      using ok(3) [of h' b'] ok(3) [of h b'] ok(3) [of h' dst] ok(3) [of h' src] ok(3) [of h src]
        True dst p(3) src
      by (auto simp: map_of_update hm_abs_def ran_def)
  qed (use ok p in \<open>simp_all add: hash_map_ok_update\<close>)
  with p True show ?thesis by (simp add: hm_rebind_def hm_abs_def map_of_update)
qed (use inv in \<open>auto simp: hm_rebind_def hm_abs_def\<close>)

lemma hm_take_spec:
  assumes "hinv i"
  shows "\<exists>i'. hm_take rops h b i = Some (hm_abs i h = Some b, i') \<and> hinv i'
    \<and> hm_abs i' = (if hm_abs i h = Some b then (hm_abs i)(h := None) else hm_abs i)"
proof (cases "hm_abs i h = Some b")
  case True
  with hm_remove_entry [OF assms, of h b] show ?thesis
    by (auto simp: hm_take_def hm_abs_def map_of_delete)
qed (use assms in \<open>auto simp: hm_take_def hm_abs_def\<close>)

lemma hm_allocate_all_spec:
  assumes inv: "hinv i"
  shows "\<exists>r i'. hm_allocate_all rops order i = Some (r, i') \<and> hinv i'
    \<and> extracts (hm_abs i) r (hm_abs i') \<and> hm_abs i' = Map.empty"
proof -
  note ok = hm_invD [OF inv]
  from hm_drain_policy_returns [OF ok(2)] obtain p where
    p: "hm_drain_policy rops (hm_policy i) = Some p" "pinv p" "dom (pabs p) = {}" by blast
  have "fst ` set (hm_blocks i) = dom (map_of (hm_blocks i))"
    by (simp add: dom_map_of_conv_image_fst)
  then have "extracts (hm_abs i) (iteration_order order (hm_blocks i)) Map.empty"
    using ok(1) by (auto simp: extracts_def hm_abs_def restrict_map_def fun_eq_iff
        map_of_eq_None_iff eq_commute [of None])
  with p show ?thesis
    by (auto simp: hm_allocate_all_def hm_inv_def hm_abs_def)
qed

lemma hm_inactive_index: "inactive_index (hm_ops rops order) hinv hm_abs hm_room"
proof (unfold_locales, goal_cases)
  case 1 then show ?case by (rule hm_finite)
next
  case 2 then show ?case by (simp add: hm_ops_def grow_capacity_default_def hm_room_def)
next
  case 3 then show ?case by (simp add: hm_ops_def hm_len_card)
next
  case 4 then show ?case by (auto simp: hm_ops_def hm_has_def hm_abs_def)
next
  case (5 i h touch) with hm_find_match_spec [OF 5] show ?case by (simp add: hm_ops_def hm_room_def)
next
  case (6 i hs touch) with hm_find_matches_spec [OF 6] show ?case by (simp add: hm_ops_def hm_room_def)
next
  case (7 i hs touch) with hm_scan_matches_spec [OF 7] show ?case by (simp add: hm_ops_def hm_room_def)
next
  case (8 i k)
  with hm_allocate_spec [OF 8, of k] hm_len_card [OF 8] show ?case
    by (simp add: hm_ops_def hm_room_def hm_len_def)
next
  case (9 i) with hm_allocate_all_spec [OF 9] show ?case by (simp add: hm_ops_def hm_room_def)
next
  case (10 i n h b) with hm_insert_spec [OF 10(1,4,5)] show ?case by (simp add: hm_ops_def hm_room_def)
next
  case (11 i dst h src) with hm_rebind_spec [OF 11] show ?case by (simp add: hm_ops_def hm_room_def)
next
  case (12 i h b) with hm_take_spec [OF 12] show ?case by (simp add: hm_ops_def hm_room_def)
next
  case (13 i h b)
  from hm_take_spec [OF 13, of h b] obtain i' where
    "hm_take rops h b i = Some (hm_abs i h = Some b, i')" "hinv i'"
    "hm_abs i' = (if hm_abs i h = Some b then (hm_abs i)(h := None) else hm_abs i)" by blast
  then show ?case
    by (auto simp: hm_ops_def hm_room_def take_with_descendants_default_def extracts_Cons)
next
  case 14 then show ?case by (simp add: hm_ops_def complete_lineage_default_def)
next
  case 15 then show ?case by (simp add: hm_ops_def exact_block_id_default_def)
next
  case 16 then show ?case by (simp add: hm_ops_def peek_victims_default_def)
next
  case 17 then show ?case by (simp add: hm_ops_def poison_default_def)
qed

end

interpretation fifo_hm: inactive_index "hm_ops fifo_ops order" "hm_inv fifo_inv fifo_abs" hm_abs hm_room
  for order
  by (rule fifo.hm_inactive_index)

end
