(* ===== verification/Block_Store.thy ===== *)
theory Block_Store
  imports Inactive_Index
begin

text \<open>
  \<open>BlockStore\<close> (\<open>kvbm-logical/src/pools/store.rs\<close>): the single-mutex bookkeeping of the reset,
  active, held and inactive pools. The record \<open>block_store\<close> holds the fields of \<open>BlockStore\<close>, of the
  \<open>BlockStoreInner\<close> the mutex protects, and of the two things outside the mutex the operations touch:
  the heap of \<open>ImmutableBlockInner\<close> values with their \<open>Arc\<close> strong counts, and the presence counts of
  the registration handles. Every operation runs under the mutex, so it is one atomic function on the
  record; an operation's \<open>mark_present\<close>/\<open>mark_absent\<close> calls, made right after the unlock, are part
  of it. \<open>Arc\<close> identity (\<open>as_ptr\<close>, \<open>ptr_eq\<close>) is identity of heap pointers: a slot's \<open>Weak\<close> keeps its
  allocation, so a pointer is never reused while it can be compared.

  A panic (an index out of range, a failed \<open>assert!\<close> or \<open>unwrap\<close>) is the value None. The
  \<open>debug_assert!\<close>s are not executable code of a release build; the lemmas prove what they state.
\<close>

section \<open>State\<close>

datatype 'h registration_handle = Handle (handle_id: nat) (handle_seq_hash: 'h)

datatype 'h slot_state =
    Reset
  | Mutable
  | Staged 'h
  | Primary 'h "'h registration_handle" nat
  | Duplicate 'h "'h registration_handle" nat
  | Inactive 'h "'h registration_handle"
  | Held 'h "'h registration_handle"

record 'h block_slot =
  slot_block_size :: nat
  generation :: u64
  inactive_epoch :: u64
  slot_state :: "'h slot_state"

text \<open>\<open>ImmutableBlockInner\<close> (\<open>blocks/immutable.rs\<close>) with the strong count of its \<open>Arc\<close>.\<close>

record 'h block_inner =
  in_block_id :: block_id
  in_seq_hash :: 'h
  in_handle :: "'h registration_handle"
  in_is_primary :: bool
  in_keepalive :: "nat option"
  in_strong :: nat

record pool_metrics =
  reset_pool_size :: int
  inactive_pool_size :: int
  held_residency :: int
  inflight_mutable :: int
  inflight_immutable :: int
  evictions :: nat
  allocations :: nat
  allocations_from_reset :: nat
  stagings :: nat
  duplicate_blocks :: nat
  registration_dedup :: nat
  eager_primary_to_inactive :: nat
  release_primary_noop :: nat
  release_duplicate_noop :: nat
  allocate_atomic_rollback :: nat

record ('h, 'i) block_store =
  store_id :: nat
  store_block_size :: nat
  store_total_blocks :: nat
  default_reset_on_release :: bool
  capacity :: nat
  slots :: "'h block_slot list"
  free :: "block_id set"
  fenced :: "block_id set"
  fence :: "nat option"
  inactive :: 'i
  active_by_hash :: "'h \<rightharpoonup> block_id"
  held_by_hash :: "'h \<rightharpoonup> block_id"
  reset_on_release :: "bool list"
  inners :: "nat \<rightharpoonup> 'h block_inner"
  next_ptr :: nat
  presence :: "nat \<Rightarrow> nat"
  metrics :: pool_metrics

text \<open>The guards handed to callers (\<open>blocks/mutable.rs\<close>, \<open>blocks/complete.rs\<close>).\<close>

record mutable_block =
  mb_block_id :: block_id
  mb_block_size :: nat

record 'h complete_block =
  cb_block_id :: block_id
  cb_block_size :: nat
  cb_seq_hash :: 'h

section \<open>Indexing, assertions and metrics\<close>

definition assert_that :: "bool \<Rightarrow> unit option" where
  "assert_that P = (if P then Some () else None)"

definition index_slot :: "('h, 'i) block_store \<Rightarrow> block_id \<Rightarrow> 'h block_slot option" where
  "index_slot s b = (if b < length (slots s) then Some (slots s ! b) else None)"

definition set_state ::
  "block_id \<Rightarrow> 'h slot_state \<Rightarrow> ('h, 'i) block_store \<Rightarrow> ('h, 'i) block_store option" where
  "set_state b x s =
     (if b < length (slots s)
      then Some (slots_update (\<lambda>sl. sl[b := (sl ! b)\<lparr>slot_state := x\<rparr>]) s) else None)"

definition index_reset_flag :: "('h, 'i) block_store \<Rightarrow> block_id \<Rightarrow> bool option" where
  "index_reset_flag s b =
     (if b < length (reset_on_release s) then Some (reset_on_release s ! b) else None)"

definition set_reset_flag ::
  "block_id \<Rightarrow> bool \<Rightarrow> ('h, 'i) block_store \<Rightarrow> ('h, 'i) block_store option" where
  "set_reset_flag b v s =
     (if b < length (reset_on_release s)
      then Some (reset_on_release_update (\<lambda>fs. fs[b := v]) s) else None)"

definition inc_reset_pool_size_by :: "int \<Rightarrow> ('h, 'i) block_store \<Rightarrow> ('h, 'i) block_store" where
  "inc_reset_pool_size_by n = metrics_update (reset_pool_size_update (\<lambda>x. x + n))"

definition dec_reset_pool_size_by :: "int \<Rightarrow> ('h, 'i) block_store \<Rightarrow> ('h, 'i) block_store" where
  "dec_reset_pool_size_by n = metrics_update (reset_pool_size_update (\<lambda>x. x - n))"

definition inc_inactive_pool_size_by :: "int \<Rightarrow> ('h, 'i) block_store \<Rightarrow> ('h, 'i) block_store" where
  "inc_inactive_pool_size_by n = metrics_update (inactive_pool_size_update (\<lambda>x. x + n))"

definition dec_inactive_pool_size_by :: "int \<Rightarrow> ('h, 'i) block_store \<Rightarrow> ('h, 'i) block_store" where
  "dec_inactive_pool_size_by n = metrics_update (inactive_pool_size_update (\<lambda>x. x - n))"

definition inc_held_residency_by :: "int \<Rightarrow> ('h, 'i) block_store \<Rightarrow> ('h, 'i) block_store" where
  "inc_held_residency_by n = metrics_update (held_residency_update (\<lambda>x. x + n))"

definition dec_held_residency_by :: "int \<Rightarrow> ('h, 'i) block_store \<Rightarrow> ('h, 'i) block_store" where
  "dec_held_residency_by n = metrics_update (held_residency_update (\<lambda>x. x - n))"

definition inc_inflight_mutable_by :: "int \<Rightarrow> ('h, 'i) block_store \<Rightarrow> ('h, 'i) block_store" where
  "inc_inflight_mutable_by n = metrics_update (inflight_mutable_update (\<lambda>x. x + n))"

definition dec_inflight_mutable_by :: "int \<Rightarrow> ('h, 'i) block_store \<Rightarrow> ('h, 'i) block_store" where
  "dec_inflight_mutable_by n = metrics_update (inflight_mutable_update (\<lambda>x. x - n))"

definition inc_inflight_immutable :: "('h, 'i) block_store \<Rightarrow> ('h, 'i) block_store" where
  "inc_inflight_immutable = metrics_update (inflight_immutable_update (\<lambda>x. x + 1))"

definition dec_inflight_immutable :: "('h, 'i) block_store \<Rightarrow> ('h, 'i) block_store" where
  "dec_inflight_immutable = metrics_update (inflight_immutable_update (\<lambda>x. x - 1))"

definition inc_allocations :: "nat \<Rightarrow> nat \<Rightarrow> ('h, 'i) block_store \<Rightarrow> ('h, 'i) block_store" where
  "inc_allocations n from_reset = metrics_update (\<lambda>m.
     m\<lparr>allocations := allocations m + n,
       allocations_from_reset := allocations_from_reset m + from_reset\<rparr>)"

definition inc_evictions :: "nat \<Rightarrow> ('h, 'i) block_store \<Rightarrow> ('h, 'i) block_store" where
  "inc_evictions n = metrics_update (evictions_update (\<lambda>x. x + n))"

lemmas metrics_defs =
  inc_reset_pool_size_by_def dec_reset_pool_size_by_def inc_inactive_pool_size_by_def
  dec_inactive_pool_size_by_def inc_held_residency_by_def dec_held_residency_by_def
  inc_inflight_mutable_by_def dec_inflight_mutable_by_def inc_inflight_immutable_def
  dec_inflight_immutable_def inc_allocations_def inc_evictions_def

text \<open>Presence markers of a registration handle, for the metadata type of this store.\<close>

definition mark_present ::
  "'h registration_handle \<Rightarrow> ('h, 'i) block_store \<Rightarrow> ('h, 'i) block_store" where
  "mark_present handle = presence_update (\<lambda>pr. pr(handle_id handle := pr (handle_id handle) + 1))"

definition mark_absent ::
  "'h registration_handle \<Rightarrow> ('h, 'i) block_store \<Rightarrow> ('h, 'i) block_store" where
  "mark_absent handle = presence_update (\<lambda>pr. pr(handle_id handle := pr (handle_id handle) - 1))"

section \<open>Reset sets, ceiling and capacity\<close>

definition effective_ceiling :: "('h, 'i) block_store \<Rightarrow> nat" where
  "effective_ceiling s = min (case fence s of Some f \<Rightarrow> f | None \<Rightarrow> capacity s) (capacity s)"

definition push_reset_id_locked ::
  "block_id \<Rightarrow> ('h, 'i) block_store \<Rightarrow> ('h, 'i) block_store" where
  "push_reset_id_locked b s =
     (if b < effective_ceiling s
      then s\<lparr>fenced := fenced s - {b}, free := insert b (free s)\<rparr>
      else s\<lparr>free := free s - {b}, fenced := insert b (fenced s)\<rparr>)"

definition pop_first_free :: "('h, 'i) block_store \<Rightarrow> (block_id \<times> ('h, 'i) block_store) option" where
  "pop_first_free s =
     (if free s = {} then None else Some (Min (free s), s\<lparr>free := free s - {Min (free s)}\<rparr>))"

definition reset_slot_locked ::
  "block_id \<Rightarrow> ('h, 'i) block_store \<Rightarrow> ('h, 'i) block_store option" where
  "reset_slot_locked b s = do {
     s \<leftarrow> set_state b Reset s;
     Some (inc_reset_pool_size_by 1 (push_reset_id_locked b s))
   }"

definition new_slot :: "nat \<Rightarrow> 'h block_slot" where
  "new_slot block_size =
     \<lparr>slot_block_size = block_size, generation = 0, inactive_epoch = 0, slot_state = Reset\<rparr>"

definition initial_metrics :: "nat \<Rightarrow> pool_metrics" where
  "initial_metrics reset_size =
     \<lparr>reset_pool_size = int reset_size, inactive_pool_size = 0, held_residency = 0,
      inflight_mutable = 0, inflight_immutable = 0, evictions = 0, allocations = 0,
      allocations_from_reset = 0, stagings = 0, duplicate_blocks = 0, registration_dedup = 0,
      eager_primary_to_inactive = 0, release_primary_noop = 0, release_duplicate_noop = 0,
      allocate_atomic_rollback = 0\<rparr>"

definition new_store ::
  "nat \<Rightarrow> nat \<Rightarrow> nat \<Rightarrow> nat \<Rightarrow> 'i \<Rightarrow> bool \<Rightarrow> ('h, 'i) block_store" where
  "new_store manager_id total_blocks maximum_blocks block_size index default_reset =
     \<lparr>store_id = manager_id, store_block_size = block_size, store_total_blocks = maximum_blocks,
      default_reset_on_release = default_reset, capacity = total_blocks,
      slots = replicate total_blocks (new_slot block_size),
      free = {0..<total_blocks}, fenced = {}, fence = None, inactive = index,
      active_by_hash = Map.empty, held_by_hash = Map.empty,
      reset_on_release = replicate total_blocks default_reset,
      inners = Map.empty, next_ptr = 0, presence = (\<lambda>_. 0),
      metrics = initial_metrics total_blocks\<rparr>"

datatype capacity_error =
    CapacityExceedsMaximum nat nat
  | CapacityExcludesOccupied nat block_id
  | CeilingExceedsCapacity nat nat

text \<open>\<open>inner.slots[..inner.capacity]\<close> panics when the capacity exceeds the slot vector.\<close>

definition slots_to_capacity :: "('h, 'i) block_store \<Rightarrow> 'h block_slot list option" where
  "slots_to_capacity s =
     (if capacity s \<le> length (slots s) then Some (take (capacity s) (slots s)) else None)"

definition high_water :: "('h, 'i) block_store \<Rightarrow> nat option" where
  "high_water s = do {
     sl \<leftarrow> slots_to_capacity s;
     Some (case rposition (\<lambda>slot. slot_state slot \<noteq> Reset) sl of None \<Rightarrow> 0 | Some index \<Rightarrow> index + 1)
   }"

definition occupied_blocks :: "('h, 'i) block_store \<Rightarrow> nat" where
  "occupied_blocks s = capacity s - card (free s) - card (fenced s)"

definition check_capacity ::
  "('h, 'i) block_store \<Rightarrow> nat \<Rightarrow> (capacity_error + unit) option" where
  "check_capacity s cap =
     (if cap > store_total_blocks s then Some (Inl (CapacityExceedsMaximum cap (store_total_blocks s)))
      else do {
        hw \<leftarrow> high_water s;
        Some (if cap < hw then Inl (CapacityExcludesOccupied cap (hw - 1)) else Inr ())
      })"

definition repush_reset_ids :: "('h, 'i) block_store \<Rightarrow> ('h, 'i) block_store" where
  "repush_reset_ids s =
     (let reset_ids = sorted_list_of_set (free s \<union> fenced s)
      in fold push_reset_id_locked reset_ids (s\<lparr>free := {}, fenced := {}\<rparr>))"

definition set_capacity ::
  "('h, 'i) index_ops \<Rightarrow> nat \<Rightarrow> ('h, 'i) block_store
    \<Rightarrow> ((capacity_error + unit) \<times> ('h, 'i) block_store) option" where
  "set_capacity ops cap s = do {
     checked \<leftarrow> check_capacity s cap;
     case checked of Inl e \<Rightarrow> Some (Inl e, s)
     | Inr _ \<Rightarrow>
       (let previous = capacity s;
            s = (if cap < previous
                 then dec_reset_pool_size_by (int (previous - cap))
                   (s\<lparr>free := {b \<in> free s. b < cap}, fenced := {b \<in> fenced s. b < cap}\<rparr>)
                 else if cap > previous \<and> cap > length (slots s)
                 then s\<lparr>slots := slots s @ replicate (cap - length (slots s)) (new_slot (store_block_size s)),
                        reset_on_release := take cap (reset_on_release s)
                          @ replicate (cap - length (reset_on_release s)) (default_reset_on_release s),
                        inactive := ix_grow_capacity ops cap (inactive s)\<rparr>
                 else s);
            s = s\<lparr>capacity := cap\<rparr>;
            s = (if cap > previous
                 then inc_reset_pool_size_by (int (cap - previous))
                   (fold push_reset_id_locked [previous..<cap] s)
                 else s)
        in Some (Inr (), repush_reset_ids s))
   }"

definition set_allocation_ceiling ::
  "nat option \<Rightarrow> ('h, 'i) block_store \<Rightarrow> (capacity_error + unit) \<times> ('h, 'i) block_store" where
  "set_allocation_ceiling f s =
     (case f of
        Some ceiling \<Rightarrow>
          (if ceiling > capacity s then (Inl (CeilingExceedsCapacity ceiling (capacity s)), s)
           else (Inr (), repush_reset_ids (s\<lparr>fence := f\<rparr>)))
      | None \<Rightarrow> (Inr (), repush_reset_ids (s\<lparr>fence := f\<rparr>)))"

section \<open>Queries\<close>

definition reset_len :: "('h, 'i) block_store \<Rightarrow> nat" where
  "reset_len s = card (free s) + card (fenced s)"

definition inactive_len :: "('h, 'i) index_ops \<Rightarrow> ('h, 'i) block_store \<Rightarrow> nat" where
  "inactive_len ops s = ix_len ops (inactive s)"

definition available_len :: "('h, 'i) index_ops \<Rightarrow> ('h, 'i) block_store \<Rightarrow> nat" where
  "available_len ops s = card (free s) + ix_len ops (inactive s)"

definition has_any_registered_hashes ::
  "('h, 'i) index_ops \<Rightarrow> 'h list \<Rightarrow> ('h, 'i) block_store \<Rightarrow> bool" where
  "has_any_registered_hashes ops hashes s =
     list_ex (\<lambda>h. active_by_hash s h \<noteq> None \<or> held_by_hash s h \<noteq> None \<or> ix_has ops (inactive s) h) hashes"

definition has_inactive :: "('h, 'i) index_ops \<Rightarrow> 'h \<Rightarrow> ('h, 'i) block_store \<Rightarrow> bool" where
  "has_inactive ops h s \<longleftrightarrow> held_by_hash s h = None \<and> ix_has ops (inactive s) h"

fun candidates_of ::
  "('h, 'i) block_store \<Rightarrow> ('h \<times> block_id \<times> inactive_features) list \<Rightarrow> 'h inactive_candidate list option" where
  "candidates_of s [] = Some []"
| "candidates_of s ((h, b, f) # cs) = do {
     slot \<leftarrow> index_slot s b;
     rest \<leftarrow> candidates_of s cs;
     Some (\<lparr>cand_seq_hash = h, cand_block_id = b, cand_generation = generation slot,
            cand_inactive_epoch = inactive_epoch slot, cand_features = f\<rparr> # rest)
   }"

definition inactive_candidates ::
  "('h, 'i) index_ops \<Rightarrow> nat \<Rightarrow> ('h, 'i) block_store \<Rightarrow> 'h inactive_candidate list option" where
  "inactive_candidates ops max_count s =
     candidates_of s (filter (\<lambda>(h, _, _). held_by_hash s h = None) (ix_peek_victims ops (inactive s) max_count))"

definition inactive_advice ::
  "('h, 'i) index_ops \<Rightarrow> 'h list \<Rightarrow> ('h, 'i) block_store \<Rightarrow> inactive_features option list" where
  "inactive_advice ops hashes s =
     map (\<lambda>h. if held_by_hash s h = None then ix_advice ops (inactive s) h else None) hashes"

definition poison_lineage ::
  "('h, 'i) index_ops \<Rightarrow> 'h \<Rightarrow> ('h, 'i) block_store \<Rightarrow> ('h, 'i) block_store" where
  "poison_lineage ops h s = s\<lparr>inactive := ix_poison ops h (inactive s)\<rparr>"

definition store_reset_on_release ::
  "block_id \<Rightarrow> bool \<Rightarrow> ('h, 'i) block_store \<Rightarrow> ('h, 'i) block_store option" where
  "store_reset_on_release b v s = set_reset_flag b v s"

section \<open>Allocation\<close>

text \<open>Clone the registration handle out of an \<open>Inactive\<close> slot; any other state is a panic.\<close>

definition take_inactive_handle ::
  "('h, 'i) block_store \<Rightarrow> block_id \<Rightarrow> 'h registration_handle option" where
  "take_inactive_handle s b = do {
     slot \<leftarrow> index_slot s b;
     case slot_state slot of Inactive _ handle \<Rightarrow> Some handle | _ \<Rightarrow> None
   }"

definition allocate_mutable_slot ::
  "block_id \<Rightarrow> ('h, 'i) block_store \<Rightarrow> (nat \<times> ('h, 'i) block_store) option" where
  "allocate_mutable_slot b s = do {
     slot \<leftarrow> index_slot s b;
     assert_that (generation slot \<noteq> - 1);
     let s = slots_update (\<lambda>sl. sl[b := (sl ! b)\<lparr>generation := generation (sl ! b) + 1,
                                                slot_state := Mutable\<rparr>]) s;
     s \<leftarrow> set_reset_flag b (default_reset_on_release s) s;
     Some (slot_block_size slot, s)
   }"

fun allocate_reset_loop ::
  "nat \<Rightarrow> ('h, 'i) block_store \<Rightarrow> (mutable_block list \<times> ('h, 'i) block_store) option" where
  "allocate_reset_loop 0 s = Some ([], s)"
| "allocate_reset_loop (Suc n) s = do {
     (b, s) \<leftarrow> pop_first_free s;
     (size, s) \<leftarrow> allocate_mutable_slot b s;
     (rest, s) \<leftarrow> allocate_reset_loop n s;
     Some (\<lparr>mb_block_id = b, mb_block_size = size\<rparr> # rest, s)
   }"

definition allocate_reset_blocks_locked ::
  "nat \<Rightarrow> ('h, 'i) block_store \<Rightarrow> (mutable_block list \<times> ('h, 'i) block_store) option" where
  "allocate_reset_blocks_locked n s = do {
     (out, s) \<leftarrow> allocate_reset_loop n s;
     Some (out, inc_allocations n n (inc_inflight_mutable_by (int n) (dec_reset_pool_size_by (int n) s)))
   }"

definition allocate_reset_blocks ::
  "nat \<Rightarrow> ('h, 'i) block_store \<Rightarrow> (mutable_block list \<times> ('h, 'i) block_store) option" where
  "allocate_reset_blocks n s = allocate_reset_blocks_locked (min n (card (free s))) s"

definition allocate_reset_blocks_atomic ::
  "nat \<Rightarrow> ('h, 'i) block_store \<Rightarrow> (mutable_block list option \<times> ('h, 'i) block_store) option" where
  "allocate_reset_blocks_atomic n s =
     (if n = 0 then Some (Some [], s)
      else if card (free s) < n then Some (None, s)
      else do {
        (out, s) \<leftarrow> allocate_reset_blocks_locked n s;
        Some (Some out, s)
      })"

text \<open>
  \<open>allocate_atomic\<close>: stage reset ids and inactive victims first, then commit or roll back.
  The staging loop asks the index for as many victims as are still needed, keeps those below the
  ceiling, and stops when it has enough or the index is exhausted. A loop that does not end is the
  value None; \<open>collect_victims_returns\<close> shows that it ends.
\<close>

fun stage_reset_ids ::
  "nat \<Rightarrow> ('h, 'i) block_store \<Rightarrow> (block_id list \<times> ('h, 'i) block_store) option" where
  "stage_reset_ids 0 s = Some ([], s)"
| "stage_reset_ids (Suc n) s = do {
     (b, s) \<leftarrow> pop_first_free s;
     (rest, s) \<leftarrow> stage_reset_ids n s;
     Some (b # rest, s)
   }"

fun stage_pairs ::
  "nat \<Rightarrow> nat \<Rightarrow> ('h \<times> block_id) list \<Rightarrow> ('h \<times> block_id) list \<Rightarrow> ('h \<times> block_id) list
    \<Rightarrow> ('h \<times> block_id) list \<times> ('h \<times> block_id) list" where
  "stage_pairs ceiling needed taken usable [] = (taken, usable)"
| "stage_pairs ceiling needed taken usable ((h, b) # pairs) =
     stage_pairs ceiling needed (taken @ [(h, b)])
       (if b < ceiling \<and> length usable < needed then usable @ [(h, b)] else usable) pairs"

partial_function (option) collect_victims ::
  "('h, 'i) index_ops \<Rightarrow> nat \<Rightarrow> nat \<Rightarrow> ('h \<times> block_id) list \<Rightarrow> ('h \<times> block_id) list \<Rightarrow> 'i
    \<Rightarrow> (('h \<times> block_id) list \<times> ('h \<times> block_id) list \<times> 'i) option" where
  [code]: "collect_victims ops ceiling needed taken usable i =
     (if length usable < needed then
        Option.bind (ix_allocate ops (needed - length usable) i) (\<lambda>(pairs, i').
          if pairs = [] then Some (taken, usable, i')
          else case stage_pairs ceiling needed taken usable pairs of (taken', usable') \<Rightarrow>
            collect_victims ops ceiling needed taken' usable' i')
      else Some (taken, usable, i))"

fun reinsert_pairs ::
  "('h, 'i) index_ops \<Rightarrow> ('h \<times> block_id) list \<Rightarrow> ('h, 'i) block_store \<Rightarrow> ('h, 'i) block_store option" where
  "reinsert_pairs ops [] s = Some s"
| "reinsert_pairs ops ((h, b) # pairs) s = do {
     i \<leftarrow> ix_insert ops h b (inactive s);
     reinsert_pairs ops pairs (s\<lparr>inactive := i\<rparr>)
   }"

fun commit_reset_ids ::
  "block_id list \<Rightarrow> ('h, 'i) block_store \<Rightarrow> (mutable_block list \<times> ('h, 'i) block_store) option" where
  "commit_reset_ids [] s = Some ([], s)"
| "commit_reset_ids (b # bs) s = do {
     (size, s) \<leftarrow> allocate_mutable_slot b s;
     (rest, s) \<leftarrow> commit_reset_ids bs s;
     Some (\<lparr>mb_block_id = b, mb_block_size = size\<rparr> # rest, s)
   }"

text \<open>
  One victim leaves the inactive pool: below the ceiling it becomes a mutable block, above it the
  slot is reset and fenced. Returns the guard, if any, and the registration handle.
\<close>

definition evict_slot ::
  "nat \<Rightarrow> block_id \<Rightarrow> ('h, 'i) block_store
    \<Rightarrow> (mutable_block list \<times> 'h registration_handle \<times> ('h, 'i) block_store) option" where
  "evict_slot ceiling b s = do {
     handle \<leftarrow> take_inactive_handle s b;
     if b < ceiling then do {
       (size, s) \<leftarrow> allocate_mutable_slot b s;
       Some ([\<lparr>mb_block_id = b, mb_block_size = size\<rparr>], handle, s)
     } else do {
       s \<leftarrow> set_reset_flag b (default_reset_on_release s) s;
       s \<leftarrow> reset_slot_locked b s;
       Some ([], handle, s)
     }
   }"

fun commit_victims ::
  "('h, 'i) index_ops \<Rightarrow> nat \<Rightarrow> block_id set \<Rightarrow> ('h \<times> block_id) list \<Rightarrow> ('h, 'i) block_store
    \<Rightarrow> (mutable_block list \<times> 'h list \<times> 'h registration_handle list \<times> ('h, 'i) block_store) option" where
  "commit_victims ops ceiling usable_ids [] s = Some ([], [], [], s)"
| "commit_victims ops ceiling usable_ids ((h, b) # pairs) s =
     (if b < ceiling \<and> b \<notin> usable_ids then do {
        i \<leftarrow> ix_insert ops h b (inactive s);
        commit_victims ops ceiling usable_ids pairs (s\<lparr>inactive := i\<rparr>)
      } else do {
        (blocks, handle, s) \<leftarrow> evict_slot ceiling b s;
        (blocks', evicted, handles, s) \<leftarrow> commit_victims ops ceiling usable_ids pairs s;
        Some (blocks @ blocks', h # evicted, handle # handles, s)
      })"

definition allocate_atomic ::
  "('h, 'i) index_ops \<Rightarrow> nat \<Rightarrow> ('h, 'i) block_store
    \<Rightarrow> ((mutable_block list \<times> 'h list) option \<times> ('h, 'i) block_store) option" where
  "allocate_atomic ops n s =
     (if n = 0 then Some (Some ([], []), s)
      else if card (free s) + ix_len ops (inactive s) < n then Some (None, s)
      else
        let from_reset = min n (card (free s));
            inactive_needed = n - from_reset;
            ceiling = effective_ceiling s
        in do {
          (reset_ids, s) \<leftarrow> stage_reset_ids from_reset s;
          (taken, usable, i) \<leftarrow> collect_victims ops ceiling inactive_needed [] [] (inactive s);
          let s = s\<lparr>inactive := i\<rparr>;
          if length usable \<noteq> inactive_needed then do {
            s \<leftarrow> reinsert_pairs ops taken s;
            let s = fold push_reset_id_locked (rev reset_ids) s;
            Some (None, metrics_update (allocate_atomic_rollback_update (\<lambda>x. x + 1)) s)
          } else do {
            (reset_blocks, s) \<leftarrow> commit_reset_ids reset_ids s;
            (blocks, evicted, handles, s) \<leftarrow>
              commit_victims ops ceiling (snd ` set usable) taken s;
            let s = dec_reset_pool_size_by (int from_reset) s;
            let s = dec_inactive_pool_size_by (int (length evicted)) s;
            let s = inc_inflight_mutable_by (int n) s;
            let s = inc_evictions (length evicted) s;
            let s = inc_allocations n from_reset s;
            Some (Some (reset_blocks @ blocks, evicted), fold mark_absent handles s)
          }
        })"

text \<open>\<open>drain_inactive_to_mutable\<close> and \<open>inactive_tail_to_mutable\<close> share the eviction of one slot.\<close>

fun evict_pairs ::
  "nat \<Rightarrow> ('h \<times> block_id) list \<Rightarrow> ('h, 'i) block_store
    \<Rightarrow> (mutable_block list \<times> 'h list \<times> 'h registration_handle list \<times> ('h, 'i) block_store) option" where
  "evict_pairs ceiling [] s = Some ([], [], [], s)"
| "evict_pairs ceiling ((h, b) # pairs) s = do {
     (blocks, handle, s) \<leftarrow> evict_slot ceiling b s;
     (blocks', evicted, handles, s) \<leftarrow> evict_pairs ceiling pairs s;
     Some (blocks @ blocks', h # evicted, handle # handles, s)
   }"

definition drain_inactive_to_mutable ::
  "('h, 'i) index_ops \<Rightarrow> ('h, 'i) block_store
    \<Rightarrow> ((mutable_block list \<times> 'h list) \<times> ('h, 'i) block_store) option" where
  "drain_inactive_to_mutable ops s = do {
     (drained, i) \<leftarrow> ix_allocate_all ops (inactive s);
     (blocks, evicted, handles, s) \<leftarrow> evict_pairs (effective_ceiling s) drained (s\<lparr>inactive := i\<rparr>);
     let s = dec_inactive_pool_size_by (int (length drained)) s;
     let s = inc_inflight_mutable_by (int (length blocks)) s;
     Some ((blocks, evicted), fold mark_absent handles s)
   }"

fun evict_tail ::
  "('h, 'i) index_ops \<Rightarrow> nat \<Rightarrow> block_id list \<Rightarrow> ('h, 'i) block_store
    \<Rightarrow> (mutable_block list \<times> 'h list \<times> 'h registration_handle list \<times> ('h, 'i) block_store) option" where
  "evict_tail ops ceiling [] s = Some ([], [], [], s)"
| "evict_tail ops ceiling (b # bs) s = do {
     slot \<leftarrow> index_slot s b;
     case slot_state slot of
       Inactive h _ \<Rightarrow> do {
         (pairs, i) \<leftarrow> ix_take_with_descendants ops h b (inactive s);
         (blocks, evicted, handles, s) \<leftarrow> evict_pairs ceiling pairs (s\<lparr>inactive := i\<rparr>);
         (blocks', evicted', handles', s) \<leftarrow> evict_tail ops ceiling bs s;
         Some (blocks @ blocks', evicted @ evicted', handles @ handles', s)
       }
     | _ \<Rightarrow> evict_tail ops ceiling bs s
   }"

definition is_reset_or_inactive :: "'h slot_state \<Rightarrow> bool" where
  "is_reset_or_inactive x = (case x of Reset \<Rightarrow> True | Inactive _ _ \<Rightarrow> True | _ \<Rightarrow> False)"

definition inactive_tail_to_mutable ::
  "('h, 'i) index_ops \<Rightarrow> nat \<Rightarrow> ('h, 'i) block_store
    \<Rightarrow> ((mutable_block list \<times> 'h list) \<times> ('h, 'i) block_store) option" where
  "inactive_tail_to_mutable ops min_capacity s = do {
     sl \<leftarrow> slots_to_capacity s;
     let start = max (case rposition (\<lambda>slot. \<not> is_reset_or_inactive (slot_state slot)) sl of
                        None \<Rightarrow> 0 | Some index \<Rightarrow> index + 1) min_capacity;
     (blocks, evicted, handles, s) \<leftarrow>
       evict_tail ops (effective_ceiling s) [start..<capacity s] s;
     let s = dec_inactive_pool_size_by (int (length evicted)) s;
     let s = inc_inflight_mutable_by (int (length blocks)) s;
     let s = inc_evictions (length evicted) s;
     Some ((blocks, evicted), fold mark_absent handles s)
   }"

section \<open>The heap of \<open>ImmutableBlockInner\<close>s\<close>

definition new_inner ::
  "'h block_inner \<Rightarrow> ('h, 'i) block_store \<Rightarrow> nat \<times> ('h, 'i) block_store" where
  "new_inner n s =
     (next_ptr s, s\<lparr>inners := (inners s)(next_ptr s \<mapsto> n), next_ptr := next_ptr s + 1\<rparr>)"

definition new_primary ::
  "block_id \<Rightarrow> 'h \<Rightarrow> 'h registration_handle \<Rightarrow> ('h, 'i) block_store \<Rightarrow> nat \<times> ('h, 'i) block_store" where
  "new_primary b h handle =
     new_inner \<lparr>in_block_id = b, in_seq_hash = h, in_handle = handle, in_is_primary = True,
                in_keepalive = None, in_strong = 1\<rparr>"

definition new_duplicate ::
  "block_id \<Rightarrow> 'h \<Rightarrow> 'h registration_handle \<Rightarrow> nat \<Rightarrow> ('h, 'i) block_store
    \<Rightarrow> nat \<times> ('h, 'i) block_store" where
  "new_duplicate b h handle primary =
     new_inner \<lparr>in_block_id = b, in_seq_hash = h, in_handle = handle, in_is_primary = False,
                in_keepalive = Some primary, in_strong = 1\<rparr>"

definition set_strong :: "nat \<Rightarrow> nat \<Rightarrow> ('h, 'i) block_store \<Rightarrow> ('h, 'i) block_store" where
  "set_strong p k = inners_update (\<lambda>m. m(p := map_option (in_strong_update (\<lambda>_. k)) (m p)))"

text \<open>\<open>Weak::upgrade\<close>: a new strong reference unless the last one is gone.\<close>

definition weak_upgrade ::
  "nat \<Rightarrow> ('h, 'i) block_store \<Rightarrow> nat option \<times> ('h, 'i) block_store" where
  "weak_upgrade p s =
     (case inners s p of
        None \<Rightarrow> (None, s)
      | Some n \<Rightarrow> (if in_strong n = 0 then (None, s) else (Some p, set_strong p (in_strong n + 1) s)))"

text \<open>\<open>Arc::clone\<close> of a live reference.\<close>

definition arc_clone :: "nat \<Rightarrow> ('h, 'i) block_store \<Rightarrow> ('h, 'i) block_store option" where
  "arc_clone p s = do {
     n \<leftarrow> inners s p;
     assert_that (in_strong n \<noteq> 0);
     Some (set_strong p (in_strong n + 1) s)
   }"

section \<open>Lookup\<close>

definition set_inactive_tenure_state_locked ::
  "block_id \<Rightarrow> 'h \<Rightarrow> 'h registration_handle \<Rightarrow> ('h, 'i) block_store
    \<Rightarrow> ('h, 'i) block_store option" where
  "set_inactive_tenure_state_locked b h handle s = do {
     slot \<leftarrow> index_slot s b;
     assert_that (inactive_epoch slot \<noteq> - 1);
     Some (slots_update (\<lambda>sl. sl[b := (sl ! b)\<lparr>inactive_epoch := inactive_epoch (sl ! b) + 1,
                                            slot_state := Inactive h handle\<rparr>]) s)
   }"

definition enter_inactive_tenure_locked ::
  "('h, 'i) index_ops \<Rightarrow> block_id \<Rightarrow> 'h \<Rightarrow> 'h registration_handle \<Rightarrow> ('h, 'i) block_store
    \<Rightarrow> ('h, 'i) block_store option" where
  "enter_inactive_tenure_locked ops b h handle s = do {
     s \<leftarrow> set_inactive_tenure_state_locked b h handle s;
     i \<leftarrow> ix_insert ops h b (inactive s);
     Some (s\<lparr>inactive := i\<rparr>)
   }"

definition eager_primary_to_inactive_locked ::
  "('h, 'i) index_ops \<Rightarrow> 'h \<Rightarrow> block_id \<Rightarrow> ('h, 'i) block_store \<Rightarrow> ('h, 'i) block_store option" where
  "eager_primary_to_inactive_locked ops h b s = do {
     slot \<leftarrow> index_slot s b;
     handle \<leftarrow> (case slot_state slot of Primary _ handle _ \<Rightarrow> Some handle | _ \<Rightarrow> None);
     s \<leftarrow> enter_inactive_tenure_locked ops b h handle s;
     let s = active_by_hash_update (\<lambda>m. m(h := None)) s;
     Some (metrics_update (eager_primary_to_inactive_update (\<lambda>x. x + 1))
             (inc_inactive_pool_size_by 1 s))
   }"

text \<open>The resurrection of one inactive slot, shared by the lookups: a fresh primary for it.\<close>

definition resurrect_slot ::
  "'h \<Rightarrow> block_id \<Rightarrow> ('h, 'i) block_store \<Rightarrow> (nat \<times> ('h, 'i) block_store) option" where
  "resurrect_slot h b s = do {
     handle \<leftarrow> take_inactive_handle s b;
     let (p, s) = new_primary b h handle s;
     s \<leftarrow> set_state b (Primary h handle p) s;
     Some (p, active_by_hash_update (\<lambda>m. m(h \<mapsto> b)) s)
   }"

definition acquire_registered_for_hash_locked ::
  "('h, 'i) index_ops \<Rightarrow> 'h \<Rightarrow> bool \<Rightarrow> ('h, 'i) block_store
    \<Rightarrow> (nat option \<times> ('h, 'i) block_store) option" where
  "acquire_registered_for_hash_locked ops h touch s = do {
     (live, s) \<leftarrow> (case active_by_hash s h of
        None \<Rightarrow> Some (None, s)
      | Some b \<Rightarrow> do {
          slot \<leftarrow> index_slot s b;
          weak \<leftarrow> (case slot_state slot of Primary _ _ weak \<Rightarrow> Some weak | _ \<Rightarrow> None);
          let (live, s) = weak_upgrade weak s;
          if live \<noteq> None then Some (live, s)
          else do {
            s \<leftarrow> eager_primary_to_inactive_locked ops h b s;
            Some (None, s)
          }
        });
     if live \<noteq> None then Some (live, s)
     else do {
       (found, i) \<leftarrow> ix_find_match ops h touch (inactive s);
       let s = s\<lparr>inactive := i\<rparr>;
       case found of
         None \<Rightarrow> Some (None, s)
       | Some (_, b) \<Rightarrow> do {
           (p, s) \<leftarrow> resurrect_slot h b (dec_inactive_pool_size_by 1 s);
           Some (Some p, s)
         }
     }
   }"

definition acquire_for_hash_locked ::
  "('h, 'i) index_ops \<Rightarrow> 'h \<Rightarrow> bool \<Rightarrow> ('h, 'i) block_store
    \<Rightarrow> (nat option \<times> ('h, 'i) block_store) option" where
  "acquire_for_hash_locked ops h touch s =
     (if held_by_hash s h \<noteq> None then Some (None, s)
      else acquire_registered_for_hash_locked ops h touch s)"

fun match_prefix_locked_batch ::
  "('h, 'i) index_ops \<Rightarrow> 'h list \<Rightarrow> ('h, 'i) block_store
    \<Rightarrow> (nat list \<times> ('h, 'i) block_store) option" where
  "match_prefix_locked_batch ops [] s = Some ([], s)"
| "match_prefix_locked_batch ops (h # hashes) s = do {
     (found, s) \<leftarrow> acquire_for_hash_locked ops h False s;
     case found of
       None \<Rightarrow> Some ([], s)
     | Some p \<Rightarrow> do {
         (rest, s) \<leftarrow> match_prefix_locked_batch ops hashes s;
         Some (p # rest, s)
       }
   }"

fun promote_pairs ::
  "('h \<times> block_id) list \<Rightarrow> ('h, 'i) block_store \<Rightarrow> (('h \<times> nat) list \<times> ('h, 'i) block_store) option" where
  "promote_pairs [] s = Some ([], s)"
| "promote_pairs ((h, b) # pairs) s = do {
     (p, s) \<leftarrow> resurrect_slot h b s;
     (rest, s) \<leftarrow> promote_pairs pairs s;
     Some ((h, p) # rest, s)
   }"

definition promote_inactive ::
  "('h, 'i) index_ops \<Rightarrow> 'h list \<Rightarrow> bool \<Rightarrow> bool \<Rightarrow> ('h, 'i) block_store
    \<Rightarrow> (('h \<times> nat) list \<times> ('h, 'i) block_store) option" where
  "promote_inactive ops hashes touch scan s =
     (if \<not> scan \<and> list_ex (\<lambda>h. held_by_hash s h \<noteq> None \<or> \<not> ix_has ops (inactive s) h) hashes then Some ([], s)
      else if \<not> scan \<and> length hashes > 1 \<and> \<not> distinct hashes then Some ([], s)
      else if scan then do {
        (matched, i) \<leftarrow>
          ix_scan_matches ops (filter (\<lambda>h. held_by_hash s h = None) hashes) touch (inactive s);
        promote_pairs matched (dec_inactive_pool_size_by (int (length matched)) (s\<lparr>inactive := i\<rparr>))
      }
      else case hashes of
        [] \<Rightarrow> Some ([], s)
      | first # rest \<Rightarrow>
          (if held_by_hash s first \<noteq> None then Some ([], s)
           else do {
             (head_match, i) \<leftarrow> ix_find_match ops first touch (inactive s);
             let s = s\<lparr>inactive := i\<rparr>;
             case head_match of
               None \<Rightarrow> Some ([], s)
             | Some pair \<Rightarrow> do {
                 (more, i) \<leftarrow> (if rest = [] then Some ([], i)
                   else ix_find_matches ops (takeWhile (\<lambda>h. held_by_hash s h = None) rest) touch i);
                 let matched = pair # more;
                 promote_pairs matched
                   (dec_inactive_pool_size_by (int (length matched)) (s\<lparr>inactive := i\<rparr>))
               }
           }))"

definition scan_inactive_primaries ::
  "('h, 'i) index_ops \<Rightarrow> 'h list \<Rightarrow> bool \<Rightarrow> ('h, 'i) block_store
    \<Rightarrow> (('h \<times> nat) list \<times> ('h, 'i) block_store) option" where
  "scan_inactive_primaries ops hashes touch s = promote_inactive ops hashes touch True s"

definition match_inactive_primaries ::
  "('h, 'i) index_ops \<Rightarrow> 'h list \<Rightarrow> ('h, 'i) block_store
    \<Rightarrow> (('h \<times> nat) list \<times> ('h, 'i) block_store) option" where
  "match_inactive_primaries ops hashes s = promote_inactive ops hashes False False s"

section \<open>Guard transitions\<close>

definition release_mutable :: "block_id \<Rightarrow> ('h, 'i) block_store \<Rightarrow> ('h, 'i) block_store option" where
  "release_mutable b s = do {
     s \<leftarrow> set_state b Reset s;
     Some (dec_inflight_mutable_by 1 (inc_reset_pool_size_by 1 (push_reset_id_locked b s)))
   }"

definition transition_to_staged ::
  "block_id \<Rightarrow> 'h \<Rightarrow> ('h, 'i) block_store \<Rightarrow> ('h, 'i) block_store option" where
  "transition_to_staged b h s = do {
     s \<leftarrow> set_state b (Staged h) s;
     Some (metrics_update (stagings_update (\<lambda>x. x + 1)) (dec_inflight_mutable_by 1 s))
   }"

definition transition_back_to_mutable ::
  "block_id \<Rightarrow> ('h, 'i) block_store \<Rightarrow> ('h, 'i) block_store option" where
  "transition_back_to_mutable b s = do {
     s \<leftarrow> set_state b Mutable s;
     s \<leftarrow> set_reset_flag b (default_reset_on_release s) s;
     Some (inc_inflight_mutable_by 1 s)
   }"

definition release_staged :: "block_id \<Rightarrow> ('h, 'i) block_store \<Rightarrow> ('h, 'i) block_store option" where
  "release_staged b s = do {
     s \<leftarrow> set_state b Reset s;
     Some (inc_reset_pool_size_by 1 (push_reset_id_locked b s))
   }"

text \<open>\<open>MutableBlock::stage\<close> and \<open>CompleteBlock::reset\<close>: the guards' own transitions.\<close>

definition stage_block ::
  "'h \<Rightarrow> nat \<Rightarrow> mutable_block \<Rightarrow> ('h, 'i) block_store
    \<Rightarrow> ((mutable_block + 'h complete_block) \<times> ('h, 'i) block_store) option" where
  "stage_block h bsize mb s =
     (if bsize \<noteq> mb_block_size mb then Some (Inl mb, s)
      else do {
        s \<leftarrow> transition_to_staged (mb_block_id mb) h s;
        Some (Inr \<lparr>cb_block_id = mb_block_id mb, cb_block_size = mb_block_size mb, cb_seq_hash = h\<rparr>, s)
      })"

definition reset_complete_block ::
  "'h complete_block \<Rightarrow> ('h, 'i) block_store \<Rightarrow> (mutable_block \<times> ('h, 'i) block_store) option" where
  "reset_complete_block cb s = do {
     s \<leftarrow> transition_back_to_mutable (cb_block_id cb) s;
     Some (\<lparr>mb_block_id = cb_block_id cb, mb_block_size = cb_block_size cb\<rparr>, s)
   }"

section \<open>Registration\<close>

datatype duplication_policy = Allow | Reject

text \<open>
  The lookup-then-transition of one completed block under the lock. The result says whether a
  presence-bearing slot was created (the handle is then marked present after the unlock) or the
  block was rejected (its guard is re-armed).
\<close>

definition register_one ::
  "('h, 'i) index_ops \<Rightarrow> 'h complete_block \<Rightarrow> 'h registration_handle \<Rightarrow> duplication_policy
    \<Rightarrow> ('h, 'i) block_store \<Rightarrow> (nat \<times> bool \<times> ('h, 'i) block_store) option" where
  "register_one ops cb handle policy s =
     (let b = cb_block_id cb; h = cb_seq_hash cb in do {
        (existing, s) \<leftarrow> acquire_registered_for_hash_locked ops h False s;
        case existing of
          Some primary \<Rightarrow> do {
            n \<leftarrow> inners s primary;
            assert_that (in_block_id n \<noteq> b);
            case policy of
              Allow \<Rightarrow> do {
                let (p, s) = new_duplicate b h handle primary s;
                s \<leftarrow> set_state b (Duplicate h handle p) s;
                Some (p, True, metrics_update (duplicate_blocks_update (\<lambda>x. x + 1)) s)
              }
            | Reject \<Rightarrow>
                Some (primary, False, metrics_update (registration_dedup_update (\<lambda>x. x + 1)) s)
          }
        | None \<Rightarrow> do {
            let (p, s) = new_primary b h handle s;
            s \<leftarrow> set_state b (Primary h handle p) s;
            Some (p, True, active_by_hash_update (\<lambda>m. m(h \<mapsto> b)) s)
          }
      })"

definition register_completed_block ::
  "('h, 'i) index_ops \<Rightarrow> 'h complete_block \<Rightarrow> 'h registration_handle \<Rightarrow> duplication_policy
    \<Rightarrow> ('h, 'i) block_store \<Rightarrow> (nat \<times> ('h, 'i) block_store) option" where
  "register_completed_block ops cb handle policy s = do {
     (p, presence_added, s) \<leftarrow> register_one ops cb handle policy s;
     if presence_added then Some (p, mark_present handle s)
     else do {
       s \<leftarrow> release_staged (cb_block_id cb) s;
       Some (p, s)
     }
   }"

fun register_loop ::
  "('h, 'i) index_ops \<Rightarrow> ('h complete_block \<times> 'h registration_handle) list \<Rightarrow> duplication_policy
    \<Rightarrow> ('h, 'i) block_store \<Rightarrow> (nat list \<times> bool list \<times> ('h, 'i) block_store) option" where
  "register_loop ops [] policy s = Some ([], [], s)"
| "register_loop ops ((cb, handle) # items) policy s = do {
     (p, presence_added, s) \<leftarrow> register_one ops cb handle policy s;
     (ps, added, s) \<leftarrow> register_loop ops items policy s;
     Some (p # ps, presence_added # added, s)
   }"

text \<open>Results in input order, and the rejected inputs with their index, still staged.\<close>

definition register_blocks ::
  "('h, 'i) index_ops \<Rightarrow> 'h complete_block list \<Rightarrow> 'h registration_handle list
    \<Rightarrow> duplication_policy \<Rightarrow> ('h, 'i) block_store
    \<Rightarrow> ((nat list \<times> (nat \<times> 'h complete_block) list) \<times> ('h, 'i) block_store) option" where
  "register_blocks ops blocks handles policy s = do {
     assert_that (length blocks = length handles);
     if blocks = [] then Some (([], []), s)
     else do {
       assert_that (list_all2 (\<lambda>cb handle. cb_seq_hash cb = handle_seq_hash handle) blocks handles);
       (ps, added, s) \<leftarrow> register_loop ops (zip blocks handles) policy s;
       let s = fold (\<lambda>(handle, add). if add then mark_present handle else id) (zip handles added) s;
       let rejected = filter (\<lambda>(i, _). \<not> added ! i) (zip [0..<length blocks] blocks);
       Some ((ps, rejected), s)
     }
   }"

section \<open>Release\<close>

text \<open>
  The drop transition of the last reference of a primary or duplicate, identity-checked by the
  pointer. The pointer's own record is still in the heap: its fields are dropped after this call.
\<close>

definition release_primary ::
  "('h, 'i) index_ops \<Rightarrow> nat \<Rightarrow> ('h, 'i) block_store \<Rightarrow> ('h, 'i) block_store option" where
  "release_primary ops p s = do {
     n \<leftarrow> inners s p;
     let b = in_block_id n;
     slot \<leftarrow> index_slot s b;
     case slot_state slot of
       Primary h handle weak \<Rightarrow>
         (if weak = p then do {
            reset \<leftarrow> index_reset_flag s b;
            if reset then do {
              s \<leftarrow> reset_slot_locked b s;
              Some (mark_absent handle (active_by_hash_update (\<lambda>m. m(h := None)) s))
            } else do {
              s \<leftarrow> enter_inactive_tenure_locked ops b h handle s;
              Some (inc_inactive_pool_size_by 1 (active_by_hash_update (\<lambda>m. m(h := None)) s))
            }
          } else Some (metrics_update (release_primary_noop_update (\<lambda>x. x + 1)) s))
     | _ \<Rightarrow> Some (metrics_update (release_primary_noop_update (\<lambda>x. x + 1)) s)
   }"

definition release_duplicate ::
  "nat \<Rightarrow> ('h, 'i) block_store \<Rightarrow> ('h, 'i) block_store option" where
  "release_duplicate p s = do {
     n \<leftarrow> inners s p;
     let b = in_block_id n;
     slot \<leftarrow> index_slot s b;
     case slot_state slot of
       Duplicate h handle weak \<Rightarrow>
         (if weak = p then do {
            s \<leftarrow> reset_slot_locked b s;
            Some (mark_absent handle s)
          } else Some (metrics_update (release_duplicate_noop_update (\<lambda>x. x + 1)) s))
     | _ \<Rightarrow> Some (metrics_update (release_duplicate_noop_update (\<lambda>x. x + 1)) s)
   }"

text \<open>
  Dropping a strong reference. \<open>arc_dec\<close> is the atomic decrement; when it reaches zero the thread
  runs \<open>inner_drop\<close>: the release above, then the field drops, of which the keepalive reference of a
  duplicate is left to be dropped next. Other threads can run between the two steps.
\<close>

definition arc_dec :: "nat \<Rightarrow> ('h, 'i) block_store \<Rightarrow> ('h, 'i) block_store option" where
  "arc_dec p s = do {
     n \<leftarrow> inners s p;
     assert_that (in_strong n \<noteq> 0);
     Some (set_strong p (in_strong n - 1) s)
   }"

definition inner_drop ::
  "('h, 'i) index_ops \<Rightarrow> nat \<Rightarrow> ('h, 'i) block_store
    \<Rightarrow> (nat option \<times> ('h, 'i) block_store) option" where
  "inner_drop ops p s = do {
     n \<leftarrow> inners s p;
     s \<leftarrow> (if in_is_primary n then release_primary ops p s else release_duplicate p s);
     Some (in_keepalive n, inners_update (\<lambda>m. m(p := None)) s)
   }"

text \<open>
  The drop of one reference run to its end by one thread. The chain of keepalives visits every
  pointer at most once, so the number of pointers ever created bounds it.
\<close>

fun drop_arc_fuel ::
  "('h, 'i) index_ops \<Rightarrow> nat \<Rightarrow> nat \<Rightarrow> ('h, 'i) block_store \<Rightarrow> ('h, 'i) block_store option" where
  "drop_arc_fuel ops 0 p s = None"
| "drop_arc_fuel ops (Suc k) p s = do {
     s \<leftarrow> arc_dec p s;
     n \<leftarrow> inners s p;
     if in_strong n = 0 then do {
       (keepalive, s) \<leftarrow> inner_drop ops p s;
       case keepalive of None \<Rightarrow> Some s | Some q \<Rightarrow> drop_arc_fuel ops k q s
     } else Some s
   }"

definition drop_arc ::
  "('h, 'i) index_ops \<Rightarrow> nat \<Rightarrow> ('h, 'i) block_store \<Rightarrow> ('h, 'i) block_store option" where
  "drop_arc ops p s = drop_arc_fuel ops (next_ptr s) p s"

section \<open>\<open>ImmutableBlock\<close> and \<open>WeakBlock\<close>\<close>

text \<open>An \<open>ImmutableBlock\<close> is one strong reference, counted by the in-flight gauge.\<close>

definition immutable_from_inner ::
  "nat \<Rightarrow> ('h, 'i) block_store \<Rightarrow> ('h, 'i) block_store" where
  "immutable_from_inner p s = inc_inflight_immutable s"

definition immutable_clone :: "nat \<Rightarrow> ('h, 'i) block_store \<Rightarrow> ('h, 'i) block_store option" where
  "immutable_clone p s = arc_clone p (inc_inflight_immutable s)"

definition immutable_drop ::
  "('h, 'i) index_ops \<Rightarrow> nat \<Rightarrow> ('h, 'i) block_store \<Rightarrow> ('h, 'i) block_store option" where
  "immutable_drop ops p s = drop_arc ops p (dec_inflight_immutable s)"

text \<open>\<open>ImmutableBlock::set_evict_on_reset\<close> through \<open>store_reset_on_release_inner\<close>.\<close>

definition slot_weak :: "'h slot_state \<Rightarrow> nat option" where
  "slot_weak x = (case x of Primary _ _ p \<Rightarrow> Some p | Duplicate _ _ p \<Rightarrow> Some p | _ \<Rightarrow> None)"

definition store_reset_on_release_inner ::
  "nat \<Rightarrow> bool \<Rightarrow> ('h, 'i) block_store \<Rightarrow> ('h, 'i) block_store option" where
  "store_reset_on_release_inner p v s = do {
     n \<leftarrow> inners s p;
     slot \<leftarrow> index_slot s (in_block_id n);
     if slot_weak (slot_state slot) = Some p then set_reset_flag (in_block_id n) v s else Some s
   }"

text \<open>\<open>WeakBlock::upgrade\<close>: the weak pointer first, then active-or-inactive lookup by hash.\<close>

definition weak_block_upgrade ::
  "('h, 'i) index_ops \<Rightarrow> 'h registration_handle \<Rightarrow> nat \<Rightarrow> ('h, 'i) block_store
    \<Rightarrow> (nat option \<times> ('h, 'i) block_store) option" where
  "weak_block_upgrade ops handle weak s =
     (let (live, s) = weak_upgrade weak s in
      if live \<noteq> None then Some (live, inc_inflight_immutable s)
      else do {
        (found, s) \<leftarrow> acquire_for_hash_locked ops (handle_seq_hash handle) False s;
        Some (found, if found \<noteq> None then inc_inflight_immutable s else s)
      })"

section \<open>Batched release\<close>

record release_report =
  primary_reset :: nat
  primary_inactive :: nat
  duplicate_reset :: nat
  deferred_to_drop :: nat

text \<open>
  The scratch state of one \<open>release_blocks\<close> call: \<open>rc_arcs ! i\<close> says whether entry \<open>i\<close> still holds
  its reference. The identity pointers of the entries are a constant list. A released inner that
  \<open>try_unwrap\<close> moved out of its \<open>Arc\<close> leaves the heap at once: it is defused and its keepalive is taken,
  so dropping it later has no effect.
\<close>

record ('h, 'i) release_ctx =
  rc_store :: "('h, 'i) block_store"
  rc_arcs :: "bool list"
  rc_report :: release_report
  rc_deferred :: "nat list"
  rc_absent :: "'h registration_handle list"

text \<open>Collecting into a \<open>HashMap\<close> keeps the last position of a pointer.\<close>

definition target_position :: "nat list \<Rightarrow> nat \<Rightarrow> nat option" where
  "target_position ptrs p = rposition (\<lambda>q. q = p) ptrs"

function release_entry_at ::
  "('h, 'i) index_ops \<Rightarrow> bool option \<Rightarrow> nat list \<Rightarrow> nat \<Rightarrow> ('h, 'i) release_ctx
    \<Rightarrow> ('h, 'i) release_ctx option" where
  "release_entry_at ops opt ptrs idx c =
     (if \<not> idx < length ptrs \<or> \<not> idx < length (rc_arcs c) then None
      else if \<not> rc_arcs c ! idx then Some c
      else do {
        let p = ptrs ! idx;
        let s = rc_store c;
        n \<leftarrow> inners s p;
        let b = in_block_id n;
        s \<leftarrow> (case opt of None \<Rightarrow> Some s | Some v \<Rightarrow> set_reset_flag b v s);
        slot \<leftarrow> index_slot s b;
        if slot_weak (slot_state slot) \<noteq> Some p \<or> in_strong n \<noteq> 1 then Some (c\<lparr>rc_store := s\<rparr>)
        else do {
          let s = inners_update (\<lambda>m. m(p := None)) s;
          let c = c\<lparr>rc_arcs := (rc_arcs c)[idx := False]\<rparr>;
          case slot_state slot of
            Primary h handle _ \<Rightarrow> do {
              reset \<leftarrow> index_reset_flag s b;
              if reset then do {
                s \<leftarrow> reset_slot_locked b s;
                Some (c\<lparr>rc_store := active_by_hash_update (\<lambda>m. m(h := None)) s,
                        rc_absent := rc_absent c @ [handle],
                        rc_report := primary_reset_update (\<lambda>x. x + 1) (rc_report c)\<rparr>)
              } else do {
                s \<leftarrow> enter_inactive_tenure_locked ops b h handle s;
                Some (c\<lparr>rc_store := inc_inactive_pool_size_by 1 (active_by_hash_update (\<lambda>m. m(h := None)) s),
                        rc_report := primary_inactive_update (\<lambda>x. x + 1) (rc_report c)\<rparr>)
              }
            }
          | Duplicate h handle _ \<Rightarrow> do {
              s \<leftarrow> reset_slot_locked b s;
              let c = c\<lparr>rc_absent := rc_absent c @ [handle],
                        rc_report := duplicate_reset_update (\<lambda>x. x + 1) (rc_report c)\<rparr>;
              case in_keepalive n of
                None \<Rightarrow> Some (c\<lparr>rc_store := s\<rparr>)
              | Some q \<Rightarrow>
                  (case target_position ptrs q of
                     Some j \<Rightarrow>
                       (if j < idx then
                          (if rc_arcs c ! j then do {
                             s \<leftarrow> arc_dec q s;
                             release_entry_at ops opt ptrs j (c\<lparr>rc_store := s\<rparr>)
                           } else Some (c\<lparr>rc_store := s, rc_deferred := rc_deferred c @ [q]\<rparr>))
                        else if j > idx then do {
                          s \<leftarrow> arc_dec q s;
                          Some (c\<lparr>rc_store := s\<rparr>)
                        } else Some (c\<lparr>rc_store := s, rc_deferred := rc_deferred c @ [q]\<rparr>))
                   | None \<Rightarrow> Some (c\<lparr>rc_store := s, rc_deferred := rc_deferred c @ [q]\<rparr>))
            }
          | _ \<Rightarrow> Some (c\<lparr>rc_store := s\<rparr>)
        }
      })"
  by pat_completeness auto

termination
  by (relation "measure (\<lambda>(ops, opt, ptrs, idx, c). idx)") auto

fun release_entries ::
  "('h, 'i) index_ops \<Rightarrow> bool option \<Rightarrow> nat list \<Rightarrow> nat list \<Rightarrow> ('h, 'i) release_ctx
    \<Rightarrow> ('h, 'i) release_ctx option" where
  "release_entries ops opt ptrs [] c = Some c"
| "release_entries ops opt ptrs (idx # idxs) c = do {
     c \<leftarrow> release_entry_at ops opt ptrs idx c;
     release_entries ops opt ptrs idxs c
   }"

fun drop_arcs ::
  "('h, 'i) index_ops \<Rightarrow> nat list \<Rightarrow> ('h, 'i) block_store \<Rightarrow> ('h, 'i) block_store option" where
  "drop_arcs ops [] s = Some s"
| "drop_arcs ops (p # ps) s = do {
     s \<leftarrow> drop_arc ops p s;
     drop_arcs ops ps s
   }"

text \<open>The batch takes the identity pointers of its guards, in drop order.\<close>

definition release_blocks ::
  "('h, 'i) index_ops \<Rightarrow> nat list \<Rightarrow> bool option \<Rightarrow> ('h, 'i) block_store
    \<Rightarrow> (release_report \<times> ('h, 'i) block_store) option" where
  "release_blocks ops ptrs opt s =
     (let empty_report = \<lparr>primary_reset = 0, primary_inactive = 0, duplicate_reset = 0, deferred_to_drop = 0\<rparr>
      in if ptrs = [] then Some (empty_report, s)
      else do {
        let s = fold (\<lambda>_. dec_inflight_immutable) ptrs s;
        c \<leftarrow> release_entries ops opt ptrs [0..<length ptrs]
          \<lparr>rc_store = s, rc_arcs = replicate (length ptrs) True, rc_report = empty_report,
           rc_deferred = [], rc_absent = []\<rparr>;
        let unresolved = map snd (filter fst (zip (rc_arcs c) ptrs));
        s \<leftarrow> drop_arcs ops (rc_deferred c @ unresolved) (rc_store c);
        Some (deferred_to_drop_update (\<lambda>x. x + length unresolved) (rc_report c),
              fold mark_absent (rc_absent c) s)
      })"

end
