(* ===== verification/Block_Store_Inv.thy ===== *)
theory Block_Store_Inv
  imports Block_Store
begin

text \<open>
  The invariant of the block store, in three parts over the slot view \<open>st\<close> (the state of every slot):
  \<^item> \<open>core_inv\<close>: every slot is in exactly one pool, and the reset sets, the inactive index and the two
    hash maps say the same thing as the slot states. It has two parameters for the middle of an
    operation: \<open>X\<close>, the inactive slots taken out of the index, and \<open>R\<close>, the reset slots popped from
    the reset sets. Both are empty between operations.
  \<^item> \<open>arc_inv\<close>: the heap of inner values and its strong counts. \<open>E p\<close> is the number of strong
    references to \<open>p\<close> that callers hold.
  \<^item> \<open>acct\<close>: the gauges and the presence counts equal what the slots say, up to the amounts an
    operation has not booked yet.
  Each primitive step of the store has one lemma per part.
\<close>

declare release_entry_at.simps [simp del]

section \<open>The slot view\<close>

definition st :: "('h, 'i) block_store \<Rightarrow> block_id \<Rightarrow> 'h slot_state" where
  "st s b = (if b < length (slots s) then slot_state (slots s ! b) else Reset)"

lemma st_cong: "slots s' = slots s \<Longrightarrow> st s' = st s"
  by (rule ext) (simp add: st_def)

lemma st_update [simp]:
  "st (slots_update f s) = (\<lambda>b. if b < length (f (slots s)) then slot_state (f (slots s) ! b) else Reset)"
  by (rule ext) (simp add: st_def)

lemma st_simps [simp]:
  "st (s\<lparr>free := F\<rparr>) = st s" "st (s\<lparr>fenced := F\<rparr>) = st s" "st (s\<lparr>fence := f\<rparr>) = st s"
  "st (s\<lparr>inactive := i\<rparr>) = st s" "st (active_by_hash_update g s) = st s"
  "st (held_by_hash_update g s) = st s" "st (reset_on_release_update u s) = st s"
  "st (inners_update v s) = st s" "st (next_ptr_update w s) = st s" "st (presence_update x s) = st s"
  "st (metrics_update y s) = st s" "st (capacity_update z s) = st s"
  by (rule st_cong, simp)+

lemma st_list_update:
  "b < length (slots s) \<Longrightarrow>
    (\<lambda>b'. if b' < length (slots s) then slot_state ((slots s)[b := y] ! b') else Reset)
      = (st s)(b := slot_state y)"
  by (rule ext) (auto simp: st_def nth_list_update)

lemma st_index:
  assumes "st s b = x" "x \<noteq> Reset"
  shows "b < length (slots s)" "index_slot s b = Some (slots s ! b)" "slot_state (slots s ! b) = x"
  using assms by (simp_all add: st_def index_slot_def split: if_splits)

lemma take_inactive_handle_st: "st s b = Inactive h k \<Longrightarrow> take_inactive_handle s b = Some k"
  using st_index [of s b "Inactive h k"] by (simp add: take_inactive_handle_def)

definition slot_handle :: "'h slot_state \<Rightarrow> 'h registration_handle option" where
  "slot_handle x = (case x of
     Primary _ handle _ \<Rightarrow> Some handle | Duplicate _ handle _ \<Rightarrow> Some handle
   | Inactive _ handle \<Rightarrow> Some handle | Held _ handle \<Rightarrow> Some handle | _ \<Rightarrow> None)"

lemma slot_handle_simps [simp]:
  "slot_handle Reset = None" "slot_handle Mutable = None" "slot_handle (Staged h) = None"
  "slot_handle (Primary h k p) = Some k" "slot_handle (Duplicate h k p) = Some k"
  "slot_handle (Inactive h k) = Some k" "slot_handle (Held h k) = Some k"
  by (simp_all add: slot_handle_def)

text \<open>The hash under which a slot is primary, inactive or held.\<close>

definition prim_hash :: "'h slot_state \<Rightarrow> 'h option" where
  "prim_hash x = (case x of Primary h _ _ \<Rightarrow> Some h | _ \<Rightarrow> None)"

definition inact_hash :: "'h slot_state \<Rightarrow> 'h option" where
  "inact_hash x = (case x of Inactive h _ \<Rightarrow> Some h | _ \<Rightarrow> None)"

definition held_hash :: "'h slot_state \<Rightarrow> 'h option" where
  "held_hash x = (case x of Held h _ \<Rightarrow> Some h | _ \<Rightarrow> None)"

lemma slot_hash_simps [simp]:
  "prim_hash Reset = None" "prim_hash Mutable = None" "prim_hash (Staged h) = None"
  "prim_hash (Primary h k p) = Some h" "prim_hash (Duplicate h k p) = None"
  "prim_hash (Inactive h k) = None" "prim_hash (Held h k) = None"
  "inact_hash Reset = None" "inact_hash Mutable = None" "inact_hash (Staged h) = None"
  "inact_hash (Primary h k p) = None" "inact_hash (Duplicate h k p) = None"
  "inact_hash (Inactive h k) = Some h" "inact_hash (Held h k) = None"
  "held_hash Reset = None" "held_hash Mutable = None" "held_hash (Staged h) = None"
  "held_hash (Primary h k p) = None" "held_hash (Duplicate h k p) = None"
  "held_hash (Inactive h k) = None" "held_hash (Held h k) = Some h"
  by (simp_all add: prim_hash_def inact_hash_def held_hash_def)

lemma prim_hash_Some: "prim_hash x = Some h \<longleftrightarrow> (\<exists>k p. x = Primary h k p)"
  by (cases x) auto

lemma inact_hash_Some: "inact_hash x = Some h \<longleftrightarrow> (\<exists>k. x = Inactive h k)"
  by (cases x) auto

lemma held_hash_Some: "held_hash x = Some h \<longleftrightarrow> (\<exists>k. x = Held h k)"
  by (cases x) auto

section \<open>Every slot is in one pool\<close>

definition pools_ok ::
  "(block_id \<Rightarrow> 'h slot_state) \<Rightarrow> nat \<Rightarrow> nat \<Rightarrow> block_id set \<Rightarrow> block_id set \<Rightarrow> block_id set \<Rightarrow> bool" where
  "pools_ok \<sigma> ceil cap R F G \<longleftrightarrow>
     F = {b. b < ceil \<and> \<sigma> b = Reset \<and> b \<notin> R}
     \<and> G = {b. ceil \<le> b \<and> b < cap \<and> \<sigma> b = Reset \<and> b \<notin> R}
     \<and> R \<subseteq> {b. b < cap \<and> \<sigma> b = Reset}"

definition index_ok :: "(block_id \<Rightarrow> 'h slot_state) \<Rightarrow> block_id set \<Rightarrow> ('h \<rightharpoonup> block_id) \<Rightarrow> bool" where
  "index_ok \<sigma> X m \<longleftrightarrow>
     (\<forall>h b. m h = Some b \<longleftrightarrow> inact_hash (\<sigma> b) = Some h \<and> b \<notin> X)
     \<and> (\<forall>h b b'. inact_hash (\<sigma> b) = Some h \<longrightarrow> inact_hash (\<sigma> b') = Some h \<longrightarrow> b = b')
     \<and> (\<forall>b \<in> X. inact_hash (\<sigma> b) \<noteq> None)"

definition active_ok :: "(block_id \<Rightarrow> 'h slot_state) \<Rightarrow> ('h \<rightharpoonup> block_id) \<Rightarrow> bool" where
  "active_ok \<sigma> m \<longleftrightarrow>
     (\<forall>h b. m h = Some b \<longleftrightarrow> prim_hash (\<sigma> b) = Some h)
     \<and> (\<forall>h b b'. inact_hash (\<sigma> b) = Some h \<longrightarrow> prim_hash (\<sigma> b') \<noteq> Some h)"

definition held_ok :: "(block_id \<Rightarrow> 'h slot_state) \<Rightarrow> ('h \<rightharpoonup> block_id) \<Rightarrow> bool" where
  "held_ok \<sigma> m \<longleftrightarrow> (\<forall>h b. m h = Some b \<longleftrightarrow> held_hash (\<sigma> b) = Some h)"

definition core_inv ::
  "('i \<Rightarrow> 'h \<rightharpoonup> block_id) \<Rightarrow> block_id set \<Rightarrow> block_id set \<Rightarrow> ('h, 'i) block_store \<Rightarrow> bool" where
  "core_inv iabs X R s \<longleftrightarrow>
     capacity s \<le> length (slots s) \<and> length (reset_on_release s) = length (slots s)
     \<and> (\<forall>b. st s b \<noteq> Reset \<longrightarrow> b < capacity s)
     \<and> pools_ok (st s) (effective_ceiling s) (capacity s) R (free s) (fenced s)
     \<and> index_ok (st s) X (iabs (inactive s))
     \<and> active_ok (st s) (active_by_hash s)
     \<and> held_ok (st s) (held_by_hash s)"

lemma core_invI:
  assumes "capacity s \<le> length (slots s)" "length (reset_on_release s) = length (slots s)"
    "\<And>b. st s b \<noteq> Reset \<Longrightarrow> b < capacity s"
    "pools_ok (st s) (effective_ceiling s) (capacity s) R (free s) (fenced s)"
    "index_ok (st s) X (iabs (inactive s))" "active_ok (st s) (active_by_hash s)"
    "held_ok (st s) (held_by_hash s)"
  shows "core_inv iabs X R s"
  using assms by (auto simp: core_inv_def)

lemma core_invD:
  assumes "core_inv iabs X R s"
  shows "capacity s \<le> length (slots s)" "length (reset_on_release s) = length (slots s)"
    "st s b \<noteq> Reset \<Longrightarrow> b < capacity s"
    "pools_ok (st s) (effective_ceiling s) (capacity s) R (free s) (fenced s)"
    "index_ok (st s) X (iabs (inactive s))" "active_ok (st s) (active_by_hash s)"
    "held_ok (st s) (held_by_hash s)"
  using assms by (auto simp: core_inv_def)

lemma effective_ceiling_le: "effective_ceiling s \<le> capacity s"
  by (simp add: effective_ceiling_def)

lemma ceiling_cong:
  "capacity s' = capacity s \<Longrightarrow> fence s' = fence s \<Longrightarrow> effective_ceiling s' = effective_ceiling s"
  by (cases "fence s") (simp_all add: effective_ceiling_def)

lemma ceiling_simps [simp]:
  "effective_ceiling (s\<lparr>free := F\<rparr>) = effective_ceiling s"
  "effective_ceiling (s\<lparr>fenced := F\<rparr>) = effective_ceiling s"
  "effective_ceiling (s\<lparr>inactive := i\<rparr>) = effective_ceiling s"
  "effective_ceiling (slots_update f s) = effective_ceiling s"
  "effective_ceiling (active_by_hash_update g s) = effective_ceiling s"
  "effective_ceiling (held_by_hash_update g s) = effective_ceiling s"
  "effective_ceiling (reset_on_release_update u s) = effective_ceiling s"
  "effective_ceiling (inners_update v s) = effective_ceiling s"
  "effective_ceiling (next_ptr_update w s) = effective_ceiling s"
  "effective_ceiling (presence_update x s) = effective_ceiling s"
  "effective_ceiling (metrics_update y s) = effective_ceiling s"
  by (rule ceiling_cong; simp)+

text \<open>How the parts react to the change of one slot.\<close>

lemma pools_ok_upd:
  assumes "pools_ok \<sigma> ceil cap R F G"
  shows "\<sigma> b \<noteq> Reset \<Longrightarrow> x \<noteq> Reset \<Longrightarrow> pools_ok (\<sigma>(b := x)) ceil cap R F G"
    and "b \<in> R \<Longrightarrow> x \<noteq> Reset \<Longrightarrow> pools_ok (\<sigma>(b := x)) ceil cap (R - {b}) F G"
    and "b \<in> R \<Longrightarrow> b < ceil \<Longrightarrow> pools_ok \<sigma> ceil cap (R - {b}) (insert b F) (G - {b})"
    and "b \<in> R \<Longrightarrow> ceil \<le> b \<Longrightarrow> pools_ok \<sigma> ceil cap (R - {b}) (F - {b}) (insert b G)"
    and "b \<in> F \<Longrightarrow> ceil \<le> cap \<Longrightarrow> pools_ok \<sigma> ceil cap (insert b R) (F - {b}) G"
    and "\<sigma> b \<noteq> Reset \<Longrightarrow> b < cap \<Longrightarrow> pools_ok (\<sigma>(b := Reset)) ceil cap (insert b R) F G"
  using assms by (auto simp: pools_ok_def)

lemma index_okD:
  assumes "index_ok \<sigma> X m"
  shows "m h = Some b \<longleftrightarrow> inact_hash (\<sigma> b) = Some h \<and> b \<notin> X"
    and "inact_hash (\<sigma> b) = Some h \<Longrightarrow> inact_hash (\<sigma> b') = Some h \<Longrightarrow> b = b'"
    and "b \<in> X \<Longrightarrow> inact_hash (\<sigma> b) \<noteq> None"
  using assms unfolding index_ok_def by blast+

lemma index_ok_keep:
  "index_ok \<sigma> X m \<Longrightarrow> inact_hash (\<sigma> b) = None \<Longrightarrow> inact_hash x = None \<Longrightarrow> index_ok (\<sigma>(b := x)) X m"
  unfolding index_ok_def by (auto split: if_splits)

lemma index_ok_leave:
  "index_ok \<sigma> X m \<Longrightarrow> b \<in> X \<Longrightarrow> inact_hash x = None \<Longrightarrow> index_ok (\<sigma>(b := x)) (X - {b}) m"
  unfolding index_ok_def by (auto split: if_splits)

lemma index_ok_insert:
  "index_ok \<sigma> X m \<Longrightarrow> b \<in> X \<Longrightarrow> inact_hash (\<sigma> b) = Some h \<Longrightarrow> index_ok \<sigma> (X - {b}) (m(h \<mapsto> b))"
  unfolding index_ok_def by (auto split: if_splits)

lemma index_ok_extract:
  "index_ok \<sigma> X m \<Longrightarrow> m h = Some b \<Longrightarrow> index_ok \<sigma> (insert b X) (m(h := None))"
  unfolding index_ok_def by (auto split: if_splits)

lemma index_ok_enter:
  "index_ok \<sigma> X m \<Longrightarrow> inact_hash (\<sigma> b) = None \<Longrightarrow> \<forall>b'. inact_hash (\<sigma> b') \<noteq> Some h \<Longrightarrow>
    inact_hash x = Some h \<Longrightarrow> index_ok (\<sigma>(b := x)) (insert b X) m"
  unfolding index_ok_def by (auto split: if_splits)

lemma active_ok_keep:
  "active_ok \<sigma> m \<Longrightarrow> prim_hash (\<sigma> b) = None \<Longrightarrow> prim_hash x = None \<Longrightarrow>
    (\<forall>h. inact_hash x = Some h \<longrightarrow> m h = None) \<Longrightarrow> active_ok (\<sigma>(b := x)) m"
  unfolding active_ok_def by (auto split: if_splits) (metis option.distinct(1))

lemma active_okD1: "active_ok \<sigma> m \<Longrightarrow> m h = Some b \<longleftrightarrow> prim_hash (\<sigma> b) = Some h"
  by (simp add: active_ok_def)

lemma active_okD2: "active_ok \<sigma> m \<Longrightarrow> inact_hash (\<sigma> b) = Some h \<Longrightarrow> prim_hash (\<sigma> b') \<noteq> Some h"
  unfolding active_ok_def by blast

lemma active_okD3:
  assumes "active_ok \<sigma> m" "prim_hash (\<sigma> b) = Some h" "b' \<noteq> b"
  shows "prim_hash (\<sigma> b') \<noteq> Some h"
  using assms(2-) active_okD1 [OF assms(1), of h b] active_okD1 [OF assms(1), of h b'] by simp

lemma active_ok_remove:
  assumes "active_ok \<sigma> m" "prim_hash (\<sigma> b) = Some h" "prim_hash x = None"
    "\<forall>h'. inact_hash x = Some h' \<longrightarrow> h' = h"
  shows "active_ok (\<sigma>(b := x)) (m(h := None))"
  unfolding active_ok_def
proof (intro conjI allI impI)
  fix h' b'
  show "(m(h := None)) h' = Some b' \<longleftrightarrow> prim_hash ((\<sigma>(b := x)) b') = Some h'"
    using active_okD1 [OF assms(1), of h' b'] active_okD3 [OF assms(1,2), of b'] assms(2,3)
    by (cases "b' = b"; cases "h' = h") auto
next
  fix h' b1 b2
  assume "inact_hash ((\<sigma>(b := x)) b1) = Some h'"
  then show "prim_hash ((\<sigma>(b := x)) b2) \<noteq> Some h'"
    using active_okD2 [OF assms(1), of b1 h' b2] active_okD3 [OF assms(1,2), of b2] assms(3,4)
    by (cases "b1 = b"; cases "b2 = b") auto
qed

lemma active_ok_add:
  assumes "active_ok \<sigma> m" "prim_hash (\<sigma> b) = None" "m h = None"
    "\<forall>b'. b' \<noteq> b \<longrightarrow> inact_hash (\<sigma> b') \<noteq> Some h" "prim_hash x = Some h" "inact_hash x = None"
  shows "active_ok (\<sigma>(b := x)) (m(h \<mapsto> b))"
  unfolding active_ok_def
proof (intro conjI allI impI)
  fix h' b'
  show "(m(h \<mapsto> b)) h' = Some b' \<longleftrightarrow> prim_hash ((\<sigma>(b := x)) b') = Some h'"
    using active_okD1 [OF assms(1), of h' b'] active_okD1 [OF assms(1), of h b'] assms
    by (cases "b' = b"; cases "h' = h") auto
next
  fix h' b1 b2
  assume "inact_hash ((\<sigma>(b := x)) b1) = Some h'"
  then show "prim_hash ((\<sigma>(b := x)) b2) \<noteq> Some h'"
    using active_okD2 [OF assms(1), of b1 h' b2] assms(4-6)
    by (cases "b1 = b"; cases "b2 = b") auto
qed

lemma held_ok_keep:
  "held_ok \<sigma> m \<Longrightarrow> held_hash (\<sigma> b) = None \<Longrightarrow> held_hash x = None \<Longrightarrow> held_ok (\<sigma>(b := x)) m"
  unfolding held_ok_def by (auto split: if_splits)

lemma held_ok_remove:
  assumes "held_ok \<sigma> m" "held_hash (\<sigma> b) = Some h" "held_hash x = None"
  shows "held_ok (\<sigma>(b := x)) (m(h := None))"
  unfolding held_ok_def
proof (intro allI)
  fix h' b'
  have "m h = Some b" and "m h' = Some b' \<longleftrightarrow> held_hash (\<sigma> b') = Some h'"
    using assms(1,2) unfolding held_ok_def by blast+
  with assms(2,3) show "(m(h := None)) h' = Some b' \<longleftrightarrow> held_hash ((\<sigma>(b := x)) b') = Some h'"
    by (cases "b' = b"; cases "h' = h") auto
qed

lemma held_ok_add:
  assumes "held_ok \<sigma> m" "held_hash (\<sigma> b) = None" "m h = None" "held_hash x = Some h"
  shows "held_ok (\<sigma>(b := x)) (m(h \<mapsto> b))"
  unfolding held_ok_def
proof (intro allI)
  fix h' b'
  have "m h' = Some b' \<longleftrightarrow> held_hash (\<sigma> b') = Some h'" and "m h = Some b' \<longleftrightarrow> held_hash (\<sigma> b') = Some h"
    using assms(1) unfolding held_ok_def by blast+
  with assms(2-4) show "(m(h \<mapsto> b)) h' = Some b' \<longleftrightarrow> held_hash ((\<sigma>(b := x)) b') = Some h'"
    by (cases "b' = b"; cases "h' = h") auto
qed

section \<open>The heap\<close>

definition keepers :: "(nat \<rightharpoonup> 'h block_inner) \<Rightarrow> nat \<Rightarrow> nat set" where
  "keepers m p = {d. \<exists>n. m d = Some n \<and> in_keepalive n = Some p}"

definition inner_ok ::
  "(block_id \<Rightarrow> 'h slot_state) \<Rightarrow> (nat \<rightharpoonup> 'h block_inner) \<Rightarrow> nat \<Rightarrow> 'h block_inner \<Rightarrow> bool" where
  "inner_ok \<sigma> m p n \<longleftrightarrow>
     (if in_is_primary n
      then in_keepalive n = None
        \<and> (in_strong n \<noteq> 0 \<longrightarrow> \<sigma> (in_block_id n) = Primary (in_seq_hash n) (in_handle n) p)
      else \<sigma> (in_block_id n) = Duplicate (in_seq_hash n) (in_handle n) p
        \<and> (\<exists>q k. in_keepalive n = Some q \<and> m q = Some k \<and> in_is_primary k
              \<and> in_seq_hash k = in_seq_hash n))"

text \<open>
  Every heap entry describes its slot, every weak pointer of a slot is a heap entry, and a strong
  count is the number of keepalives plus the references \<open>E\<close> of callers. A duplicate therefore keeps
  its primary alive, and a live primary is the primary of its slot.
\<close>

definition arc_inv :: "(nat \<Rightarrow> nat) \<Rightarrow> ('h, 'i) block_store \<Rightarrow> bool" where
  "arc_inv E s \<longleftrightarrow>
     (\<forall>p n. inners s p = Some n \<longrightarrow>
        p < next_ptr s \<and> in_block_id n < length (slots s) \<and> inner_ok (st s) (inners s) p n
        \<and> in_strong n = card (keepers (inners s) p) + E p)
     \<and> (\<forall>b p. slot_weak (st s b) = Some p \<longrightarrow>
        (\<exists>n. inners s p = Some n \<and> in_block_id n = b
           \<and> st s b = (if in_is_primary n then Primary else Duplicate) (in_seq_hash n) (in_handle n) p))
     \<and> (\<forall>p. inners s p = None \<longrightarrow> E p = 0)"

lemma slot_weak_simps [simp]:
  "slot_weak Reset = None" "slot_weak Mutable = None" "slot_weak (Staged h) = None"
  "slot_weak (Primary h k p) = Some p" "slot_weak (Duplicate h k p) = Some p"
  "slot_weak (Inactive h k) = None" "slot_weak (Held h k) = None"
  by (simp_all add: slot_weak_def)

lemma arc_invD:
  assumes "arc_inv E s"
  shows "inners s p = Some n \<Longrightarrow> p < next_ptr s"
    and "inners s p = Some n \<Longrightarrow> in_block_id n < length (slots s)"
    and "inners s p = Some n \<Longrightarrow> inner_ok (st s) (inners s) p n"
    and "inners s p = Some n \<Longrightarrow> in_strong n = card (keepers (inners s) p) + E p"
    and "slot_weak (st s b) = Some p \<Longrightarrow> \<exists>n. inners s p = Some n \<and> in_block_id n = b
           \<and> st s b = (if in_is_primary n then Primary else Duplicate) (in_seq_hash n) (in_handle n) p"
    and "inners s p = None \<Longrightarrow> E p = 0"
  using assms by (simp_all add: arc_inv_def)

lemma finite_keepers:
  assumes "arc_inv E s"
  shows "finite (keepers (inners s) p)"
proof -
  have "keepers (inners s) p \<subseteq> {..<next_ptr s}"
    using arc_invD(1) [OF assms] by (auto simp: keepers_def)
  then show ?thesis using finite_subset by blast
qed

lemma keepers_empty_of_dead:
  assumes "arc_inv E s" "inners s p = Some n" "in_strong n = 0"
  shows "keepers (inners s) p = {}" "E p = 0"
  using arc_invD(4) [OF assms(1,2)] assms(3) finite_keepers [OF assms(1), of p] by auto

lemma duplicate_not_kept:
  assumes "arc_inv E s" "inners s p = Some n" "\<not> in_is_primary n"
  shows "keepers (inners s) p = {}"
proof -
  have False if "inners s d = Some m" "in_keepalive m = Some p" for d m
    using arc_invD(3) [OF assms(1) that(1)] that(2) assms(2,3)
    by (auto simp: inner_ok_def split: if_splits)
  then show ?thesis by (auto simp: keepers_def)
qed

lemma inner_ok_mono:
  assumes ok: "inner_ok \<sigma> m p n"
    and st: "slot_weak (\<sigma> (in_block_id n)) = Some p \<Longrightarrow> \<sigma>' (in_block_id n) = \<sigma> (in_block_id n)"
    and keep: "\<And>q k. in_keepalive n = Some q \<Longrightarrow> m q = Some k \<Longrightarrow> \<exists>k'. m' q = Some k'
      \<and> in_is_primary k' = in_is_primary k \<and> in_seq_hash k' = in_seq_hash k"
  shows "inner_ok \<sigma>' m' p n"
proof (cases "in_is_primary n")
  case True
  with ok st show ?thesis by (auto simp: inner_ok_def)
next
  case False
  with ok obtain q k where q: "\<sigma> (in_block_id n) = Duplicate (in_seq_hash n) (in_handle n) p"
    "in_keepalive n = Some q" "m q = Some k" "in_is_primary k" "in_seq_hash k = in_seq_hash n"
    by (auto simp: inner_ok_def)
  with keep [OF q(2,3)] st False show ?thesis by (auto simp: inner_ok_def)
qed

text \<open>A slot without a pointer changes to another one.\<close>

lemma arc_inv_slot:
  assumes inv: "arc_inv E s" and b: "slot_weak (st s b) = None" "slot_weak x = None"
    and s': "st s' = (st s)(b := x)" "inners s' = inners s" "next_ptr s' = next_ptr s"
      "length (slots s) \<le> length (slots s')"
  shows "arc_inv E s'"
proof -
  have "inner_ok (st s') (inners s') p n" if "inners s p = Some n" for p n
    using arc_invD(3) [OF inv that] b by (auto simp: inner_ok_def s' split: if_splits)
  moreover have "in_block_id n < length (slots s')" if "inners s p = Some n" for p n
    using arc_invD(2) [OF inv that] s'(4) by linarith
  ultimately show ?thesis
    using inv b by (auto simp: arc_inv_def s' split: if_splits)
qed

lemma arc_inv_cong:
  assumes "arc_inv E s" "st s' = st s" "inners s' = inners s" "next_ptr s' = next_ptr s"
    "length (slots s) \<le> length (slots s')"
  shows "arc_inv E s'"
  using assms by (fastforce simp: arc_inv_def)

text \<open>The slot of a dead primary moves on; the heap entry stays for its pending drop.\<close>

lemma arc_inv_dead_slot:
  assumes inv: "arc_inv E s" and b: "st s b = Primary h k p" "inners s p = Some n" "in_strong n = 0"
    and x: "slot_weak x = None"
    and s': "st s' = (st s)(b := x)" "inners s' = inners s" "next_ptr s' = next_ptr s"
      "length (slots s) \<le> length (slots s')"
  shows "arc_inv E s'"
proof -
  have "inner_ok (st s') (inners s') q m" if "inners s q = Some m" for q m
  proof (cases "q = p")
    case True
    with that b arc_invD(3) [OF inv that] arc_invD(5) [OF inv, of b p] show ?thesis
      by (auto simp: inner_ok_def s' split: if_splits)
  next
    case False
    with arc_invD(3) [OF inv that] b(1) show ?thesis by (auto simp: inner_ok_def s' split: if_splits)
  qed
  moreover have "in_block_id n < length (slots s')" if "inners s p = Some n" for p n
    using arc_invD(2) [OF inv that] s'(4) by linarith
  ultimately show ?thesis
    using inv x by (auto simp: arc_inv_def s' split: if_splits)
qed

text \<open>Dropping a heap entry hands its keepalive reference, if any, to the dropping thread.\<close>

definition ext_add :: "nat option \<Rightarrow> (nat \<Rightarrow> nat) \<Rightarrow> nat \<Rightarrow> nat" where
  "ext_add keepalive E = (case keepalive of None \<Rightarrow> E | Some q \<Rightarrow> E(q := E q + 1))"

lemma keepers_remove:
  "m p = Some n \<Longrightarrow> keepers (m(p := None)) q = keepers m q - {p}"
  by (auto simp: keepers_def)

lemma arc_inv_remove:
  assumes inv: "arc_inv E s" and p: "inners s p = Some n" "keepers (inners s) p = {}"
    and s': "inners s' = (inners s)(p := None)" "next_ptr s' = next_ptr s"
      "length (slots s) \<le> length (slots s')"
    and st': "st s' = (if slot_weak (st s (in_block_id n)) = Some p
                       then (st s)(in_block_id n := x) else st s)" "slot_weak x = None"
  shows "arc_inv (ext_add (in_keepalive n) (E(p := 0))) s'"
proof -
  let ?b = "in_block_id n"
  have self: "in_keepalive n \<noteq> Some p" using p by (auto simp: keepers_def)
  have other: "slot_weak (st s b) = Some p \<longleftrightarrow> b = ?b \<and> slot_weak (st s ?b) = Some p" for b
    using arc_invD(5) [OF inv, of b p] p(1) by auto
  have no: "slot_weak (st s' b) \<noteq> Some p" for b
    using other [of b] st' by auto
  have keep: "st s' b = st s b" if "slot_weak (st s b) = Some q" "q \<noteq> p" for b q
    using st' that by auto
  have inner: "inner_ok (st s') (inners s') q m" if "inners s q = Some m" "q \<noteq> p" for q m
  proof -
    have ok: "inner_ok (st s) (inners s) q m" by (rule arc_invD(3) [OF inv that(1)])
    have "in_keepalive m \<noteq> Some p" using p(2) that(1) by (auto simp: keepers_def)
    then show ?thesis
      by (intro inner_ok_mono [OF ok]) (use keep that(2) in \<open>auto simp: s'\<close>)
  qed
  have count: "card (keepers (inners s) q) + E q
      = card (keepers (inners s') q) + ext_add (in_keepalive n) (E(p := 0)) q" if "q \<noteq> p" for q
  proof (cases "in_keepalive n = Some q")
    case True
    then have "p \<in> keepers (inners s) q" using p(1) by (auto simp: keepers_def)
    with True that show ?thesis
      using card_Suc_Diff1 [OF finite_keepers [OF inv]] by (simp add: s' keepers_remove [of "inners s" p n, OF p(1)] ext_add_def)
  next
    case False
    then have "p \<notin> keepers (inners s) q" using p(1) by (auto simp: keepers_def)
    with False that show ?thesis
      by (auto simp: s' keepers_remove [of "inners s" p n, OF p(1)] ext_add_def split: option.splits)
  qed
  show ?thesis
    unfolding arc_inv_def
  proof (intro conjI allI impI)
    fix q m assume "inners s' q = Some m"
    then have q: "q \<noteq> p" "inners s q = Some m" by (auto simp: s' split: if_splits)
    show "q < next_ptr s'" "in_block_id m < length (slots s')"
      using arc_invD(1,2) [OF inv q(2)] s' by auto
    show "inner_ok (st s') (inners s') q m" by (rule inner [OF q(2,1)])
    show "in_strong m = card (keepers (inners s') q) + ext_add (in_keepalive n) (E(p := 0)) q"
      using arc_invD(4) [OF inv q(2)] count [OF q(1)] by simp
  next
    fix b q assume w: "slot_weak (st s' b) = Some q"
    with no have "q \<noteq> p" by auto
    moreover have "st s' b = st s b" using w st' by (auto split: if_splits)
    ultimately show "\<exists>n. inners s' q = Some n \<and> in_block_id n = b
        \<and> st s' b = (if in_is_primary n then Primary else Duplicate) (in_seq_hash n) (in_handle n) q"
      using arc_invD(5) [OF inv, of b q] w by (auto simp: s')
  next
    fix q assume q: "inners s' q = None"
    show "ext_add (in_keepalive n) (E(p := 0)) q = 0"
    proof (cases "q = p")
      case True with self show ?thesis by (auto simp: ext_add_def split: option.splits)
    next
      case False
      with q have none: "inners s q = None" by (simp add: s')
      then have "in_keepalive n \<noteq> Some q"
        using arc_invD(3) [OF inv p(1)] by (auto simp: inner_ok_def split: if_splits)
      with False arc_invD(6) [OF inv none] show ?thesis by (auto simp: ext_add_def split: option.splits)
    qed
  qed
qed

text \<open>A new inner for a slot without a pointer.\<close>

lemma fresh_ptr:
  assumes "arc_inv E s"
  shows "inners s (next_ptr s) = None" "E (next_ptr s) = 0" "keepers (inners s) (next_ptr s) = {}"
    "slot_weak (st s b) \<noteq> Some (next_ptr s)"
proof -
  show none: "inners s (next_ptr s) = None"
    using arc_invD(1) [OF assms] by (metis less_irrefl not_Some_eq)
  then show "E (next_ptr s) = 0" by (rule arc_invD(6) [OF assms])
  show "keepers (inners s) (next_ptr s) = {}"
    using arc_invD(3) [OF assms] none by (fastforce simp: keepers_def inner_ok_def split: if_splits)
  show "slot_weak (st s b) \<noteq> Some (next_ptr s)"
    using arc_invD(5) [OF assms, of b] none by fastforce
qed

lemma arc_inv_new:
  assumes inv: "arc_inv E s" and b: "slot_weak (st s b) = None" "b < length (slots s)"
    and n: "in_block_id n = b" "in_strong n = 1"
      "in_is_primary n \<and> in_keepalive n = None
       \<or> \<not> in_is_primary n \<and> (\<exists>q k. in_keepalive n = Some q \<and> inners s q = Some k \<and> in_is_primary k
            \<and> in_seq_hash k = in_seq_hash n \<and> E q \<noteq> 0)"
    and s': "inners s' = (inners s)(next_ptr s \<mapsto> n)" "next_ptr s' = next_ptr s + 1"
      "length (slots s') = length (slots s)"
      "st s' = (st s)(b := (if in_is_primary n then Primary else Duplicate) (in_seq_hash n) (in_handle n) (next_ptr s))"
    and E': "E' = (case in_keepalive n of None \<Rightarrow> E | Some q \<Rightarrow> E(q := E q - 1))(next_ptr s := 1)"
  shows "arc_inv E' s'"
proof -
  let ?p = "next_ptr s"
  note fr = fresh_ptr [OF inv]
  have keep: "in_keepalive n \<noteq> Some ?p" using n(3) fr(1) by auto
  have kp: "keepers (inners s') q = (if in_keepalive n = Some q then insert ?p (keepers (inners s) q)
      else keepers (inners s) q)" for q
    using fr(1) by (auto simp: keepers_def s')
  have notin: "?p \<notin> keepers (inners s) q" for q using fr(1) by (auto simp: keepers_def)
  have inner: "inner_ok (st s') (inners s') q m" if "inners s q = Some m" for q m
  proof -
    have "in_keepalive m \<noteq> Some ?p" using fr(3) that by (auto simp: keepers_def)
    then show ?thesis
      by (intro inner_ok_mono [OF arc_invD(3) [OF inv that]]) (use b(1) in \<open>auto simp: s'\<close>)
  qed
  have inner_p: "inner_ok (st s') (inners s') ?p n"
    using n(1,3) keep by (auto simp: inner_ok_def s')
  show ?thesis
    unfolding arc_inv_def
  proof (intro conjI allI impI)
    fix q m assume q: "inners s' q = Some m"
    show "q < next_ptr s'" using q arc_invD(1) [OF inv, of q m] by (auto simp: s' split: if_splits)
    show "in_block_id m < length (slots s')"
      using q arc_invD(2) [OF inv, of q m] b(2) n(1) by (auto simp: s' split: if_splits)
    show "inner_ok (st s') (inners s') q m" using q inner inner_p by (auto simp: s' split: if_splits)
    show "in_strong m = card (keepers (inners s') q) + E' q"
    proof (cases "q = ?p")
      case True
      with q have "m = n" by (simp add: s')
      with True n(2) keep fr(3) show ?thesis by (simp add: kp E')
    next
      case False
      with q have "inners s q = Some m" by (simp add: s')
      from arc_invD(4) [OF inv this] False n(3) show ?thesis
        using finite_keepers [OF inv, of q] notin [of q] by (auto simp: kp E')
    qed
  next
    fix b' q assume "slot_weak (st s' b') = Some q"
    then show "\<exists>n. inners s' q = Some n \<and> in_block_id n = b'
        \<and> st s' b' = (if in_is_primary n then Primary else Duplicate) (in_seq_hash n) (in_handle n) q"
      using arc_invD(5) [OF inv, of b' q] fr(1) n(1) by (auto simp: s' split: if_splits)
  next
    fix q assume "inners s' q = None"
    then have q: "q \<noteq> ?p" "inners s q = None" by (auto simp: s' split: if_splits)
    then show "E' q = 0" using arc_invD(6) [OF inv q(2)] by (auto simp: E' split: option.splits)
  qed
qed

text \<open>A strong count changes with the callers' references.\<close>

lemma arc_inv_set_strong:
  assumes inv: "arc_inv E s" and p: "inners s p = Some n" "in_strong n \<noteq> 0 \<or> c = 0"
    and c: "card (keepers (inners s) p) + e = c"
  shows "arc_inv (E(p := e)) (set_strong p c s)"
proof -
  have kp: "keepers (inners (set_strong p c s)) q = keepers (inners s) q" for q
    using p(1) by (auto simp: keepers_def set_strong_def)
  have lookup: "inners (set_strong p c s) q = (if q = p then Some (n\<lparr>in_strong := c\<rparr>) else inners s q)" for q
    using p(1) by (simp add: set_strong_def)
  have inner: "inner_ok (st s) (inners (set_strong p c s)) q m"
    if "inners (set_strong p c s) q = Some m" for q m
  proof -
    have "inner_ok (st s) (inners s) q m"
    proof (cases "q = p")
      case True
      with that have "m = n\<lparr>in_strong := c\<rparr>" by (simp add: lookup)
      with True arc_invD(3) [OF inv p(1)] p(2) show ?thesis
        unfolding inner_ok_def by (cases "in_is_primary n") auto
    next
      case False
      with that arc_invD(3) [OF inv, of q m] show ?thesis by (simp add: lookup)
    qed
    then show ?thesis by (rule inner_ok_mono) (use p(1) in \<open>auto simp: lookup\<close>)
  qed
  show ?thesis
    unfolding arc_inv_def
  proof (intro conjI allI impI)
    fix q m assume q: "inners (set_strong p c s) q = Some m"
    show "q < next_ptr (set_strong p c s)" "in_block_id m < length (slots (set_strong p c s))"
    proof -
      from q obtain m' where "inners s q = Some m'" "in_block_id m = in_block_id m'"
        using p(1) by (auto simp: lookup split: if_splits)
      with arc_invD(1,2) [OF inv, of q m']
      show "q < next_ptr (set_strong p c s)" "in_block_id m < length (slots (set_strong p c s))"
        by (simp_all add: set_strong_def)
    qed
    show "inner_ok (st (set_strong p c s)) (inners (set_strong p c s)) q m"
      using inner [OF q] by (simp add: set_strong_def)
    show "in_strong m = card (keepers (inners (set_strong p c s)) q) + (E(p := e)) q"
      using q arc_invD(4) [OF inv, of q m] c by (auto simp: kp lookup split: if_splits)
  next
    fix b q assume "slot_weak (st (set_strong p c s) b) = Some q"
    then show "\<exists>n. inners (set_strong p c s) q = Some n \<and> in_block_id n = b
        \<and> st (set_strong p c s) b = (if in_is_primary n then Primary else Duplicate) (in_seq_hash n) (in_handle n) q"
      using arc_invD(5) [OF inv, of b q] p(1) by (auto simp: lookup) (auto simp: set_strong_def)
  next
    fix q assume "inners (set_strong p c s) q = None"
    then show "(E(p := e)) q = 0" using arc_invD(6) [OF inv, of q] by (auto simp: lookup split: if_splits)
  qed
qed

section \<open>Gauges and presence\<close>

definition cnt :: "('h slot_state \<Rightarrow> bool) \<Rightarrow> nat \<Rightarrow> (block_id \<Rightarrow> 'h slot_state) \<Rightarrow> int" where
  "cnt P cap \<sigma> = int (card {b. b < cap \<and> P (\<sigma> b)})"

lemma cnt_upd:
  assumes "b < cap"
  shows "cnt P cap (\<sigma>(b := x)) = cnt P cap \<sigma> - of_bool (P (\<sigma> b)) + of_bool (P x)"
proof -
  let ?A = "{b'. b' < cap \<and> b' \<noteq> b \<and> P (\<sigma> b')}"
  have split: "{b'. b' < cap \<and> P (\<tau> b')} = (if P (\<tau> b) then insert b ?A else ?A)"
    if "\<forall>b'. b' \<noteq> b \<longrightarrow> \<tau> b' = \<sigma> b'" for \<tau>
    using assms that by auto
  have "finite ?A" "b \<notin> ?A" by auto
  with split [of \<sigma>] split [of "\<sigma>(b := x)"] show ?thesis by (simp add: cnt_def)
qed

lemma cnt_nonneg: "0 \<le> cnt P cap \<sigma>"
  by (simp add: cnt_def)

abbreviation has_handle :: "nat \<Rightarrow> 'h slot_state \<Rightarrow> bool" where
  "has_handle i x \<equiv> map_option handle_id (slot_handle x) = Some i"

text \<open>
  The amounts still to be booked: \<open>dr\<close> for the reset gauge, \<open>di\<close> inactive, \<open>dh\<close> held,
  \<open>dm\<close> in-flight mutable, \<open>dp\<close> presence. Between operations all but \<open>dm\<close> are zero; \<open>dm\<close> is the
  number of mutable slots reserved by rebind plans, which the gauge does not count.
\<close>

definition acct :: "int \<Rightarrow> int \<Rightarrow> int \<Rightarrow> int \<Rightarrow> (nat \<Rightarrow> int) \<Rightarrow> ('h, 'i) block_store \<Rightarrow> bool" where
  "acct dr di dh dm dp s \<longleftrightarrow>
     reset_pool_size (metrics s) + dr = cnt (\<lambda>x. x = Reset) (capacity s) (st s)
     \<and> inactive_pool_size (metrics s) + di = cnt (\<lambda>x. inact_hash x \<noteq> None) (capacity s) (st s)
     \<and> held_residency (metrics s) + dh = cnt (\<lambda>x. held_hash x \<noteq> None) (capacity s) (st s)
     \<and> inflight_mutable (metrics s) + dm = cnt (\<lambda>x. x = Mutable) (capacity s) (st s)
     \<and> (\<forall>i. int (presence s i) + dp i = cnt (has_handle i) (capacity s) (st s))"

lemma acct_slot:
  assumes "acct dr di dh dm dp s" "b < capacity s" "st s' = (st s)(b := x)"
    "capacity s' = capacity s" "metrics s' = metrics s" "presence s' = presence s"
  shows "acct (dr - of_bool (st s b = Reset) + of_bool (x = Reset))
    (di - of_bool (inact_hash (st s b) \<noteq> None) + of_bool (inact_hash x \<noteq> None))
    (dh - of_bool (held_hash (st s b) \<noteq> None) + of_bool (held_hash x \<noteq> None))
    (dm - of_bool (st s b = Mutable) + of_bool (x = Mutable))
    (\<lambda>i. dp i - of_bool (has_handle i (st s b)) + of_bool (has_handle i x)) s'"
  using assms unfolding acct_def by (simp add: cnt_upd)

lemma acct_cong:
  assumes "acct dr di dh dm dp s" "st s' = st s" "capacity s' = capacity s" "metrics s' = metrics s"
    "presence s' = presence s"
  shows "acct dr di dh dm dp s'"
  using assms by (simp add: acct_def)

lemma acct_metrics:
  "acct dr di dh dm dp (inc_reset_pool_size_by n s) \<longleftrightarrow> acct (dr + n) di dh dm dp s"
  "acct dr di dh dm dp (dec_reset_pool_size_by n s) \<longleftrightarrow> acct (dr - n) di dh dm dp s"
  "acct dr di dh dm dp (inc_inactive_pool_size_by n s) \<longleftrightarrow> acct dr (di + n) dh dm dp s"
  "acct dr di dh dm dp (dec_inactive_pool_size_by n s) \<longleftrightarrow> acct dr (di - n) dh dm dp s"
  "acct dr di dh dm dp (inc_held_residency_by n s) \<longleftrightarrow> acct dr di (dh + n) dm dp s"
  "acct dr di dh dm dp (dec_held_residency_by n s) \<longleftrightarrow> acct dr di (dh - n) dm dp s"
  "acct dr di dh dm dp (inc_inflight_mutable_by n s) \<longleftrightarrow> acct dr di dh (dm + n) dp s"
  "acct dr di dh dm dp (dec_inflight_mutable_by n s) \<longleftrightarrow> acct dr di dh (dm - n) dp s"
  "acct dr di dh dm dp (inc_inflight_immutable s) \<longleftrightarrow> acct dr di dh dm dp s"
  "acct dr di dh dm dp (dec_inflight_immutable s) \<longleftrightarrow> acct dr di dh dm dp s"
  "acct dr di dh dm dp (inc_evictions k s) \<longleftrightarrow> acct dr di dh dm dp s"
  "acct dr di dh dm dp (inc_allocations k k' s) \<longleftrightarrow> acct dr di dh dm dp s"
  "acct dr di dh dm dp (metrics_update (allocate_atomic_rollback_update f) s) \<longleftrightarrow> acct dr di dh dm dp s"
  "acct dr di dh dm dp (metrics_update (stagings_update f) s) \<longleftrightarrow> acct dr di dh dm dp s"
  "acct dr di dh dm dp (metrics_update (duplicate_blocks_update f) s) \<longleftrightarrow> acct dr di dh dm dp s"
  "acct dr di dh dm dp (metrics_update (registration_dedup_update f) s) \<longleftrightarrow> acct dr di dh dm dp s"
  "acct dr di dh dm dp (metrics_update (eager_primary_to_inactive_update f) s) \<longleftrightarrow> acct dr di dh dm dp s"
  "acct dr di dh dm dp (metrics_update (release_primary_noop_update f) s) \<longleftrightarrow> acct dr di dh dm dp s"
  "acct dr di dh dm dp (metrics_update (release_duplicate_noop_update f) s) \<longleftrightarrow> acct dr di dh dm dp s"
  by (auto simp: acct_def metrics_defs add.assoc add.commute add.left_commute)

lemma acct_mark_absent:
  assumes "acct dr di dh dm dp s" "dp (handle_id k) < 0"
  shows "acct dr di dh dm (dp(handle_id k := dp (handle_id k) + 1)) (mark_absent k s)"
proof -
  have "int (presence s (handle_id k)) + dp (handle_id k) \<ge> 0"
    using assms(1) cnt_nonneg unfolding acct_def by metis
  with assms(2) have "presence s (handle_id k) \<noteq> 0" by linarith
  with assms(1) show ?thesis
    unfolding acct_def by (auto simp: mark_absent_def of_nat_diff)
qed

lemma acct_mark_present:
  assumes "acct dr di dh dm dp s"
  shows "acct dr di dh dm (dp(handle_id k := dp (handle_id k) - 1)) (mark_present k s)"
  using assms unfolding acct_def by (auto simp: mark_present_def)

definition hcount :: "'h registration_handle list \<Rightarrow> nat \<Rightarrow> int" where
  "hcount ks i = int (length (filter (\<lambda>k. handle_id k = i) ks))"

lemma hcount_simps [simp]:
  "hcount [] i = 0" "hcount (k # ks) i = of_bool (handle_id k = i) + hcount ks i"
  "hcount (ks @ ks') i = hcount ks i + hcount ks' i"
  by (simp_all add: hcount_def)

lemma hcount_nonneg: "0 \<le> hcount ks i"
  by (simp add: hcount_def)

lemma acct_mark_absents:
  assumes "acct dr di dh dm dp s" "\<forall>i. dp i + hcount ks i \<le> 0"
  shows "acct dr di dh dm (\<lambda>i. dp i + hcount ks i) (fold mark_absent ks s)"
  using assms
proof (induction ks arbitrary: dp s)
  case (Cons k ks)
  let ?dp = "dp(handle_id k := dp (handle_id k) + 1)"
  have "dp (handle_id k) < 0"
    using Cons.prems(2) [rule_format, of "handle_id k"] hcount_nonneg [of ks "handle_id k"] by simp
  from acct_mark_absent [OF Cons.prems(1) this] have "acct dr di dh dm ?dp (mark_absent k s)" .
  moreover have "\<forall>i. ?dp i + hcount ks i \<le> 0"
  proof
    fix i show "?dp i + hcount ks i \<le> 0" using Cons.prems(2) [rule_format, of i] by auto
  qed
  ultimately have "acct dr di dh dm (\<lambda>i. ?dp i + hcount ks i) (fold mark_absent ks (mark_absent k s))"
    by (rule Cons.IH)
  moreover have "(\<lambda>i. ?dp i + hcount ks i) = (\<lambda>i. dp i + hcount (k # ks) i)" by auto
  ultimately show ?case by simp
qed simp

text \<open>The presence amounts an operation still owes for the handles \<open>ks\<close> it will mark absent.\<close>

definition unbook :: "(nat \<Rightarrow> int) \<Rightarrow> 'h registration_handle list \<Rightarrow> nat \<Rightarrow> int" where
  "unbook dp ks = (\<lambda>i. dp i - hcount ks i)"

lemma unbook_simps [simp]:
  "unbook dp [] = dp" "unbook (unbook dp ks) ks' = unbook dp (ks @ ks')"
  by (auto simp: unbook_def)

lemma acct_unbook:
  assumes "acct dr di dh dm (unbook (\<lambda>_. 0) ks) s"
  shows "acct dr di dh dm (\<lambda>_. 0) (fold mark_absent ks s)"
  using acct_mark_absents [OF assms, of ks] by (simp add: unbook_def)

definition handles_of :: "'h slot_state \<Rightarrow> 'h registration_handle list" where
  "handles_of x = (case slot_handle x of None \<Rightarrow> [] | Some k \<Rightarrow> [k])"

lemma handles_of_simps [simp]:
  "handles_of Reset = []" "handles_of Mutable = []" "handles_of (Staged h) = []"
  "handles_of (Primary h k p) = [k]" "handles_of (Duplicate h k p) = [k]"
  "handles_of (Inactive h k) = [k]" "handles_of (Held h k) = [k]"
  by (simp_all add: handles_of_def)

lemma of_bool_has_handle: "of_bool (has_handle i x) = hcount (handles_of x) i"
  by (auto simp: handles_of_def split: option.splits)

end
