(* ===== verification/Block_Store_Steps.thy ===== *)
theory Block_Store_Steps
  imports Block_Store_Inv
begin

text \<open>
  The primitive steps of the store's operations and what each does to the invariant, proved once
  for every inactive index that keeps its contract. The operations of \<open>Block_Store\<close> are
  compositions of these steps.
\<close>

section \<open>The invariant in the middle of an operation\<close>

definition mid_inv ::
  "('i \<Rightarrow> bool) \<Rightarrow> ('i \<Rightarrow> 'h \<rightharpoonup> block_id) \<Rightarrow> (nat \<Rightarrow> 'i \<Rightarrow> bool) \<Rightarrow> block_id set \<Rightarrow> block_id set
    \<Rightarrow> (nat \<Rightarrow> nat) \<Rightarrow> int \<Rightarrow> int \<Rightarrow> int \<Rightarrow> int \<Rightarrow> (nat \<Rightarrow> int) \<Rightarrow> ('h, 'i) block_store \<Rightarrow> bool" where
  "mid_inv iinv iabs room X R E dr di dh dm dp s \<longleftrightarrow>
     core_inv iabs X R s \<and> iinv (inactive s) \<and> room (length (slots s)) (inactive s)
     \<and> arc_inv E s \<and> acct dr di dh dm dp s"

definition store_inv ::
  "('i \<Rightarrow> bool) \<Rightarrow> ('i \<Rightarrow> 'h \<rightharpoonup> block_id) \<Rightarrow> (nat \<Rightarrow> 'i \<Rightarrow> bool)
    \<Rightarrow> (nat \<Rightarrow> nat) \<Rightarrow> int \<Rightarrow> ('h, 'i) block_store \<Rightarrow> bool" where
  "store_inv iinv iabs room E dm s \<longleftrightarrow> mid_inv iinv iabs room {} {} E 0 0 0 dm (\<lambda>_. 0) s"

lemma mid_invI:
  assumes "core_inv iabs X R s" "iinv (inactive s)" "room (length (slots s)) (inactive s)"
    "arc_inv E s" "acct dr di dh dm dp s"
  shows "mid_inv iinv iabs room X R E dr di dh dm dp s"
  using assms by (simp add: mid_inv_def)

lemma mid_invD:
  assumes "mid_inv iinv iabs room X R E dr di dh dm dp s"
  shows "core_inv iabs X R s" "iinv (inactive s)" "room (length (slots s)) (inactive s)"
    "arc_inv E s" "acct dr di dh dm dp s"
  using assms by (simp_all add: mid_inv_def)

text \<open>What no step changes, and the steps that only touch one slot.\<close>

definition frame :: "('h, 'i) block_store \<Rightarrow> ('h, 'i) block_store \<Rightarrow> bool" where
  "frame s s' \<longleftrightarrow> store_id s' = store_id s \<and> store_block_size s' = store_block_size s
     \<and> store_total_blocks s' = store_total_blocks s
     \<and> default_reset_on_release s' = default_reset_on_release s
     \<and> capacity s' = capacity s \<and> fence s' = fence s \<and> length (slots s') = length (slots s)"

lemma frame_refl [simp]: "frame s s"
  by (simp add: frame_def)

lemma frame_trans: "frame s s' \<Longrightarrow> frame s' s'' \<Longrightarrow> frame s s''"
  by (simp add: frame_def)

lemma frame_ceiling: "frame s s' \<Longrightarrow> effective_ceiling s' = effective_ceiling s"
  by (cases "fence s") (simp_all add: frame_def effective_ceiling_def)

definition only_slots :: "block_id set \<Rightarrow> ('h, 'i) block_store \<Rightarrow> ('h, 'i) block_store \<Rightarrow> bool" where
  "only_slots B s s' \<longleftrightarrow> frame s s' \<and> (\<forall>b. b \<notin> B \<longrightarrow> slots s' ! b = slots s ! b)"

lemma only_slots_refl [simp]: "only_slots B s s"
  by (simp add: only_slots_def)

lemma only_slots_trans:
  "only_slots B s s' \<Longrightarrow> only_slots C s' s'' \<Longrightarrow> only_slots (B \<union> C) s s''"
  by (auto simp: only_slots_def intro: frame_trans)

lemma only_slots_mono: "only_slots B s s' \<Longrightarrow> B \<subseteq> C \<Longrightarrow> only_slots C s s'"
  by (auto simp: only_slots_def)

lemma only_slots_st: "only_slots B s s' \<Longrightarrow> b \<notin> B \<Longrightarrow> st s' b = st s b"
  by (simp add: only_slots_def frame_def st_def)

lemma only_slots_frame: "only_slots B s s' \<Longrightarrow> frame s s'"
  by (simp add: only_slots_def)

text \<open>The states a guard moves between: no pointer, no hash of their own in an index.\<close>

definition guarded :: "'h slot_state \<Rightarrow> bool" where
  "guarded x = (case x of Mutable \<Rightarrow> True | Staged _ \<Rightarrow> True | _ \<Rightarrow> False)"

lemma guarded_simps [simp]:
  "guarded Mutable" "guarded (Staged h)" "\<not> guarded Reset" "\<not> guarded (Primary h k p)"
  "\<not> guarded (Duplicate h k p)" "\<not> guarded (Inactive h k)" "\<not> guarded (Held h k)"
  by (simp_all add: guarded_def)

lemma guardedD:
  "guarded x \<Longrightarrow> x \<noteq> Reset \<and> slot_weak x = None \<and> inact_hash x = None \<and> held_hash x = None
    \<and> prim_hash x = None \<and> handles_of x = []"
  by (cases x) simp_all

text \<open>A step that leaves the blocks of the callers' guards alone.\<close>

definition keeps_guards :: "block_id set \<Rightarrow> ('h, 'i) block_store \<Rightarrow> ('h, 'i) block_store \<Rightarrow> bool" where
  "keeps_guards B s s' \<longleftrightarrow> (\<forall>b. b \<notin> B \<longrightarrow> guarded (st s b) \<or> guarded (st s' b) \<longrightarrow> st s' b = st s b)"

lemma keeps_guardsD:
  "keeps_guards B s s' \<Longrightarrow> b \<notin> B \<Longrightarrow> guarded (st s b) \<or> guarded (st s' b) \<Longrightarrow> st s' b = st s b"
  unfolding keeps_guards_def by blast

lemma keeps_guards_refl: "st s' = st s \<Longrightarrow> keeps_guards B s s'"
  by (simp add: keeps_guards_def)

lemma keeps_guards_cong:
  assumes "keeps_guards B s s'" "st s1 = st s" "st s1' = st s'"
  shows "keeps_guards B s1 s1'"
  using assms(1) unfolding keeps_guards_def assms(2,3) .

lemma keeps_guards_trans:
  assumes "keeps_guards B s s'" "keeps_guards C s' s''"
  shows "keeps_guards (B \<union> C) s s''"
  unfolding keeps_guards_def
proof (intro allI impI)
  fix b assume b: "b \<notin> B \<union> C" "guarded (st s b) \<or> guarded (st s'' b)"
  from b(2) show "st s'' b = st s b"
  proof
    assume "guarded (st s b)"
    with b(1) keeps_guardsD [OF assms(1), of b] keeps_guardsD [OF assms(2), of b] show ?thesis by simp
  next
    assume "guarded (st s'' b)"
    with b(1) keeps_guardsD [OF assms(1), of b] keeps_guardsD [OF assms(2), of b] show ?thesis by simp
  qed
qed

lemma keeps_guards_trans0: "keeps_guards {} s s' \<Longrightarrow> keeps_guards {} s' s'' \<Longrightarrow> keeps_guards {} s s''"
  using keeps_guards_trans [of "{}" s s' "{}"] by simp

lemma only_slots_keeps_guards:
  assumes "only_slots B s s'" "\<And>b. b \<in> B \<Longrightarrow> b \<notin> C \<Longrightarrow> \<not> guarded (st s b) \<and> \<not> guarded (st s' b)"
  shows "keeps_guards C s s'"
  unfolding keeps_guards_def
proof (intro allI impI)
  fix b assume b: "b \<notin> C" "guarded (st s b) \<or> guarded (st s' b)"
  with assms(2) [of b] have "b \<notin> B" by blast
  then show "st s' b = st s b" by (rule only_slots_st [OF assms(1)])
qed

lemma keeps_guards_upd:
  "st s' = (st s)(b := x) \<Longrightarrow> \<not> guarded (st s b) \<Longrightarrow> \<not> guarded x \<Longrightarrow> keeps_guards {} s s'"
  by (simp add: keeps_guards_def)

text \<open>A slot whose counters can still be incremented.\<close>

definition gen_ok :: "('h, 'i) block_store \<Rightarrow> block_id \<Rightarrow> bool" where
  "gen_ok s b \<longleftrightarrow> generation (slots s ! b) \<noteq> - 1"

definition epoch_ok :: "('h, 'i) block_store \<Rightarrow> block_id \<Rightarrow> bool" where
  "epoch_ok s b \<longleftrightarrow> inactive_epoch (slots s ! b) \<noteq> - 1"

lemma only_slots_counters:
  assumes "only_slots B s s'" "b \<notin> B"
  shows "gen_ok s' b = gen_ok s b" "epoch_ok s' b = epoch_ok s b"
  using assms by (simp_all add: only_slots_def gen_ok_def epoch_ok_def)

text \<open>Everything but the slots and the reset flags is as before.\<close>

definition slots_only :: "('h, 'i) block_store \<Rightarrow> ('h, 'i) block_store \<Rightarrow> bool" where
  "slots_only s s' \<longleftrightarrow> free s' = free s \<and> fenced s' = fenced s \<and> inactive s' = inactive s
    \<and> active_by_hash s' = active_by_hash s \<and> held_by_hash s' = held_by_hash s
    \<and> inners s' = inners s \<and> next_ptr s' = next_ptr s \<and> metrics s' = metrics s \<and> presence s' = presence s
    \<and> length (reset_on_release s') = length (reset_on_release s)"

text \<open>Booking metrics.\<close>

lemma mid_inv_metrics:
  "mid_inv iinv iabs room X R E dr di dh dm dp (metrics_update f s) \<longleftrightarrow>
    core_inv iabs X R s \<and> iinv (inactive s) \<and> room (length (slots s)) (inactive s)
    \<and> arc_inv E s \<and> acct dr di dh dm dp (metrics_update f s)"
  by (simp add: mid_inv_def core_inv_def arc_inv_def)

lemma mid_inv_booking:
  "mid_inv iinv iabs room X R E dr di dh dm dp (inc_reset_pool_size_by n s)
    \<longleftrightarrow> mid_inv iinv iabs room X R E (dr + n) di dh dm dp s"
  "mid_inv iinv iabs room X R E dr di dh dm dp (dec_reset_pool_size_by n s)
    \<longleftrightarrow> mid_inv iinv iabs room X R E (dr - n) di dh dm dp s"
  "mid_inv iinv iabs room X R E dr di dh dm dp (inc_inactive_pool_size_by n s)
    \<longleftrightarrow> mid_inv iinv iabs room X R E dr (di + n) dh dm dp s"
  "mid_inv iinv iabs room X R E dr di dh dm dp (dec_inactive_pool_size_by n s)
    \<longleftrightarrow> mid_inv iinv iabs room X R E dr (di - n) dh dm dp s"
  "mid_inv iinv iabs room X R E dr di dh dm dp (inc_held_residency_by n s)
    \<longleftrightarrow> mid_inv iinv iabs room X R E dr di (dh + n) dm dp s"
  "mid_inv iinv iabs room X R E dr di dh dm dp (dec_held_residency_by n s)
    \<longleftrightarrow> mid_inv iinv iabs room X R E dr di (dh - n) dm dp s"
  "mid_inv iinv iabs room X R E dr di dh dm dp (inc_inflight_mutable_by n s)
    \<longleftrightarrow> mid_inv iinv iabs room X R E dr di dh (dm + n) dp s"
  "mid_inv iinv iabs room X R E dr di dh dm dp (dec_inflight_mutable_by n s)
    \<longleftrightarrow> mid_inv iinv iabs room X R E dr di dh (dm - n) dp s"
  using acct_metrics(1-8) [of dr di dh dm dp n s]
  unfolding metrics_defs mid_inv_metrics by (simp_all add: mid_inv_def)

lemma mid_inv_counters:
  "mid_inv iinv iabs room X R E dr di dh dm dp (inc_inflight_immutable s)
    \<longleftrightarrow> mid_inv iinv iabs room X R E dr di dh dm dp s"
  "mid_inv iinv iabs room X R E dr di dh dm dp (dec_inflight_immutable s)
    \<longleftrightarrow> mid_inv iinv iabs room X R E dr di dh dm dp s"
  "mid_inv iinv iabs room X R E dr di dh dm dp (inc_evictions k s)
    \<longleftrightarrow> mid_inv iinv iabs room X R E dr di dh dm dp s"
  "mid_inv iinv iabs room X R E dr di dh dm dp (inc_allocations k k' s)
    \<longleftrightarrow> mid_inv iinv iabs room X R E dr di dh dm dp s"
  using acct_metrics(9,10) [of dr di dh dm dp s] acct_metrics(11) [of dr di dh dm dp k s]
    acct_metrics(12) [of dr di dh dm dp k k' s]
  unfolding metrics_defs mid_inv_metrics by (simp_all add: mid_inv_def)

lemma mid_inv_event_counters:
  "mid_inv iinv iabs room X R E dr di dh dm dp (metrics_update (allocate_atomic_rollback_update f) s)
    \<longleftrightarrow> mid_inv iinv iabs room X R E dr di dh dm dp s"
  "mid_inv iinv iabs room X R E dr di dh dm dp (metrics_update (stagings_update f) s)
    \<longleftrightarrow> mid_inv iinv iabs room X R E dr di dh dm dp s"
  "mid_inv iinv iabs room X R E dr di dh dm dp (metrics_update (duplicate_blocks_update f) s)
    \<longleftrightarrow> mid_inv iinv iabs room X R E dr di dh dm dp s"
  "mid_inv iinv iabs room X R E dr di dh dm dp (metrics_update (registration_dedup_update f) s)
    \<longleftrightarrow> mid_inv iinv iabs room X R E dr di dh dm dp s"
  "mid_inv iinv iabs room X R E dr di dh dm dp (metrics_update (eager_primary_to_inactive_update f) s)
    \<longleftrightarrow> mid_inv iinv iabs room X R E dr di dh dm dp s"
  "mid_inv iinv iabs room X R E dr di dh dm dp (metrics_update (release_primary_noop_update f) s)
    \<longleftrightarrow> mid_inv iinv iabs room X R E dr di dh dm dp s"
  "mid_inv iinv iabs room X R E dr di dh dm dp (metrics_update (release_duplicate_noop_update f) s)
    \<longleftrightarrow> mid_inv iinv iabs room X R E dr di dh dm dp s"
  unfolding mid_inv_metrics acct_metrics by (simp_all add: mid_inv_def)

lemmas mid_inv_book = mid_inv_booking mid_inv_counters mid_inv_event_counters

lemma fold_mark_absent: "\<exists>f. fold mark_absent ks s = presence_update f s"
proof (induction ks arbitrary: s)
  case Nil
  have "s = presence_update (\<lambda>x. x) s" by simp
  then show ?case by (metis fold_simps(1))
next
  case (Cons k ks)
  then obtain f where "fold mark_absent ks (mark_absent k s) = presence_update f (mark_absent k s)" by blast
  then have "fold mark_absent (k # ks) s = presence_update f (mark_absent k s)" by simp
  also have "\<dots> = presence_update (\<lambda>pr. f (pr(handle_id k := pr (handle_id k) - 1))) s"
    by (simp add: mark_absent_def comp_def)
  finally show ?case by blast
qed

lemma fold_mark_absent_fields [simp]:
  "slots (fold mark_absent ks s) = slots s" "st (fold mark_absent ks s) = st s"
  "free (fold mark_absent ks s) = free s" "fenced (fold mark_absent ks s) = fenced s"
  "inactive (fold mark_absent ks s) = inactive s" "inners (fold mark_absent ks s) = inners s"
  "active_by_hash (fold mark_absent ks s) = active_by_hash s"
  "held_by_hash (fold mark_absent ks s) = held_by_hash s"
  "next_ptr (fold mark_absent ks s) = next_ptr s" "frame s' (fold mark_absent ks s) = frame s' s"
  "reset_on_release (fold mark_absent ks s) = reset_on_release s"
  "only_slots B s' (fold mark_absent ks s) = only_slots B s' s"
  using fold_mark_absent [of ks s] by (auto simp: frame_def only_slots_def)

lemma metrics_fields [simp]:
  "st (inc_reset_pool_size_by n s) = st s" "st (dec_reset_pool_size_by n s) = st s"
  "st (inc_inactive_pool_size_by n s) = st s" "st (dec_inactive_pool_size_by n s) = st s"
  "st (inc_held_residency_by n s) = st s" "st (dec_held_residency_by n s) = st s"
  "st (inc_inflight_mutable_by n s) = st s" "st (dec_inflight_mutable_by n s) = st s"
  "st (inc_inflight_immutable s) = st s" "st (dec_inflight_immutable s) = st s"
  "st (inc_evictions k s) = st s" "st (inc_allocations k k' s) = st s"
  by (simp_all add: metrics_defs)

lemma frame_metrics [simp]:
  "frame s (metrics_update f s')  = frame s s'" "only_slots B s (metrics_update f s') = only_slots B s s'"
  by (simp_all add: frame_def only_slots_def)

section \<open>Facts of a store between steps\<close>

lemma core_bounds:
  assumes "core_inv iabs X R s"
  shows "st s b \<noteq> Reset \<Longrightarrow> b < length (slots s)" "b \<in> R \<Longrightarrow> b < length (slots s)"
    "b \<in> R \<Longrightarrow> st s b = Reset" "b \<in> free s \<Longrightarrow> st s b = Reset \<and> b < effective_ceiling s \<and> b \<notin> R"
    "b \<in> R \<Longrightarrow> b < capacity s" "finite (free s)" "finite (fenced s)"
proof -
  note ok = core_invD [OF assms]
  show "st s b \<noteq> Reset \<Longrightarrow> b < length (slots s)" by (simp add: st_def split: if_splits)
  show "b \<in> R \<Longrightarrow> st s b = Reset" "b \<in> R \<Longrightarrow> b < capacity s"
    "b \<in> free s \<Longrightarrow> st s b = Reset \<and> b < effective_ceiling s \<and> b \<notin> R"
    using ok(4) by (auto simp: pools_ok_def)
  then show "b \<in> R \<Longrightarrow> b < length (slots s)" using ok(1) by auto
  show "finite (free s)" "finite (fenced s)" using ok(4) by (auto simp: pools_ok_def)
qed

text \<open>The index is smaller than the slot vector whenever a slot is outside it.\<close>

lemma index_card_less:
  assumes core: "core_inv iabs X R s" and b: "b < capacity s" "b \<in> X \<or> inact_hash (st s b) = None"
  shows "card (dom (iabs (inactive s))) < length (slots s)"
proof -
  note ok = core_invD [OF core]
  let ?m = "iabs (inactive s)"
  have "(\<lambda>h. the (?m h)) ` dom ?m \<subseteq> {..<capacity s} - {b}"
  proof
    fix b' assume "b' \<in> (\<lambda>h. the (?m h)) ` dom ?m"
    then obtain h where "?m h = Some b'" by auto
    then have h: "inact_hash (st s b') = Some h" "b' \<notin> X" using index_okD(1) [OF ok(5)] by auto
    then have "st s b' \<noteq> Reset" by auto
    then have "b' < capacity s" by (rule ok(3))
    moreover have "b' \<noteq> b" using h b(2) by auto
    ultimately show "b' \<in> {..<capacity s} - {b}" by simp
  qed
  moreover have "inj_on (\<lambda>h. the (?m h)) (dom ?m)"
  proof (rule inj_onI)
    fix h h' assume "h \<in> dom ?m" "h' \<in> dom ?m" "the (?m h) = the (?m h')"
    then obtain b' where "?m h = Some b'" "?m h' = Some b'" by auto
    then show "h = h'" using index_okD(1) [OF ok(5)] by simp
  qed
  ultimately have "card (dom ?m) \<le> card ({..<capacity s} - {b})"
    by (intro card_inj_on_le) auto
  also have "\<dots> < capacity s" using b(1) by (simp add: card_Diff_singleton)
  finally show ?thesis using ok(1) by linarith
qed

section \<open>Steps\<close>

context inactive_index
begin

abbreviation MI where "MI \<equiv> mid_inv iinv iabs room"

text \<open>Reset ids: popping the lowest, pushing one back, allocating a popped one.\<close>

lemma pop_first_free_step:
  assumes inv: "MI X R E dr di dh dm dp s" and ne: "free s \<noteq> {}"
  shows "\<exists>b s'. pop_first_free s = Some (b, s') \<and> b = Min (free s) \<and> b \<in> free s \<and> b \<notin> R
    \<and> s' = s\<lparr>free := free s - {b}\<rparr> \<and> MI X (insert b R) E dr di dh dm dp s'"
proof -
  note core = mid_invD(1) [OF inv]
  note ok = core_invD [OF core]
  let ?b = "Min (free s)"
  have b: "?b \<in> free s" using core_bounds(6) [OF core] ne by (rule Min_in)
  let ?s = "s\<lparr>free := free s - {?b}\<rparr>"
  have "core_inv iabs X (insert ?b R) ?s"
    using ok pools_ok_upd(5) [OF ok(4) b effective_ceiling_le]
    by (intro core_invI) auto
  moreover have "arc_inv E ?s" by (rule arc_inv_cong [OF mid_invD(4) [OF inv]]) simp_all
  moreover have "acct dr di dh dm dp ?s" by (rule acct_cong [OF mid_invD(5) [OF inv]]) simp_all
  ultimately have "MI X (insert ?b R) E dr di dh dm dp ?s"
    using mid_invD(2,3) [OF inv] by (intro mid_invI) simp_all
  with b ne core_bounds(4) [OF core b] show ?thesis by (simp add: pop_first_free_def)
qed

lemma push_reset_step:
  assumes inv: "MI X R E dr di dh dm dp s" and b: "b \<in> R"
  shows "MI X (R - {b}) E dr di dh dm dp (push_reset_id_locked b s)"
    "only_slots {} s (push_reset_id_locked b s)"
proof -
  note ok = core_invD [OF mid_invD(1) [OF inv]]
  let ?s = "push_reset_id_locked b s"
  have fields: "st ?s = st s" "effective_ceiling ?s = effective_ceiling s" "capacity ?s = capacity s"
    "slots ?s = slots s" "inactive ?s = inactive s" "active_by_hash ?s = active_by_hash s"
    "held_by_hash ?s = held_by_hash s" "reset_on_release ?s = reset_on_release s"
    "inners ?s = inners s" "next_ptr ?s = next_ptr s" "metrics ?s = metrics s" "presence ?s = presence s"
    by (simp_all add: push_reset_id_locked_def)
  have "pools_ok (st s) (effective_ceiling s) (capacity s) (R - {b}) (free ?s) (fenced ?s)"
    using pools_ok_upd(3,4) [OF ok(4) b]
    by (cases "b < effective_ceiling s") (simp_all add: push_reset_id_locked_def)
  then have "core_inv iabs X (R - {b}) ?s"
    using ok by (intro core_invI) (simp_all add: fields)
  moreover have "arc_inv E ?s" by (rule arc_inv_cong [OF mid_invD(4) [OF inv]]) (simp_all add: fields)
  moreover have "acct dr di dh dm dp ?s" by (rule acct_cong [OF mid_invD(5) [OF inv]]) (simp_all add: fields)
  ultimately show "MI X (R - {b}) E dr di dh dm dp ?s"
    using mid_invD(2,3) [OF inv] by (intro mid_invI) (simp_all add: fields)
  show "only_slots {} s ?s" by (simp add: only_slots_def frame_def push_reset_id_locked_def)
qed

text \<open>The effect of \<open>allocate_mutable_slot\<close> on the fields.\<close>

lemma allocate_mutable_slot_fields:
  assumes "b < length (slots s)" "length (reset_on_release s) = length (slots s)" "gen_ok s b"
  shows "\<exists>s'. allocate_mutable_slot b s = Some (slot_block_size (slots s ! b), s')
    \<and> only_slots {b} s s' \<and> st s' = (st s)(b := Mutable)
    \<and> generation (slots s' ! b) = generation (slots s ! b) + 1
    \<and> reset_on_release s' = (reset_on_release s)[b := default_reset_on_release s]
    \<and> slots_only s s'"
  using assms
  by (auto simp: allocate_mutable_slot_def index_slot_def assert_that_def gen_ok_def set_reset_flag_def
      only_slots_def frame_def st_list_update slots_only_def)

lemma set_state_fields:
  assumes "b < length (slots s)"
  shows "\<exists>s'. set_state b x s = Some s' \<and> only_slots {b} s s' \<and> st s' = (st s)(b := x)
    \<and> gen_ok s' b = gen_ok s b \<and> epoch_ok s' b = epoch_ok s b
    \<and> reset_on_release s' = reset_on_release s \<and> slots_only s s'"
  using assms
  by (auto simp: set_state_def only_slots_def frame_def st_list_update slots_only_def gen_ok_def epoch_ok_def)

lemma set_reset_flag_fields:
  assumes "b < length (reset_on_release s)"
  shows "\<exists>s'. set_reset_flag b v s = Some s' \<and> only_slots {} s s' \<and> st s' = st s
    \<and> slots s' = slots s \<and> reset_on_release s' = (reset_on_release s)[b := v] \<and> slots_only s s'"
  using assms by (auto simp: set_reset_flag_def only_slots_def frame_def slots_only_def)

text \<open>The general step: one slot changes; each part of the invariant is shown for the new state.\<close>

lemma MI_slot:
  assumes inv: "MI X R E dr di dh dm dp s" and fr: "frame s s'" and st: "st s' = (st s)(b := x)"
    and b: "b < capacity s" and flags: "length (reset_on_release s') = length (reset_on_release s)"
    and acc: "metrics s' = metrics s" "presence s' = presence s"
    and pools: "pools_ok ((st s)(b := x)) (effective_ceiling s) (capacity s) R' (free s') (fenced s')"
    and idx: "index_ok ((st s)(b := x)) X' (iabs (inactive s'))" "iinv (inactive s')"
      "room (length (slots s)) (inactive s')"
    and act: "active_ok ((st s)(b := x)) (active_by_hash s')"
    and held: "held_ok ((st s)(b := x)) (held_by_hash s')"
    and arc: "arc_inv E' s'"
  shows "MI X' R' E' (dr - of_bool (st s b = Reset) + of_bool (x = Reset))
    (di - of_bool (inact_hash (st s b) \<noteq> None) + of_bool (inact_hash x \<noteq> None))
    (dh - of_bool (held_hash (st s b) \<noteq> None) + of_bool (held_hash x \<noteq> None))
    (dm - of_bool (st s b = Mutable) + of_bool (x = Mutable))
    (\<lambda>i. unbook dp (handles_of (st s b)) i + hcount (handles_of x) i) s'"
proof -
  note ok = core_invD [OF mid_invD(1) [OF inv]]
  have eq: "capacity s' = capacity s" "length (slots s') = length (slots s)"
    "effective_ceiling s' = effective_ceiling s"
    using fr frame_ceiling [OF fr] by (simp_all add: frame_def)
  have core: "core_inv iabs X' R' s'"
  proof (rule core_invI)
    show "b' < capacity s'" if "st s' b' \<noteq> Reset" for b'
      using that ok(3) [of b'] b by (auto simp: st eq split: if_splits)
  qed (use ok pools idx act held in \<open>simp_all add: st eq flags\<close>)
  show ?thesis
    unfolding unbook_def
  proof (rule mid_invI [OF core])
    show "room (length (slots s')) (inactive s')" using idx(3) by (simp add: eq)
  qed (fact idx(2) arc acct_slot [OF mid_invD(5) [OF inv] b st eq(1) acc, unfolded of_bool_has_handle])+
qed

text \<open>Two steps that change no slot: booking metrics, and flags.\<close>

lemma MI_cong:
  assumes inv: "MI X R E dr di dh dm dp s" and fr: "frame s s'" and st: "st s' = st s"
    and eq: "free s' = free s" "fenced s' = fenced s" "inactive s' = inactive s"
      "active_by_hash s' = active_by_hash s" "held_by_hash s' = held_by_hash s"
      "inners s' = inners s" "next_ptr s' = next_ptr s"
      "length (reset_on_release s') = length (reset_on_release s)"
    and acc: "acct dr' di' dh' dm' dp' s'"
  shows "MI X R E dr' di' dh' dm' dp' s'"
proof -
  note ok = core_invD [OF mid_invD(1) [OF inv]]
  have eq': "capacity s' = capacity s" "length (slots s') = length (slots s)"
    "effective_ceiling s' = effective_ceiling s"
    using fr frame_ceiling [OF fr] by (simp_all add: frame_def)
  have "core_inv iabs X R s'" by (rule core_invI) (use ok in \<open>simp_all add: st eq eq'\<close>)
  moreover have "arc_inv E s'"
    by (rule arc_inv_cong [OF mid_invD(4) [OF inv]]) (simp_all add: st eq eq')
  ultimately show ?thesis using mid_invD(2,3) [OF inv] acc by (intro mid_invI) (simp_all add: eq eq')
qed

lemma MI_flags:
  assumes "MI X R E dr di dh dm dp s" "slots_only s s'" "only_slots {} s s'" "st s' = st s"
  shows "MI X R E dr di dh dm dp s'"
proof (rule MI_cong [OF assms(1)])
  show "acct dr di dh dm dp s'"
    by (rule acct_cong [OF mid_invD(5) [OF assms(1)]])
      (use assms(2-) in \<open>simp_all add: slots_only_def only_slots_def frame_def\<close>)
qed (use assms in \<open>simp_all add: slots_only_def only_slots_def\<close>)

lemma MI_metrics:
  assumes inv: "MI X R E dr di dh dm dp s" and acc: "acct dr' di' dh' dm' dp' (metrics_update f s)"
  shows "MI X R E dr' di' dh' dm' dp' (metrics_update f s)"
  by (rule MI_cong [OF inv]) (use acc in \<open>simp_all add: frame_def\<close>)

lemma MI_presence:
  assumes inv: "MI X R E dr di dh dm dp s" and acc: "acct dr' di' dh' dm' dp' (presence_update f s)"
  shows "MI X R E dr' di' dh' dm' dp' (presence_update f s)"
  by (rule MI_cong [OF inv]) (use acc in \<open>simp_all add: frame_def\<close>)

lemmas slots_onlyD = slots_only_def [THEN iffD1]

text \<open>A popped reset slot becomes mutable; an extracted inactive slot becomes mutable.\<close>

lemma allocate_reset_step:
  assumes inv: "MI X R E dr di dh dm dp s" and b: "b \<in> R" and g: "gen_ok s b"
  shows "\<exists>s'. allocate_mutable_slot b s = Some (slot_block_size (slots s ! b), s')
    \<and> only_slots {b} s s' \<and> st s' = (st s)(b := Mutable) \<and> slots_only s s'
    \<and> MI X (R - {b}) E (dr - 1) di dh (dm + 1) dp s'"
proof -
  note core = mid_invD(1) [OF inv]
  note ok = core_invD [OF core]
  from core_bounds(2,3,5) [OF core b] have len: "b < length (slots s)" and st: "st s b = Reset"
    and cap: "b < capacity s" .
  from allocate_mutable_slot_fields [OF len ok(2) g] obtain s' where s':
    "allocate_mutable_slot b s = Some (slot_block_size (slots s ! b), s')"
    "only_slots {b} s s'" "st s' = (st s)(b := Mutable)" "slots_only s s'"
    by blast
  note so = slots_onlyD [OF s'(4)]
  have "arc_inv E s'"
    by (rule arc_inv_slot [OF mid_invD(4) [OF inv], where b = b and x = Mutable])
      (use so s'(2) in \<open>simp_all add: s'(3) st only_slots_def frame_def\<close>)
  from MI_slot [OF inv only_slots_frame [OF s'(2)] s'(3) cap _ _ _ _ _ _ _ _ _ this, of "R - {b}" X]
  have "MI X (R - {b}) E (dr - 1) di dh (dm + 1) dp s'"
    using so mid_invD(2,3) [OF inv] pools_ok_upd(2) [OF ok(4) b] index_ok_keep [OF ok(5)]
      active_ok_keep [OF ok(6)] held_ok_keep [OF ok(7)] by (simp add: st)
  with s' show ?thesis by blast
qed

lemma evict_to_mutable_step:
  assumes inv: "MI X R E dr di dh dm dp s" and b: "b \<in> X" "st s b = Inactive h k" and g: "gen_ok s b"
  shows "\<exists>s'. allocate_mutable_slot b s = Some (slot_block_size (slots s ! b), s')
    \<and> only_slots {b} s s' \<and> st s' = (st s)(b := Mutable) \<and> slots_only s s'
    \<and> MI (X - {b}) R E dr (di - 1) dh (dm + 1) (unbook dp [k]) s'"
proof -
  note core = mid_invD(1) [OF inv]
  note ok = core_invD [OF core]
  from core_bounds(1) [OF core, of b] ok(3) [of b] b have len: "b < length (slots s)" and cap: "b < capacity s"
    by simp_all
  from allocate_mutable_slot_fields [OF len ok(2) g] obtain s' where s':
    "allocate_mutable_slot b s = Some (slot_block_size (slots s ! b), s')"
    "only_slots {b} s s'" "st s' = (st s)(b := Mutable)" "slots_only s s'"
    by blast
  note so = slots_onlyD [OF s'(4)]
  have "arc_inv E s'"
    by (rule arc_inv_slot [OF mid_invD(4) [OF inv], where b = b and x = Mutable])
      (use so s'(2) in \<open>simp_all add: s'(3) b only_slots_def frame_def\<close>)
  from MI_slot [OF inv only_slots_frame [OF s'(2)] s'(3) cap _ _ _ _ _ _ _ _ _ this, of R "X - {b}"]
  have "MI (X - {b}) R E dr (di - 1) dh (dm + 1) (unbook dp [k]) s'"
    using so mid_invD(2,3) [OF inv] pools_ok_upd(1) [OF ok(4), of b Mutable] index_ok_leave [OF ok(5)]
      active_ok_keep [OF ok(6)] held_ok_keep [OF ok(7)] by (simp add: b)
  with s' show ?thesis by blast
qed

text \<open>Entries leave the index and come back.\<close>

lemma MI_index:
  assumes inv: "MI X R E dr di dh dm dp s"
    and idx: "index_ok (st s) X' (iabs i)" "iinv i" "room (length (slots s)) i"
  shows "MI X' R E dr di dh dm dp (s\<lparr>inactive := i\<rparr>)"
proof -
  note ok = core_invD [OF mid_invD(1) [OF inv]]
  have "core_inv iabs X' R (s\<lparr>inactive := i\<rparr>)"
    by (rule core_invI) (use ok idx in simp_all)
  moreover have "arc_inv E (s\<lparr>inactive := i\<rparr>)" by (rule arc_inv_cong [OF mid_invD(4) [OF inv]]) simp_all
  moreover have "acct dr di dh dm dp (s\<lparr>inactive := i\<rparr>)"
    by (rule acct_cong [OF mid_invD(5) [OF inv]]) simp_all
  ultimately show ?thesis using idx by (intro mid_invI) simp_all
qed

lemma index_ok_extracts:
  assumes "index_ok \<sigma> X m" "extracts m r m'"
  shows "index_ok \<sigma> (X \<union> snd ` set r) m'"
  using assms
proof (induction r arbitrary: X m)
  case (Cons hb r)
  obtain h b where hb: "hb = (h, b)" by (cases hb)
  from Cons.prems hb have "m h = Some b" "extracts (m(h := None)) r m'" by (auto simp: extracts_Cons)
  then have "index_ok \<sigma> (insert b X \<union> snd ` set r) m'"
    by (intro Cons.IH [OF index_ok_extract [OF Cons.prems(1)]])
  then show ?case by (simp add: hb)
qed simp

lemma extract_step:
  assumes inv: "MI X R E dr di dh dm dp s"
    and ex: "extracts (iabs (inactive s)) r (iabs i)" "iinv i" "\<forall>n. room n (inactive s) \<longrightarrow> room n i"
  shows "MI (X \<union> snd ` set r) R E dr di dh dm dp (s\<lparr>inactive := i\<rparr>)"
  by (rule MI_index [OF inv index_ok_extracts [OF core_invD(5) [OF mid_invD(1) [OF inv]] ex(1)] ex(2)])
    (use ex(3) mid_invD(3) [OF inv] in blast)

lemma insert_step:
  assumes inv: "MI X R E dr di dh dm dp s" and b: "b \<in> X" "st s b = Inactive h k"
  shows "\<exists>i. ix_insert ops h b (inactive s) = Some i \<and> iabs i = (iabs (inactive s))(h \<mapsto> b)
    \<and> MI (X - {b}) R E dr di dh dm dp (s\<lparr>inactive := i\<rparr>)"
proof -
  note core = mid_invD(1) [OF inv]
  note ok = core_invD [OF core]
  let ?m = "iabs (inactive s)"
  have h: "h \<notin> dom ?m"
  proof
    assume "h \<in> dom ?m"
    then obtain b' where "?m h = Some b'" by auto
    then have "inact_hash (st s b') = Some h" "b' \<notin> X" using index_okD(1) [OF ok(5)] by auto
    moreover have "b' = b" by (rule index_okD(2) [OF ok(5) calculation(1)]) (simp add: b)
    ultimately show False using b(1) by simp
  qed
  have r: "b \<notin> ran ?m"
    using index_okD(1) [OF ok(5)] b(1) by (auto simp: ran_def)
  have "b < capacity s" using ok(3) [of b] b(2) by simp
  then have "card (dom ?m) < length (slots s)" by (rule index_card_less [OF core]) (simp add: b)
  from insert [OF mid_invD(2,3) [OF inv] this h r] obtain i where
    i: "ix_insert ops h b (inactive s) = Some i" "iinv i" "iabs i = ?m(h \<mapsto> b)"
       "\<forall>n. room n (inactive s) \<longrightarrow> room n i" by blast
  have "index_ok (st s) (X - {b}) (iabs i)"
    using index_ok_insert [OF ok(5) b(1)] b(2) i(3) by simp
  from MI_index [OF inv this i(2)] i mid_invD(3) [OF inv] show ?thesis by blast
qed

text \<open>The entries of an extraction are inactive slots of the store.\<close>

lemma extracted_slots:
  assumes inv: "MI X R E dr di dh dm dp s" and ex: "extracts (iabs (inactive s)) r m'"
  shows "distinct (map snd r)" "(h, b) \<in> set r \<Longrightarrow> (\<exists>k. st s b = Inactive h k) \<and> b \<notin> X"
proof -
  note ok = core_invD [OF mid_invD(1) [OF inv]]
  have "inj_on (iabs (inactive s)) (dom (iabs (inactive s)))"
  proof (rule inj_onI)
    fix h h' assume "h \<in> dom (iabs (inactive s))" "iabs (inactive s) h = iabs (inactive s) h'"
    then obtain b where "iabs (inactive s) h = Some b" "iabs (inactive s) h' = Some b"
      by (metis domD)
    then show "h = h'" using index_okD(1) [OF ok(5)] by simp
  qed
  with ex show "distinct (map snd r)" by (rule extracts_distinct_ids)
  assume "(h, b) \<in> set r"
  with extracts_entries [OF ex] have "iabs (inactive s) h = Some b" by blast
  then show "(\<exists>k. st s b = Inactive h k) \<and> b \<notin> X"
    using index_okD(1) [OF ok(5)] inact_hash_Some by metis
qed

text \<open>A slot without pointer returns to the reset sets.\<close>

lemma reset_slot_step:
  assumes inv: "MI X R E dr di dh dm dp s"
    and b: "st s b \<noteq> Reset" "b \<in> X \<or> inact_hash (st s b) = None" "slot_weak (st s b) = None"
      "held_hash (st s b) = None"
  shows "\<exists>s'. reset_slot_locked b s = Some s' \<and> only_slots {b} s s' \<and> st s' = (st s)(b := Reset)
    \<and> inactive s' = inactive s \<and> active_by_hash s' = active_by_hash s \<and> held_by_hash s' = held_by_hash s
    \<and> inners s' = inners s \<and> next_ptr s' = next_ptr s \<and> reset_on_release s' = reset_on_release s
    \<and> MI (X - {b}) R E dr (di - of_bool (inact_hash (st s b) \<noteq> None)) dh
        (dm - of_bool (st s b = Mutable)) (unbook dp (handles_of (st s b))) s'"
proof -
  note core = mid_invD(1) [OF inv]
  note ok = core_invD [OF core]
  have len: "b < length (slots s)" and cap: "b < capacity s"
    using core_bounds(1) [OF core b(1)] ok(3) [OF b(1)] .
  have prim: "prim_hash (st s b) = None" using b(3) by (cases "st s b") simp_all
  have R: "b \<notin> R" using core_bounds(3) [OF core, of b] b(1) by blast
  from set_state_fields [OF len, of Reset] obtain s1 where s1: "set_state b Reset s = Some s1"
    "only_slots {b} s s1" "st s1 = (st s)(b := Reset)" "reset_on_release s1 = reset_on_release s"
    "slots_only s s1" by blast
  note so = slots_onlyD [OF s1(5)]
  have arc: "arc_inv E s1"
    by (rule arc_inv_slot [OF mid_invD(4) [OF inv], where b = b and x = Reset])
      (use so s1(2) in \<open>simp_all add: s1(3) b only_slots_def frame_def\<close>)
  have idx: "index_ok ((st s)(b := Reset)) (X - {b}) (iabs (inactive s))"
  proof (cases "b \<in> X")
    case True then show ?thesis by (rule index_ok_leave [OF ok(5)]) simp
  next
    case False
    with b(2) index_ok_keep [OF ok(5), of b Reset] show ?thesis by simp
  qed
  have "MI (X - {b}) (insert b R) E (dr + 1) (di - of_bool (inact_hash (st s b) \<noteq> None)) dh
        (dm - of_bool (st s b = Mutable)) (unbook dp (handles_of (st s b))) s1"
    using MI_slot [OF inv only_slots_frame [OF s1(2)] s1(3) cap _ _ _ _ _ _ _ _ _ arc, of "insert b R" "X - {b}"]
      so mid_invD(2,3) [OF inv] pools_ok_upd(6) [OF ok(4) b(1) cap] idx
      active_ok_keep [OF ok(6) prim] held_ok_keep [OF ok(7) b(4)] b(1,4) by simp
  from push_reset_step [OF this, of b] R
  have push: "MI (X - {b}) R E (dr + 1) (di - of_bool (inact_hash (st s b) \<noteq> None)) dh
        (dm - of_bool (st s b = Mutable)) (unbook dp (handles_of (st s b))) (push_reset_id_locked b s1)"
    and os: "only_slots {} s1 (push_reset_id_locked b s1)" by simp_all
  let ?s = "inc_reset_pool_size_by 1 (push_reset_id_locked b s1)"
  have "MI (X - {b}) R E dr (di - of_bool (inact_hash (st s b) \<noteq> None)) dh
        (dm - of_bool (st s b = Mutable)) (unbook dp (handles_of (st s b))) ?s"
    using push by (simp only: mid_inv_book)
  moreover have "only_slots {b} s ?s"
    using only_slots_trans [OF s1(2) os] by (simp add: only_slots_def frame_def metrics_defs)
  moreover have "st ?s = (st s)(b := Reset)" by (simp add: metrics_defs s1(3) push_reset_id_locked_def)
  ultimately show ?thesis
    using s1 so by (simp add: reset_slot_locked_def) (simp add: metrics_defs push_reset_id_locked_def)
qed

text \<open>Settling the presence of the evicted handles.\<close>

lemma MI_unbook:
  assumes "MI X R E dr di dh dm (unbook (\<lambda>_. 0) ks) s"
  shows "MI X R E dr di dh dm (\<lambda>_. 0) (fold mark_absent ks s)"
  by (rule MI_cong [OF assms]) (simp_all add: acct_unbook [OF mid_invD(5) [OF assms]])

end

end
