(* ===== verification/Block_Store_Alloc.thy ===== *)
theory Block_Store_Alloc
  imports Block_Store_Steps
begin

text \<open>
  Allocation and eviction: \<open>allocate_reset_blocks\<close>, \<open>allocate_atomic\<close>, \<open>drain_inactive_to_mutable\<close>,
  \<open>inactive_tail_to_mutable\<close>. Each returns without a panic and keeps the invariant; the atomic
  allocation commits exactly when enough slots below the ceiling are reset or inactive, and
  otherwise leaves every pool as it was.
\<close>

lemma stage_pairs_eq:
  "stage_pairs ceiling needed taken usable pairs =
    (taken @ pairs, usable @ take (needed - length usable) (filter (\<lambda>hb. snd hb < ceiling) pairs))"
proof (induction pairs arbitrary: taken usable)
  case (Cons hb pairs)
  obtain h b where hb: "hb = (h, b)" by (cases hb)
  show ?case
  proof (cases "length usable < needed")
    case True
    then obtain d where "needed - length usable = Suc d" by (metis Suc_diff_Suc)
    then have "needed - Suc (length usable) = d" by simp
    with Cons True \<open>needed - length usable = Suc d\<close> show ?thesis by (simp add: hb)
  qed (simp add: hb Cons)
qed simp

lemma commit_victims_eq_evict_pairs:
  "\<forall>(h, b) \<in> set pairs. b < ceiling \<longrightarrow> b \<in> U \<Longrightarrow>
    commit_victims ops ceiling U pairs s = evict_pairs ceiling pairs s"
  by (induction pairs arbitrary: s) auto

lemma extracts_all:
  assumes "extracts m r Map.empty"
  shows "m h = Some b \<longleftrightarrow> (h, b) \<in> set r"
  using extracts_rest [OF assms, where h = h and b = b] extracts_entries [OF assms, where h = h and b = b] by auto

text \<open>What an atomic allocation can draw on: reset and inactive slots below the ceiling.\<close>

definition eligible :: "('h, 'i) block_store \<Rightarrow> nat" where
  "eligible s = card (free s) + card {b. b < effective_ceiling s \<and> inact_hash (st s b) \<noteq> None}"

lemma extracted_below:
  assumes idx: "index_ok \<sigma> {} m" and ex: "extracts m r m'"
  shows "length (filter (\<lambda>hb. snd hb < c) r) \<le> card {b. b < c \<and> inact_hash (\<sigma> b) \<noteq> None}"
    and "m' = Map.empty \<Longrightarrow>
      length (filter (\<lambda>hb. snd hb < c) r) = card {b. b < c \<and> inact_hash (\<sigma> b) \<noteq> None}"
proof -
  let ?ids = "map snd (filter (\<lambda>hb. snd hb < c) r)" and ?B = "{b. b < c \<and> inact_hash (\<sigma> b) \<noteq> None}"
  have "inj_on m (dom m)"
  proof (rule inj_onI)
    fix h h' assume "h \<in> dom m" "m h = m h'"
    then obtain b where "m h = Some b" "m h' = Some b" by (metis domD)
    then show "h = h'" using index_okD(1) [OF idx] by simp
  qed
  with extracts_distinct_ids [OF ex] have "distinct (map snd r)" by blast
  then have "distinct ?ids" by (simp add: distinct_map_filter)
  then have len: "length (filter (\<lambda>hb. snd hb < c) r) = card (set ?ids)"
    by (metis distinct_card length_map)
  have sub: "set ?ids \<subseteq> ?B"
  proof
    fix b assume "b \<in> set ?ids"
    then obtain h where "(h, b) \<in> set r" "b < c" by auto
    then show "b \<in> ?B" using extracts_entries [OF ex] index_okD(1) [OF idx] by fastforce
  qed
  then show "length (filter (\<lambda>hb. snd hb < c) r) \<le> card ?B"
    unfolding len by (intro card_mono) auto
  show "length (filter (\<lambda>hb. snd hb < c) r) = card ?B" if empty: "m' = Map.empty"
  proof -
    have "b \<in> set ?ids" if "b \<in> ?B" for b
    proof -
      from that obtain h where "inact_hash (\<sigma> b) = Some h" "b < c" by auto
      then have "m h = Some b" using index_okD(1) [OF idx] by simp
      then have "(h, b) \<in> set r" using extracts_rest [OF ex, of h b] empty by auto
      with \<open>b < c\<close> show ?thesis by force
    qed
    with sub show ?thesis unfolding len by (intro arg_cong [where f = card]) blast
  qed
qed

text \<open>Some inactive slots have left: for a mutable guard below the ceiling, else to the reset sets.\<close>

definition evicted_to :: "nat \<Rightarrow> ('h, 'i) block_store \<Rightarrow> ('h, 'i) block_store \<Rightarrow> bool" where
  "evicted_to c s s' \<longleftrightarrow> (\<forall>b. st s' b = st s b
     \<or> inact_hash (st s b) \<noteq> None \<and> st s' b = (if b < c then Mutable else Reset))"

lemma evicted_to_trans: "evicted_to c s s' \<Longrightarrow> evicted_to c s' s'' \<Longrightarrow> evicted_to c s s''"
  unfolding evicted_to_def by (metis slot_hash_simps(8,9))

lemma evicted_to_keeps_guards:
  assumes "evicted_to c s s'"
  shows "keeps_guards {b. inact_hash (st s b) \<noteq> None \<and> st s' b = Mutable} s s'"
  unfolding keeps_guards_def
proof (intro allI impI)
  fix b assume b: "b \<notin> {b. inact_hash (st s b) \<noteq> None \<and> st s' b = Mutable}" "guarded (st s b) \<or> guarded (st s' b)"
  from assms consider "st s' b = st s b" | "inact_hash (st s b) \<noteq> None" "st s' b = (if b < c then Mutable else Reset)"
    unfolding evicted_to_def by blast
  then show "st s' b = st s b"
  proof cases
    case 2
    with b guardedD [of "st s b"] show ?thesis by (auto split: if_splits)
  qed
qed

lemma evicted_to_inactive:
  "evicted_to c s s' \<Longrightarrow> inact_hash (st s' b) \<noteq> None \<Longrightarrow> st s' b = st s b"
  unfolding evicted_to_def by (metis slot_hash_simps(8,9))

context inactive_index
begin

text \<open>The staging loop returns.\<close>

lemma collect_victims_returns:
  assumes "iinv i" "length usable \<le> needed"
  shows "\<exists>r i'. collect_victims ops ceiling needed taken usable i
      = Some (taken @ r, usable @ filter (\<lambda>hb. snd hb < ceiling) r, i')
    \<and> iinv i' \<and> extracts (iabs i) r (iabs i')
    \<and> length usable + length (filter (\<lambda>hb. snd hb < ceiling) r) \<le> needed
    \<and> (length usable + length (filter (\<lambda>hb. snd hb < ceiling) r) < needed \<longrightarrow> iabs i' = Map.empty)
    \<and> (\<forall>n. room n i \<longrightarrow> room n i')"
  using assms
proof (induction "card (dom (iabs i))" arbitrary: i taken usable rule: less_induct)
  case less
  show ?case
  proof (cases "length usable < needed")
    case False
    with less.prems show ?thesis
      by (subst collect_victims.simps) (auto intro!: exI [of _ "[]"])
  next
    case True
    from allocate [OF less.prems(1), of "needed - length usable"] obtain r i' where
      r: "ix_allocate ops (needed - length usable) i = Some (r, i')" "iinv i'"
         "extracts (iabs i) r (iabs i')" "length r = min (needed - length usable) (card (dom (iabs i)))"
         "\<forall>n. room n i \<longrightarrow> room n i'" by blast
    note fin = finite_abs [OF less.prems(1)]
    show ?thesis
    proof (cases "r = []")
      case empty: True
      with r(4) True have "card (dom (iabs i)) = 0" by auto
      with fin have "iabs i = Map.empty" by simp
      with empty r True less.prems show ?thesis
        by (subst collect_victims.simps) (auto intro!: exI [of _ "[]"])
    next
      case False
      let ?f = "filter (\<lambda>hb. snd hb < ceiling) r"
      have small: "length usable + length ?f \<le> needed"
        using r(4) True length_filter_le [of "\<lambda>hb. snd hb < ceiling" r] by linarith
      have stage: "stage_pairs ceiling needed taken usable r = (taken @ r, usable @ ?f)"
        using small by (simp add: stage_pairs_eq)
      have "card (dom (iabs i')) < card (dom (iabs i))"
        using extracts_card [OF r(3) fin] False by (cases r) auto
      from less.hyps [OF this r(2), of "usable @ ?f" "taken @ r"] small obtain r' i'' where
        r': "collect_victims ops ceiling needed (taken @ r) (usable @ ?f) i'
            = Some ((taken @ r) @ r', (usable @ ?f) @ filter (\<lambda>hb. snd hb < ceiling) r', i'')"
          "iinv i''" "extracts (iabs i') r' (iabs i'')"
          "length (usable @ ?f) + length (filter (\<lambda>hb. snd hb < ceiling) r') \<le> needed"
          "length (usable @ ?f) + length (filter (\<lambda>hb. snd hb < ceiling) r') < needed \<longrightarrow> iabs i'' = Map.empty"
          "\<forall>n. room n i' \<longrightarrow> room n i''" by auto
      have "extracts (iabs i) (r @ r') (iabs i'')"
        using r(3) r'(3) by (auto simp: extracts_append)
      moreover have "collect_victims ops ceiling needed taken usable i
          = Some (taken @ (r @ r'), usable @ filter (\<lambda>hb. snd hb < ceiling) (r @ r'), i'')"
        using True r(1) False stage r'(1) by (subst collect_victims.simps) simp
      ultimately show ?thesis
        using r(5) r' by (intro exI [of _ "r @ r'"] exI [of _ i'']) (auto simp: add.assoc)
    qed
  qed
qed

text \<open>Staging reset ids takes the lowest ones.\<close>

lemma stage_reset_ids_step:
  assumes "MI X R E dr di dh dm dp s" "n \<le> card (free s)"
  shows "\<exists>s'. stage_reset_ids n s = Some (take n (sorted_list_of_set (free s)), s')
    \<and> s' = s\<lparr>free := free s - set (take n (sorted_list_of_set (free s)))\<rparr>
    \<and> set (take n (sorted_list_of_set (free s))) \<subseteq> free s
    \<and> MI X (R \<union> set (take n (sorted_list_of_set (free s)))) E dr di dh dm dp s'"
  using assms
proof (induction n arbitrary: R s)
  case (Suc n)
  note fin = core_bounds(6) [OF mid_invD(1) [OF Suc.prems(1)]]
  from Suc.prems(2) have ne: "free s \<noteq> {}" by auto
  let ?b = "Min (free s)" and ?s = "s\<lparr>free := free s - {Min (free s)}\<rparr>"
  from pop_first_free_step [OF Suc.prems(1) ne] have
    pop: "pop_first_free s = Some (?b, ?s)" "?b \<in> free s"
    and inv: "MI X (insert ?b R) E dr di dh dm dp ?s" by auto
  let ?ids = "take n (sorted_list_of_set (free s - {?b}))"
  have ids: "take (Suc n) (sorted_list_of_set (free s)) = ?b # ?ids"
    using sorted_list_of_set_nonempty [OF fin ne] by simp
  have "n \<le> card (free ?s)" using Suc.prems(2) pop(2) fin by simp
  moreover have fs: "free ?s = free s - {?b}" by simp
  ultimately obtain s' where
    s': "stage_reset_ids n ?s = Some (?ids, s')" "s' = ?s\<lparr>free := free ?s - set ?ids\<rparr>"
      "set ?ids \<subseteq> free ?s" "MI X (insert ?b R \<union> set ?ids) E dr di dh dm dp s'"
    using Suc.IH [OF inv] unfolding fs by blast
  have "free s - {?b} - set ?ids = free s - set (?b # ?ids)" by auto
  then have "s' = s\<lparr>free := free s - set (?b # ?ids)\<rparr>"
    unfolding s'(2) fs by simp
  moreover have "set (?b # ?ids) \<subseteq> free s" using s'(3) pop(2) by auto
  moreover have "MI X (R \<union> set (?b # ?ids)) E dr di dh dm dp s'" using s'(4) by simp
  moreover have "stage_reset_ids (Suc n) s = Some (?b # ?ids, s')" using pop(1) s'(1) by simp
  ultimately show ?case unfolding ids by blast
qed simp

text \<open>One victim leaves the inactive pool.\<close>

lemma evict_slot_step:
  assumes inv: "MI X R E dr di dh dm dp s" and b: "b \<in> X" "st s b = Inactive h k" and g: "gen_ok s b"
  shows "\<exists>blocks s'. evict_slot ceiling b s = Some (blocks, k, s')
    \<and> map mb_block_id blocks = filter (\<lambda>b. b < ceiling) [b]
    \<and> only_slots {b} s s' \<and> inactive s' = inactive s
    \<and> active_by_hash s' = active_by_hash s \<and> held_by_hash s' = held_by_hash s
    \<and> st s' = (st s)(b := if b < ceiling then Mutable else Reset)
    \<and> MI (X - {b}) R E dr (di - 1) dh (dm + int (length blocks)) (unbook dp [k]) s'"
proof (cases "b < ceiling")
  case True
  from evict_to_mutable_step [OF inv b g] obtain s' where
    s': "allocate_mutable_slot b s = Some (slot_block_size (slots s ! b), s')" "only_slots {b} s s'"
      "st s' = (st s)(b := Mutable)" "slots_only s s'"
      "MI (X - {b}) R E dr (di - 1) dh (dm + 1) (unbook dp [k]) s'" by blast
  have "take_inactive_handle s b = Some k" by (rule take_inactive_handle_st [OF b(2)])
  with s' True show ?thesis by (auto simp: evict_slot_def slots_only_def)
next
  case False
  note core = mid_invD(1) [OF inv]
  have len: "b < length (slots s)" using core_bounds(1) [OF core, of b] b(2) by simp
  then have "b < length (reset_on_release s)" using core_invD(2) [OF core] by simp
  from set_reset_flag_fields [OF this, of "default_reset_on_release s"] obtain s1 where
    s1: "set_reset_flag b (default_reset_on_release s) s = Some s1" "only_slots {} s s1" "st s1 = st s"
      "slots_only s s1" by blast
  note inv1 = MI_flags [OF inv s1(4,2,3)]
  from reset_slot_step [OF inv1, of b] b s1(3) obtain s' where
    s': "reset_slot_locked b s1 = Some s'" "only_slots {b} s1 s'" "st s' = (st s1)(b := Reset)"
      "inactive s' = inactive s1" "active_by_hash s' = active_by_hash s1" "held_by_hash s' = held_by_hash s1"
      "MI (X - {b}) R E dr (di - 1) dh dm (unbook dp [k]) s'" by auto
  have "take_inactive_handle s b = Some k" by (rule take_inactive_handle_st [OF b(2)])
  moreover have "only_slots {b} s s'" using only_slots_trans [OF s1(2) s'(2)] by simp
  ultimately show ?thesis
    using s' s1 False by (auto simp: evict_slot_def slots_only_def)
qed

lemma evict_pairs_step:
  assumes "MI X R E dr di dh dm dp s" "distinct (map snd pairs)"
    "\<forall>(h, b) \<in> set pairs. b \<in> X \<and> (\<exists>k. st s b = Inactive h k) \<and> gen_ok s b"
  shows "\<exists>blocks handles s'. evict_pairs ceiling pairs s = Some (blocks, map fst pairs, handles, s')
    \<and> map mb_block_id blocks = filter (\<lambda>b. b < ceiling) (map snd pairs)
    \<and> only_slots (snd ` set pairs) s s' \<and> inactive s' = inactive s
    \<and> active_by_hash s' = active_by_hash s \<and> held_by_hash s' = held_by_hash s
    \<and> (\<forall>b \<in> snd ` set pairs. st s' b = (if b < ceiling then Mutable else Reset))
    \<and> MI (X - snd ` set pairs) R E dr (di - int (length pairs)) dh (dm + int (length blocks))
        (unbook dp handles) s'"
  using assms
proof (induction pairs arbitrary: X di dm dp s)
  case Nil then show ?case by simp
next
  case (Cons hb pairs)
  obtain h b where hb: "hb = (h, b)" by (cases hb)
  with Cons.prems(3) obtain k where b: "b \<in> X" "st s b = Inactive h k" "gen_ok s b" by auto
  from evict_slot_step [OF Cons.prems(1) b, of ceiling] obtain bl s1 where
    s1: "evict_slot ceiling b s = Some (bl, k, s1)" "map mb_block_id bl = filter (\<lambda>b. b < ceiling) [b]"
      "only_slots {b} s s1" "inactive s1 = inactive s"
      "active_by_hash s1 = active_by_hash s" "held_by_hash s1 = held_by_hash s"
      "st s1 = (st s)(b := if b < ceiling then Mutable else Reset)"
    and inv1: "MI (X - {b}) R E dr (di - 1) dh (dm + int (length bl)) (unbook dp [k]) s1"
    by blast
  have rest: "\<forall>(h', b') \<in> set pairs. b' \<in> X - {b} \<and> (\<exists>k. st s1 b' = Inactive h' k) \<and> gen_ok s1 b'"
  proof (clarify, intro conjI)
    fix h' b' assume in_pairs: "(h', b') \<in> set pairs"
    then have ne: "b' \<noteq> b" using Cons.prems(2) by (force simp: hb)
    with in_pairs Cons.prems(3) show "b' \<in> X - {b}" "\<exists>k. st s1 b' = Inactive h' k" "gen_ok s1 b'"
      using only_slots_counters(1) [OF s1(3), of b'] by (auto simp: hb s1(7))
  qed
  from Cons.IH [OF inv1 _ rest] Cons.prems(2) obtain bls hs s' where
    s': "evict_pairs ceiling pairs s1 = Some (bls, map fst pairs, hs, s')"
      "map mb_block_id bls = filter (\<lambda>b. b < ceiling) (map snd pairs)"
      "only_slots (snd ` set pairs) s1 s'" "inactive s' = inactive s1"
      "active_by_hash s' = active_by_hash s1" "held_by_hash s' = held_by_hash s1"
      "\<forall>b \<in> snd ` set pairs. st s' b = (if b < ceiling then Mutable else Reset)"
    and inv': "MI (X - {b} - snd ` set pairs) R E dr (di - 1 - int (length pairs)) dh
        (dm + int (length bl) + int (length bls)) (unbook dp (k # hs)) s'"
    by (auto simp: hb)
  have "evict_pairs ceiling (hb # pairs) s = Some (bl @ bls, map fst (hb # pairs), k # hs, s')"
    using s1(1) s'(1) by (simp add: hb)
  moreover have "only_slots (snd ` set (hb # pairs)) s s'"
    using only_slots_trans [OF s1(3) s'(3)] by (simp add: hb)
  moreover have "st s' b = (if b < ceiling then Mutable else Reset)"
    using only_slots_st [OF s'(3), of b] Cons.prems(2) s1(7) by (force simp: hb)
  moreover have "MI (X - snd ` set (hb # pairs)) R E dr (di - int (length (hb # pairs))) dh
      (dm + int (length (bl @ bls))) (unbook dp (k # hs)) s'"
  proof -
    have "X - snd ` set (hb # pairs) = X - {b} - snd ` set pairs" by (auto simp: hb)
    then show ?thesis using inv' by (simp add: add.assoc diff_diff_eq)
  qed
  ultimately show ?case
    using s1(2) s'(2,4,5,6,7) s1(4,5,6)
    by (intro exI [of _ "bl @ bls"] exI [of _ "k # hs"] exI [of _ s']) (auto simp: hb)
qed

lemma commit_reset_ids_step:
  assumes "MI X R E dr di dh dm dp s" "distinct ids" "set ids \<subseteq> R" "\<forall>b \<in> set ids. gen_ok s b"
  shows "\<exists>blocks s'. commit_reset_ids ids s = Some (blocks, s') \<and> map mb_block_id blocks = ids
    \<and> only_slots (set ids) s s' \<and> inactive s' = inactive s \<and> (\<forall>b \<in> set ids. st s' b = Mutable)
    \<and> active_by_hash s' = active_by_hash s \<and> held_by_hash s' = held_by_hash s
    \<and> MI X (R - set ids) E (dr - int (length ids)) di dh (dm + int (length ids)) dp s'"
  using assms
proof (induction ids arbitrary: R dr dm s)
  case (Cons b ids)
  from allocate_reset_step [OF Cons.prems(1), of b] Cons.prems(3,4) obtain s1 where
    s1: "allocate_mutable_slot b s = Some (slot_block_size (slots s ! b), s1)" "only_slots {b} s s1"
      "st s1 = (st s)(b := Mutable)" "slots_only s s1"
    and inv1: "MI X (R - {b}) E (dr - 1) di dh (dm + 1) dp s1" by auto
  have "\<forall>b' \<in> set ids. gen_ok s1 b'"
    using Cons.prems(2,4) only_slots_counters(1) [OF s1(2)]
    by (metis distinct.simps(2) list.set_intros(2) singletonD)
  moreover have "set ids \<subseteq> R - {b}" using Cons.prems(2,3) by auto
  ultimately obtain bls s' where
    s': "commit_reset_ids ids s1 = Some (bls, s')" "map mb_block_id bls = ids"
      "only_slots (set ids) s1 s'" "inactive s' = inactive s1" "\<forall>b \<in> set ids. st s' b = Mutable"
      "active_by_hash s' = active_by_hash s1" "held_by_hash s' = held_by_hash s1"
    and inv': "MI X (R - {b} - set ids) E (dr - 1 - int (length ids)) di dh (dm + 1 + int (length ids)) dp s'"
    using Cons.IH [OF inv1] Cons.prems(2) by auto
  let ?mb = "\<lparr>mb_block_id = b, mb_block_size = slot_block_size (slots s ! b)\<rparr>"
  have "commit_reset_ids (b # ids) s = Some (?mb # bls, s')" using s1(1) s'(1) by simp
  moreover have "only_slots (set (b # ids)) s s'" using only_slots_trans [OF s1(2) s'(3)] by simp
  moreover have "st s' b = Mutable"
    using only_slots_st [OF s'(3), of b] Cons.prems(2) s1(3) by simp
  moreover have "MI X (R - set (b # ids)) E (dr - int (length (b # ids))) di dh (dm + int (length (b # ids))) dp s'"
  proof -
    have "R - set (b # ids) = R - {b} - set ids" by auto
    then show ?thesis using inv' by (simp add: algebra_simps)
  qed
  ultimately show ?case
    using s'(2,4-7) s1(4) by (intro exI [of _ "?mb # bls"] exI [of _ s']) (auto simp: slots_only_def)
qed simp

lemma reinsert_pairs_step:
  assumes "MI X R E dr di dh dm dp s" "distinct (map snd pairs)"
    "\<forall>(h, b) \<in> set pairs. b \<in> X \<and> (\<exists>k. st s b = Inactive h k)"
  shows "\<exists>i. reinsert_pairs ops pairs s = Some (s\<lparr>inactive := i\<rparr>)
    \<and> MI (X - snd ` set pairs) R E dr di dh dm dp (s\<lparr>inactive := i\<rparr>)"
  using assms
proof (induction pairs arbitrary: X s)
  case Nil
  then show ?case by (intro exI [of _ "inactive s"]) simp
next
  case (Cons hb pairs)
  obtain h b where hb: "hb = (h, b)" by (cases hb)
  with Cons.prems(3) obtain k where b: "b \<in> X" "st s b = Inactive h k" by auto
  from insert_step [OF Cons.prems(1) b] obtain i where
    i: "ix_insert ops h b (inactive s) = Some i"
    and inv1: "MI (X - {b}) R E dr di dh dm dp (s\<lparr>inactive := i\<rparr>)" by blast
  have "\<forall>(h', b') \<in> set pairs. b' \<in> X - {b} \<and> (\<exists>k. st (s\<lparr>inactive := i\<rparr>) b' = Inactive h' k)"
  proof (clarify, intro conjI)
    fix h' b' assume in_pairs: "(h', b') \<in> set pairs"
    then have "b' \<noteq> b" using Cons.prems(2) by (force simp: hb)
    with in_pairs Cons.prems(3) show "b' \<in> X - {b}" "\<exists>k. st (s\<lparr>inactive := i\<rparr>) b' = Inactive h' k"
      by (auto simp: hb)
  qed
  from Cons.IH [OF inv1 _ this] Cons.prems(2) obtain i' where
    i': "reinsert_pairs ops pairs (s\<lparr>inactive := i\<rparr>) = Some (s\<lparr>inactive := i'\<rparr>)"
    and inv': "MI (X - {b} - snd ` set pairs) R E dr di dh dm dp (s\<lparr>inactive := i'\<rparr>)"
    by (auto simp: hb)
  have "X - snd ` set (hb # pairs) = X - {b} - snd ` set pairs" by (auto simp: hb)
  with i i' inv' show ?case by (intro exI [of _ i']) (simp add: hb)
qed

lemma push_reset_ids_step:
  assumes "MI X R E dr di dh dm dp s" "set ids \<subseteq> R" "distinct ids"
  shows "MI X (R - set ids) E dr di dh dm dp (fold push_reset_id_locked ids s)
    \<and> only_slots {} s (fold push_reset_id_locked ids s)
    \<and> slots (fold push_reset_id_locked ids s) = slots s
    \<and> inactive (fold push_reset_id_locked ids s) = inactive s"
  using assms
proof (induction ids arbitrary: R s)
  case (Cons b ids)
  let ?s = "push_reset_id_locked b s"
  have inv: "MI X (R - {b}) E dr di dh dm dp ?s" and os: "only_slots {} s ?s"
    using push_reset_step [OF Cons.prems(1), of b] Cons.prems(2) by simp_all
  have eq: "slots ?s = slots s" "inactive ?s = inactive s" by (simp_all add: push_reset_id_locked_def)
  have "R - set (b # ids) = R - {b} - set ids" by auto
  moreover have "set ids \<subseteq> R - {b}" "distinct ids" using Cons.prems(2,3) by auto
  ultimately show ?case
    using Cons.IH [OF inv] only_slots_trans [OF os, of "{}"] eq by simp
qed simp

abbreviation SI where "SI \<equiv> store_inv iinv iabs room"

lemma SI_iff_MI: "SI E dm s \<longleftrightarrow> MI {} {} E 0 0 0 dm (\<lambda>_. 0) s"
  by (simp add: store_inv_def)

lemma SI_free:
  assumes "SI E dm s"
  shows "free s = {b. b < effective_ceiling s \<and> st s b = Reset}"
    "fenced s = {b. effective_ceiling s \<le> b \<and> b < capacity s \<and> st s b = Reset}"
    "iabs (inactive s) h = Some b \<longleftrightarrow> inact_hash (st s b) = Some h"
    "active_by_hash s h = Some b \<longleftrightarrow> prim_hash (st s b) = Some h"
    "held_by_hash s h = Some b \<longleftrightarrow> held_hash (st s b) = Some h"
proof -
  note ok = core_invD [OF mid_invD(1) [OF assms [unfolded SI_iff_MI]]]
  show "free s = {b. b < effective_ceiling s \<and> st s b = Reset}"
    "fenced s = {b. effective_ceiling s \<le> b \<and> b < capacity s \<and> st s b = Reset}"
    using ok(4) by (simp_all add: pools_ok_def)
  show "iabs (inactive s) h = Some b \<longleftrightarrow> inact_hash (st s b) = Some h" using index_okD(1) [OF ok(5)] by simp
  show "active_by_hash s h = Some b \<longleftrightarrow> prim_hash (st s b) = Some h" by (rule active_okD1 [OF ok(6)])
  show "held_by_hash s h = Some b \<longleftrightarrow> held_hash (st s b) = Some h" using ok(7) by (simp add: held_ok_def)
qed

text \<open>The state after staging, for both outcomes.\<close>

lemma stage_step:
  assumes inv: "SI E dm s" and n: "n \<noteq> 0" "n \<le> card (free s) + ix_len ops (inactive s)"
  defines "from_reset \<equiv> min n (card (free s))"
  defines "ids \<equiv> take from_reset (sorted_list_of_set (free s))"
  shows "\<exists>r i. stage_reset_ids from_reset s = Some (ids, s\<lparr>free := free s - set ids\<rparr>)
    \<and> collect_victims ops (effective_ceiling s) (n - from_reset) [] [] (inactive s)
        = Some (r, filter (\<lambda>hb. snd hb < effective_ceiling s) r, i)
    \<and> length ids = from_reset \<and> distinct ids \<and> set ids \<subseteq> free s
    \<and> extracts (iabs (inactive s)) r (iabs i)
    \<and> (length (filter (\<lambda>hb. snd hb < effective_ceiling s) r) = n - from_reset \<longleftrightarrow> n \<le> eligible s)
    \<and> MI (snd ` set r) (set ids) E 0 0 0 dm (\<lambda>_. 0) (s\<lparr>free := free s - set ids, inactive := i\<rparr>)"
proof -
  note MI0 = inv [unfolded SI_iff_MI]
  note core = mid_invD(1) [OF MI0]
  note ok = core_invD [OF core]
  let ?c = "effective_ceiling s" and ?f = "filter (\<lambda>hb. snd hb < effective_ceiling s)"
  have fin: "finite (free s)" by (rule core_bounds(6) [OF core])
  have len: "length ids = from_reset" using fin by (simp add: ids_def from_reset_def)
  have dist: "distinct ids" by (simp add: ids_def)
  from stage_reset_ids_step [OF MI0, of from_reset] have
    st1: "stage_reset_ids from_reset s = Some (ids, s\<lparr>free := free s - set ids\<rparr>)" "set ids \<subseteq> free s"
    and inv1: "MI {} (set ids) E 0 0 0 dm (\<lambda>_. 0) (s\<lparr>free := free s - set ids\<rparr>)"
    by (auto simp: ids_def from_reset_def)
  from collect_victims_returns [OF mid_invD(2) [OF MI0], of "[]" "n - from_reset" ?c "[]"] obtain r i where
    r: "collect_victims ops ?c (n - from_reset) [] [] (inactive s) = Some (r, ?f r, i)" "iinv i"
       "extracts (iabs (inactive s)) r (iabs i)" "length (?f r) \<le> n - from_reset"
       "length (?f r) < n - from_reset \<longrightarrow> iabs i = Map.empty" "\<forall>n. room n (inactive s) \<longrightarrow> room n i"
    by auto
  let ?B = "{b. b < ?c \<and> inact_hash (st s b) \<noteq> None}"
  note below = extracted_below [OF ok(5) r(3), of ?c]
  have "length (?f r) = n - from_reset \<longleftrightarrow> n \<le> eligible s"
  proof
    assume "length (?f r) = n - from_reset"
    with below(1) have "n - from_reset \<le> card ?B" by simp
    then show "n \<le> eligible s" unfolding eligible_def from_reset_def by linarith
  next
    assume "n \<le> eligible s"
    then have "n - from_reset \<le> card ?B" unfolding eligible_def from_reset_def by linarith
    with r(4,5) below(2) show "length (?f r) = n - from_reset" by linarith
  qed
  moreover have "MI ({} \<union> snd ` set r) (set ids) E 0 0 0 dm (\<lambda>_. 0) (s\<lparr>free := free s - set ids, inactive := i\<rparr>)"
    using extract_step [OF inv1, of r i] r by simp
  ultimately show ?thesis using st1 r len dist by auto
qed

lemma eligible_le:
  assumes inv: "SI E dm s"
  shows "eligible s \<le> card (free s) + ix_len ops (inactive s)"
proof -
  note iinv = mid_invD(2) [OF inv [unfolded SI_iff_MI]]
  let ?m = "iabs (inactive s)" and ?B = "{b. b < effective_ceiling s \<and> inact_hash (st s b) \<noteq> None}"
  have "?B \<subseteq> (\<lambda>h. the (?m h)) ` dom ?m"
    using SI_free(3) [OF inv] by (force simp: image_iff dom_def)
  then have "card ?B \<le> card (dom ?m)"
    using finite_abs [OF iinv] by (meson card_image_le card_mono finite_imageI order_trans)
  then show ?thesis using len [OF iinv] by (simp add: eligible_def)
qed

text \<open>The commit: the staged reset ids and the extracted victims leave their pools.\<close>

lemma commit_phase:
  assumes inv: "SI E dm s" and gens: "\<forall>b < length (slots s). gen_ok s b"
    and ids: "distinct ids" "set ids \<subseteq> free s" and r: "extracts (iabs (inactive s)) r (iabs i)"
    and inv1: "MI (snd ` set r) (set ids) E 0 0 0 dm (\<lambda>_. 0) (s\<lparr>free := free s - set ids, inactive := i\<rparr>)"
  shows "\<exists>rb s2 eb hs s3. commit_reset_ids ids (s\<lparr>free := free s - set ids, inactive := i\<rparr>) = Some (rb, s2)
    \<and> evict_pairs (effective_ceiling s) r s2 = Some (eb, map fst r, hs, s3)
    \<and> map mb_block_id (rb @ eb) = ids @ filter (\<lambda>b. b < effective_ceiling s) (map snd r)
    \<and> length rb = length ids \<and> distinct (map mb_block_id (rb @ eb))
    \<and> (\<forall>b \<in> mb_block_id ` set (rb @ eb). b < effective_ceiling s \<and> st s3 b = Mutable
         \<and> (st s b = Reset \<or> (\<exists>h \<in> fst ` set r. inact_hash (st s b) = Some h)))
    \<and> keeps_guards (mb_block_id ` set (rb @ eb)) s s3 \<and> frame s s3 \<and> inactive s3 = i \<and> active_by_hash s3 = active_by_hash s \<and> held_by_hash s3 = held_by_hash s
    \<and> MI {} {} E (0 - int (length ids)) (0 - int (length r)) 0 (dm + int (length rb) + int (length eb))
        (unbook (\<lambda>_. 0) hs) s3"
proof -
  let ?c = "effective_ceiling s" and ?s1 = "s\<lparr>free := free s - set ids, inactive := i\<rparr>"
  note ok = core_invD [OF mid_invD(1) [OF inv [unfolded SI_iff_MI]]]
  have id: "st s b = Reset" "b < length (slots s)" "b < ?c" if "b \<in> set ids" for b
    using that ids(2) SI_free(1) [OF inv] effective_ceiling_le [of s] ok(1) by fastforce+
  from commit_reset_ids_step [OF inv1 ids(1)] gens id obtain rb s2 where
    s2: "commit_reset_ids ids ?s1 = Some (rb, s2)" "map mb_block_id rb = ids"
      "only_slots (set ids) ?s1 s2" "inactive s2 = i" "\<forall>b \<in> set ids. st s2 b = Mutable"
      "active_by_hash s2 = active_by_hash s" "held_by_hash s2 = held_by_hash s"
    and inv2: "MI (snd ` set r) {} E (0 - int (length ids)) 0 0 (dm + int (length ids)) (\<lambda>_. 0) s2"
    by (auto simp: gen_ok_def)
  note ex = extracted_slots [OF inv [unfolded SI_iff_MI] r]
  have disj: "b \<notin> set ids" if "(h, b) \<in> set r" for h b using ex(2) [OF that] id(1) by fastforce
  have pairs: "\<forall>(h, b) \<in> set r. b \<in> snd ` set r \<and> (\<exists>k. st s2 b = Inactive h k) \<and> gen_ok s2 b"
  proof (clarify, intro conjI)
    fix h b assume hb: "(h, b) \<in> set r"
    then show "b \<in> snd ` set r" by force
    from ex(2) [OF hb] obtain k where k: "st s b = Inactive h k" by blast
    with only_slots_st [OF s2(3) disj [OF hb]] show "\<exists>k. st s2 b = Inactive h k" by simp
    show "gen_ok s2 b"
      using only_slots_counters(1) [OF s2(3) disj [OF hb]] gens st_index(1) [OF k] by (simp add: gen_ok_def)
  qed
  from evict_pairs_step [OF inv2 ex(1) pairs, of ?c] obtain eb hs s3 where
    s3: "evict_pairs ?c r s2 = Some (eb, map fst r, hs, s3)"
      "map mb_block_id eb = filter (\<lambda>b. b < ?c) (map snd r)" "only_slots (snd ` set r) s2 s3"
      "inactive s3 = inactive s2" "active_by_hash s3 = active_by_hash s2" "held_by_hash s3 = held_by_hash s2"
      "\<forall>b \<in> snd ` set r. st s3 b = (if b < ?c then Mutable else Reset)"
    and inv3: "MI (snd ` set r - snd ` set r) {} E (0 - int (length ids)) (0 - int (length r)) 0
        (dm + int (length ids) + int (length eb)) (unbook (\<lambda>_. 0) hs) s3"
    by blast
  have len: "length rb = length ids" using arg_cong [OF s2(2), of length] by simp
  have dist: "distinct (map mb_block_id (rb @ eb))"
    using ex(1) ids(1) disj by (auto simp: s2(2) s3(2))
  have "b < ?c \<and> st s3 b = Mutable \<and> (st s b = Reset \<or> (\<exists>h \<in> fst ` set r. inact_hash (st s b) = Some h))"
    if "b \<in> mb_block_id ` set (rb @ eb)" for b
  proof (cases "b \<in> set ids")
    case True
    then have "b \<notin> snd ` set r" using disj by auto
    with True id s2(5) only_slots_st [OF s3(3)] show ?thesis by simp
  next
    case False
    with that s2(2) s3(2) have "b \<in> set (filter (\<lambda>b. b < ?c) (map snd r))"
      by (metis Un_iff image_Un list.set_map set_append)
    then obtain h where h: "(h, b) \<in> set r" "b < ?c" by auto
    with ex(2) [OF h(1)] s3(7) show ?thesis by force
  qed
  moreover have "keeps_guards (mb_block_id ` set (rb @ eb)) s s3"
  proof -
    have "keeps_guards (set ids) ?s1 s2" by (rule only_slots_keeps_guards [OF s2(3)]) simp
    then have "keeps_guards (set ids) s s2" by (rule keeps_guards_cong) simp_all
    moreover have "keeps_guards (set (filter (\<lambda>b. b < ?c) (map snd r))) s2 s3"
    proof (rule only_slots_keeps_guards [OF s3(3)])
      fix b assume b: "b \<in> snd ` set r" "b \<notin> set (filter (\<lambda>b. b < ?c) (map snd r))"
      from b(1) obtain h where h: "(h, b) \<in> set r" by auto
      with pairs have "\<not> guarded (st s2 b)" by auto
      moreover have "st s3 b = Reset" using b s3(7) by auto
      ultimately show "\<not> guarded (st s2 b) \<and> \<not> guarded (st s3 b)" by simp
    qed
    moreover have "mb_block_id ` set (rb @ eb) = set ids \<union> set (filter (\<lambda>b. b < ?c) (map snd r))"
      using arg_cong [OF s2(2), of set] arg_cong [OF s3(2), of set] by (simp add: image_Un)
    ultimately show ?thesis by (simp only: keeps_guards_trans)
  qed
  moreover have "frame s s3"
    using frame_trans [OF only_slots_frame [OF s2(3)] only_slots_frame [OF s3(3)]] by (simp add: frame_def)
  ultimately show ?thesis
    using s2 s3 inv3 len dist by (intro exI [of _ rb] exI [of _ s2] exI [of _ eb] exI [of _ hs] exI [of _ s3]) simp
qed

lemma extracts_zip:
  assumes "extracts m r m'"
  shows "zip (map fst r) (map (the \<circ> m) (map fst r)) = r"
proof -
  have "map (the \<circ> m) (map fst r) = map snd r" using extracts_entries [OF assms] by (auto intro!: map_cong)
  then show ?thesis by (simp only: zip_map_fst_snd)
qed

lemma allocate_atomic_commits:
  assumes inv: "SI E dm s" and gens: "\<forall>b < length (slots s). gen_ok s b"
    and n: "n \<noteq> 0" "n \<le> eligible s"
  shows "\<exists>blocks evicted s'. allocate_atomic ops n s = Some (Some (blocks, evicted), s')
    \<and> SI E dm s' \<and> frame s s' \<and> length blocks = n \<and> distinct (map mb_block_id blocks)
    \<and> keeps_guards (mb_block_id ` set blocks) s s'
    \<and> take (min n (card (free s))) (map mb_block_id blocks) = take n (sorted_list_of_set (free s))
    \<and> (\<forall>b \<in> mb_block_id ` set blocks. b < effective_ceiling s \<and> st s' b = Mutable
         \<and> (st s b = Reset \<or> (\<exists>h \<in> set evicted. inact_hash (st s b) = Some h)))
    \<and> extracts (iabs (inactive s)) (zip evicted (map (the \<circ> iabs (inactive s)) evicted)) (iabs (inactive s'))
    \<and> active_by_hash s' = active_by_hash s \<and> held_by_hash s' = held_by_hash s"
proof -
  let ?c = "effective_ceiling s" and ?fr = "min n (card (free s))"
  let ?ids = "take ?fr (sorted_list_of_set (free s))"
  let ?below = "\<lambda>hb :: 'a \<times> block_id. snd hb < ?c"
  have enough: "n \<le> card (free s) + ix_len ops (inactive s)" using eligible_le [OF inv] n(2) by linarith
  from stage_step [OF inv n(1) this] n(2) obtain r i where
    stage: "stage_reset_ids ?fr s = Some (?ids, s\<lparr>free := free s - set ?ids\<rparr>)"
      "collect_victims ops ?c (n - ?fr) [] [] (inactive s) = Some (r, filter ?below r, i)"
      "length ?ids = ?fr" "distinct ?ids" "set ?ids \<subseteq> free s"
      "extracts (iabs (inactive s)) r (iabs i)" "length (filter ?below r) = n - ?fr"
    and inv1: "MI (snd ` set r) (set ?ids) E 0 0 0 dm (\<lambda>_. 0) (s\<lparr>free := free s - set ?ids, inactive := i\<rparr>)"
    by blast
  from commit_phase [OF inv gens stage(4,5,6) inv1] obtain rb s2 eb hs s3 where
    c: "commit_reset_ids ?ids (s\<lparr>free := free s - set ?ids, inactive := i\<rparr>) = Some (rb, s2)"
      "evict_pairs ?c r s2 = Some (eb, map fst r, hs, s3)"
      "map mb_block_id (rb @ eb) = ?ids @ filter (\<lambda>b. b < ?c) (map snd r)" "length rb = length ?ids"
      "distinct (map mb_block_id (rb @ eb))"
      "\<forall>b \<in> mb_block_id ` set (rb @ eb). b < ?c \<and> st s3 b = Mutable
         \<and> (st s b = Reset \<or> (\<exists>h \<in> fst ` set r. inact_hash (st s b) = Some h))"
      "keeps_guards (mb_block_id ` set (rb @ eb)) s s3" "frame s s3" "inactive s3 = i" "active_by_hash s3 = active_by_hash s" "held_by_hash s3 = held_by_hash s"
    and inv3: "MI {} {} E (0 - int (length ?ids)) (0 - int (length r)) 0
        (dm + int (length rb) + int (length eb)) (unbook (\<lambda>_. 0) hs) s3" by blast
  have lens: "length rb = ?fr" "length (rb @ eb) = n"
    using arg_cong [OF c(3), of length] c(4) stage(3,7) by (simp_all add: filter_map comp_def)
  let ?s4 = "inc_allocations n ?fr (inc_evictions (length r) (inc_inflight_mutable_by (int n)
    (dec_inactive_pool_size_by (int (length r)) (dec_reset_pool_size_by (int ?fr) s3))))"
  have dm': "dm + int n = dm + int (length rb) + int (length eb)" using lens by simp
  have "MI {} {} E 0 0 0 dm (unbook (\<lambda>_. 0) hs) ?s4"
    unfolding mid_inv_book dm' using inv3 stage(3) by simp
  from MI_unbook [OF this] have "SI E dm (fold mark_absent hs ?s4)" by (simp add: SI_iff_MI)
  moreover have "allocate_atomic ops n s = Some (Some (rb @ eb, map fst r), fold mark_absent hs ?s4)"
  proof -
    have "\<forall>(h, b) \<in> set r. b < ?c \<longrightarrow> b \<in> snd ` set (filter ?below r)" by force
    note cv = commit_victims_eq_evict_pairs [OF this, of ops s2]
    from enough have "\<not> card (free s) + ix_len ops (inactive s) < n" by simp
    with n(1) show ?thesis
      unfolding allocate_atomic_def Let_def using stage(1,2,7) c(1,2) cv by simp
  qed
  moreover have "take ?fr (map mb_block_id (rb @ eb)) = take n (sorted_list_of_set (free s))"
    using stage(3) by (simp only: c(3)) (simp add: min_def)
  moreover have "keeps_guards (mb_block_id ` set (rb @ eb)) s (fold mark_absent hs ?s4)"
    by (rule keeps_guards_cong [OF c(7)]) (simp_all add: metrics_defs)
  ultimately show ?thesis
    using stage(6) c(5,6,8-) lens(2) extracts_zip [OF stage(6)]
    by (intro exI [of _ "rb @ eb"] exI [of _ "map fst r"] exI [of _ "fold mark_absent hs ?s4"])
       (simp add: metrics_defs)
qed

text \<open>Two states of a store with the same slots have the same pools.\<close>

lemma SI_same_slots:
  assumes "SI E dm s" "SI E' dm' s'" "frame s s'" "st s' = st s"
  shows "free s' = free s" "fenced s' = fenced s" "iabs (inactive s') = iabs (inactive s)"
    "active_by_hash s' = active_by_hash s" "held_by_hash s' = held_by_hash s"
proof -
  note eq = frame_ceiling [OF assms(3)] assms(3) [unfolded frame_def] assms(4)
  show "free s' = free s" "fenced s' = fenced s"
    using SI_free(1,2) [OF assms(1)] SI_free(1,2) [OF assms(2)] eq by simp_all
  show "iabs (inactive s') = iabs (inactive s)"
    by (rule map_eqI) (use SI_free(3) [OF assms(1)] SI_free(3) [OF assms(2)] eq(3) in simp)
  show "active_by_hash s' = active_by_hash s"
    by (rule map_eqI) (use SI_free(4) [OF assms(1)] SI_free(4) [OF assms(2)] eq(3) in simp)
  show "held_by_hash s' = held_by_hash s"
    by (rule map_eqI) (use SI_free(5) [OF assms(1)] SI_free(5) [OF assms(2)] eq(3) in simp)
qed

lemma allocate_atomic_refuses:
  assumes inv: "SI E dm s" and n: "eligible s < n"
  shows "\<exists>s'. allocate_atomic ops n s = Some (None, s') \<and> SI E dm s' \<and> frame s s' \<and> slots s' = slots s"
proof (cases "n \<le> card (free s) + ix_len ops (inactive s)")
  case False
  with inv show ?thesis by (intro exI [of _ s]) (simp add: allocate_atomic_def)
next
  case True
  let ?c = "effective_ceiling s" and ?fr = "min n (card (free s))"
  let ?ids = "take ?fr (sorted_list_of_set (free s))"
  let ?below = "\<lambda>hb :: 'a \<times> block_id. snd hb < ?c"
  from stage_step [OF inv _ True] n obtain r i where
    stage: "stage_reset_ids ?fr s = Some (?ids, s\<lparr>free := free s - set ?ids\<rparr>)"
      "collect_victims ops ?c (n - ?fr) [] [] (inactive s) = Some (r, filter ?below r, i)"
      "distinct ?ids" "extracts (iabs (inactive s)) r (iabs i)" "length (filter ?below r) \<noteq> n - ?fr"
    and inv1: "MI (snd ` set r) (set ?ids) E 0 0 0 dm (\<lambda>_. 0) (s\<lparr>free := free s - set ?ids, inactive := i\<rparr>)"
    by (metis bot_nat_0.extremum_strict leD)
  let ?s1 = "s\<lparr>free := free s - set ?ids, inactive := i\<rparr>"
  note ex = extracted_slots [OF inv [unfolded SI_iff_MI] stage(4)]
  have "\<forall>(h, b) \<in> set r. b \<in> snd ` set r \<and> (\<exists>k. st ?s1 b = Inactive h k)"
    using ex(2) by force
  from reinsert_pairs_step [OF inv1 ex(1) this] obtain j where
    j: "reinsert_pairs ops r ?s1 = Some (?s1\<lparr>inactive := j\<rparr>)"
    and inv2: "MI {} (set ?ids) E 0 0 0 dm (\<lambda>_. 0) (?s1\<lparr>inactive := j\<rparr>)" by auto
  let ?s2 = "?s1\<lparr>inactive := j\<rparr>"
  let ?s3 = "fold push_reset_id_locked (rev ?ids) ?s2"
  have p: "MI {} {} E 0 0 0 dm (\<lambda>_. 0) ?s3" "only_slots {} ?s2 ?s3" "slots ?s3 = slots ?s2"
    using push_reset_ids_step [OF inv2, of "rev ?ids"] stage(3) by simp_all
  let ?s4 = "metrics_update (allocate_atomic_rollback_update (\<lambda>x. x + 1)) ?s3"
  have "allocate_atomic ops n s = Some (None, ?s4)"
    unfolding allocate_atomic_def Let_def using n True stage(1,2,5) j by simp
  moreover have "SI E dm ?s4" using p(1) by (simp only: SI_iff_MI mid_inv_book)
  moreover have "frame s ?s4" using only_slots_frame [OF p(2)] by (simp add: frame_def)
  ultimately show ?thesis using p(3) by (intro exI [of _ ?s4]) simp
qed

text \<open>Allocation from the reset pool alone.\<close>

lemma allocate_reset_loop_step:
  assumes "MI X R E dr di dh dm dp s" "n \<le> card (free s)" "\<forall>b \<in> free s. gen_ok s b"
  shows "\<exists>blocks s'. allocate_reset_loop n s = Some (blocks, s')
    \<and> map mb_block_id blocks = take n (sorted_list_of_set (free s))
    \<and> only_slots (set (take n (sorted_list_of_set (free s)))) s s'
    \<and> (\<forall>b \<in> set (take n (sorted_list_of_set (free s))). st s' b = Mutable)
    \<and> inactive s' = inactive s \<and> active_by_hash s' = active_by_hash s \<and> held_by_hash s' = held_by_hash s
    \<and> MI X R E (dr - int n) di dh (dm + int n) dp s'"
  using assms
proof (induction n arbitrary: dr dm s)
  case (Suc n)
  note fin = core_bounds(6) [OF mid_invD(1) [OF Suc.prems(1)]]
  from Suc.prems(2) have ne: "free s \<noteq> {}" by auto
  let ?b = "Min (free s)" and ?s = "s\<lparr>free := free s - {Min (free s)}\<rparr>"
  from pop_first_free_step [OF Suc.prems(1) ne] have
    pop: "pop_first_free s = Some (?b, ?s)" "?b \<in> free s" "?b \<notin> R"
    and inv: "MI X (insert ?b R) E dr di dh dm dp ?s" by auto
  from allocate_reset_step [OF inv, of ?b] Suc.prems(3) pop(2) obtain s1 where
    s1: "allocate_mutable_slot ?b ?s = Some (slot_block_size (slots ?s ! ?b), s1)" "only_slots {?b} ?s s1"
      "st s1 = (st s)(?b := Mutable)" "slots_only ?s s1"
      "MI X (insert ?b R - {?b}) E (dr - 1) di dh (dm + 1) dp s1" by (auto simp: gen_ok_def)
  have fs: "free s1 = free s - {?b}" using s1(4) by (simp add: slots_only_def)
  have inv1: "MI X R E (dr - 1) di dh (dm + 1) dp s1" using s1(5) pop(3) by simp
  have os: "only_slots {?b} s s1" using s1(2) by (simp add: only_slots_def frame_def)
  have gens: "\<forall>b \<in> free s1. gen_ok s1 b"
    using Suc.prems(3) only_slots_counters(1) [OF os] by (auto simp: fs)
  let ?ids = "take n (sorted_list_of_set (free s - {?b}))"
  have ids: "take (Suc n) (sorted_list_of_set (free s)) = ?b # ?ids"
    using sorted_list_of_set_nonempty [OF fin ne] by simp
  have "n \<le> card (free s1)" using Suc.prems(2) pop(2) fin by (simp add: fs)
  from Suc.IH [OF inv1 this gens] obtain bls s' where
    s': "allocate_reset_loop n s1 = Some (bls, s')" "map mb_block_id bls = ?ids"
      "only_slots (set ?ids) s1 s'" "\<forall>b \<in> set ?ids. st s' b = Mutable"
      "inactive s' = inactive s1" "active_by_hash s' = active_by_hash s1" "held_by_hash s' = held_by_hash s1"
      "MI X R E (dr - 1 - int n) di dh (dm + 1 + int n) dp s'"
    unfolding fs by blast
  have "?b \<notin> set ?ids" using fin by (auto dest: in_set_takeD)
  then have "st s' ?b = Mutable" using only_slots_st [OF s'(3)] s1(3) by simp
  moreover have "only_slots (set (?b # ?ids)) s s'" using only_slots_trans [OF os s'(3)] by simp
  ultimately show ?case
    unfolding ids using pop(1) s1(1,4) s'
    by (auto simp: slots_only_def algebra_simps)
qed simp

lemma allocate_reset_blocks_locked_step:
  assumes inv: "SI E dm s" and n: "n \<le> card (free s)" and gens: "\<forall>b < length (slots s). gen_ok s b"
  shows "\<exists>blocks s'. allocate_reset_blocks_locked n s = Some (blocks, s')
    \<and> map mb_block_id blocks = take n (sorted_list_of_set (free s))
    \<and> only_slots (set (take n (sorted_list_of_set (free s)))) s s'
    \<and> (\<forall>b \<in> set (take n (sorted_list_of_set (free s))). st s' b = Mutable) \<and> SI E dm s'"
proof -
  note MI0 = inv [unfolded SI_iff_MI]
  note core = mid_invD(1) [OF MI0]
  have "\<forall>b \<in> free s. gen_ok s b"
    using gens core_bounds(4) [OF core] effective_ceiling_le [of s] core_invD(1) [OF core] by fastforce
  from allocate_reset_loop_step [OF MI0 n this] obtain blocks s' where
    s': "allocate_reset_loop n s = Some (blocks, s')" "map mb_block_id blocks = take n (sorted_list_of_set (free s))"
      "only_slots (set (take n (sorted_list_of_set (free s)))) s s'"
      "\<forall>b \<in> set (take n (sorted_list_of_set (free s))). st s' b = Mutable"
    and inv': "MI {} {} E (0 - int n) 0 0 (dm + int n) (\<lambda>_. 0) s'" by blast
  let ?s = "inc_allocations n n (inc_inflight_mutable_by (int n) (dec_reset_pool_size_by (int n) s'))"
  have "SI E dm ?s" using inv' by (simp only: SI_iff_MI mid_inv_book)
  with s' show ?thesis
    by (auto simp: allocate_reset_blocks_locked_def metrics_defs)
qed

text \<open>Draining the whole index, and the blocks it evicts.\<close>

lemma evicted_gens:
  assumes "SI E dm s" "\<forall>b < length (slots s). gen_ok s b" "extracts (iabs (inactive s)) r m"
  shows "distinct (map snd r)" "\<forall>(h, b) \<in> set r. b \<in> {} \<union> snd ` set r \<and> (\<exists>k. st s b = Inactive h k) \<and> gen_ok s b"
proof -
  note ex = extracted_slots [OF assms(1) [unfolded SI_iff_MI] assms(3)]
  show "distinct (map snd r)" by (rule ex(1))
  show "\<forall>(h, b) \<in> set r. b \<in> {} \<union> snd ` set r \<and> (\<exists>k. st s b = Inactive h k) \<and> gen_ok s b"
  proof (clarify, intro conjI)
    fix h b assume hb: "(h, b) \<in> set r"
    then show "b \<in> {} \<union> snd ` set r" by force
    from ex(2) [OF hb] obtain k where k: "st s b = Inactive h k" by blast
    then show "\<exists>k. st s b = Inactive h k" by blast
    show "gen_ok s b" using assms(2) st_index(1) [OF k] by simp
  qed
qed

lemma drain_step:
  assumes inv: "SI E dm s" and gens: "\<forall>b < length (slots s). gen_ok s b"
  shows "\<exists>blocks evicted s'. drain_inactive_to_mutable ops s = Some ((blocks, evicted), s')
    \<and> SI E dm s' \<and> frame s s' \<and> iabs (inactive s') = Map.empty
    \<and> set evicted = dom (iabs (inactive s))
    \<and> mb_block_id ` set blocks = {b. b < effective_ceiling s \<and> inact_hash (st s b) \<noteq> None}
    \<and> distinct (map mb_block_id blocks)
    \<and> (\<forall>b. st s' b = (if inact_hash (st s b) = None then st s b
             else if b < effective_ceiling s then Mutable else Reset))"
proof -
  note MI0 = inv [unfolded SI_iff_MI]
  from allocate_all [OF mid_invD(2) [OF MI0]] obtain r i where
    r: "ix_allocate_all ops (inactive s) = Some (r, i)" "iinv i" "extracts (iabs (inactive s)) r (iabs i)"
      "iabs i = Map.empty" "\<forall>n. room n (inactive s) \<longrightarrow> room n i" by blast
  let ?s1 = "s\<lparr>inactive := i\<rparr>" and ?c = "effective_ceiling s"
  have inv1: "MI ({} \<union> snd ` set r) {} E 0 0 0 dm (\<lambda>_. 0) ?s1" by (rule extract_step [OF MI0 r(3,2,5)])
  note eg = evicted_gens [OF inv gens r(3)]
  have "\<forall>(h, b) \<in> set r. b \<in> {} \<union> snd ` set r \<and> (\<exists>k. st ?s1 b = Inactive h k) \<and> gen_ok ?s1 b"
    using eg(2) by (simp add: gen_ok_def)
  from evict_pairs_step [OF inv1 eg(1) this, of ?c] obtain bl hs s2 where
    s2: "evict_pairs ?c r ?s1 = Some (bl, map fst r, hs, s2)"
      "map mb_block_id bl = filter (\<lambda>b. b < ?c) (map snd r)" "only_slots (snd ` set r) ?s1 s2"
      "inactive s2 = i" "\<forall>b \<in> snd ` set r. st s2 b = (if b < ?c then Mutable else Reset)"
    and inv2: "MI ({} \<union> snd ` set r - snd ` set r) {} E 0 (0 - int (length r)) 0 (dm + int (length bl))
        (unbook (\<lambda>_. 0) hs) s2" by auto
  let ?s3 = "inc_inflight_mutable_by (int (length bl)) (dec_inactive_pool_size_by (int (length r)) s2)"
  have "MI {} {} E 0 0 0 dm (unbook (\<lambda>_. 0) hs) ?s3"
    unfolding mid_inv_book using inv2 by simp
  from MI_unbook [OF this] have "SI E dm (fold mark_absent hs ?s3)" by (simp add: SI_iff_MI)
  moreover have "drain_inactive_to_mutable ops s = Some ((bl, map fst r), fold mark_absent hs ?s3)"
    using r(1) s2(1) by (simp add: drain_inactive_to_mutable_def)
  moreover have "frame s s2" using only_slots_frame [OF s2(3)] by (simp add: frame_def)
  moreover have all: "iabs (inactive s) h = Some b \<longleftrightarrow> (h, b) \<in> set r" for h b
    by (rule extracts_all [OF r(3) [unfolded r(4)]])
  moreover have ids: "b \<in> snd ` set r \<longleftrightarrow> inact_hash (st s b) \<noteq> None" for b
    using all [symmetric, of _ b] SI_free(3) [OF inv, of _ b] by force
  moreover have "st s2 b = (if inact_hash (st s b) = None then st s b else if b < ?c then Mutable else Reset)" for b
    using ids [of b] s2(5) only_slots_st [OF s2(3), of b] by auto
  moreover have "mb_block_id ` set bl = {b. b < ?c \<and> inact_hash (st s b) \<noteq> None}"
    using arg_cong [OF s2(2), of set] ids by auto
  moreover have "distinct (map mb_block_id bl)" using eg(1) by (simp add: s2(2))
  moreover have "set (map fst r) = dom (iabs (inactive s))"
    using all by force
  ultimately show ?thesis
    using s2(4) r(4) by (intro exI [of _ bl] exI [of _ "map fst r"] exI [of _ "fold mark_absent hs ?s3"])
      (simp add: metrics_defs)
qed

text \<open>Evicting one lineage, as the tail eviction does.\<close>

lemma evict_lineage_step:
  assumes inv: "MI {} {} E 0 di 0 dm dp s" and b: "st s b = Inactive h k"
    and gens: "\<forall>b. inact_hash (st s b) \<noteq> None \<longrightarrow> gen_ok s b"
  shows "\<exists>r i blocks handles s'. ix_take_with_descendants ops h b (inactive s) = Some (r, i)
    \<and> evict_pairs c r (s\<lparr>inactive := i\<rparr>) = Some (blocks, map fst r, handles, s')
    \<and> frame s s' \<and> evicted_to c s s' \<and> inact_hash (st s' b) = None
    \<and> (\<forall>b. inact_hash (st s' b) \<noteq> None \<longrightarrow> gen_ok s' b) \<and> distinct (map mb_block_id blocks)
    \<and> mb_block_id ` set blocks = {b. inact_hash (st s b) \<noteq> None \<and> st s' b = Mutable}
    \<and> MI {} {} E 0 (di - int (length r)) 0 (dm + int (length blocks)) (unbook dp handles) s'"
proof -
  note ok = core_invD [OF mid_invD(1) [OF inv]]
  have abs: "iabs (inactive s) h = Some b" using index_okD(1) [OF ok(5), of h b] b by simp
  from take_with_descendants [OF mid_invD(2) [OF inv], of h b] abs obtain r i where
    r: "ix_take_with_descendants ops h b (inactive s) = Some (r, i)" "iinv i"
      "extracts (iabs (inactive s)) r (iabs i)" "(h, b) \<in> set r" "\<forall>n. room n (inactive s) \<longrightarrow> room n i"
    by auto
  have inv1: "MI ({} \<union> snd ` set r) {} E 0 di 0 dm dp (s\<lparr>inactive := i\<rparr>)"
    by (rule extract_step [OF inv r(3,2,5)])
  note ex = extracted_slots [OF inv r(3)]
  have inact: "inact_hash (st s b) \<noteq> None" if b: "b \<in> snd ` set r" for b
  proof -
    from b obtain h where "(h, b) \<in> set r" by auto
    from ex(2) [OF this] show ?thesis by auto
  qed
  have "\<forall>(h, b) \<in> set r. b \<in> {} \<union> snd ` set r \<and> (\<exists>k. st (s\<lparr>inactive := i\<rparr>) b = Inactive h k)
      \<and> gen_ok (s\<lparr>inactive := i\<rparr>) b"
  proof (clarify, intro conjI)
    fix h b assume hb: "(h, b) \<in> set r"
    then show "b \<in> {} \<union> snd ` set r" by force
    with inact gens show "gen_ok (s\<lparr>inactive := i\<rparr>) b" by (simp add: gen_ok_def)
    show "\<exists>k. st (s\<lparr>inactive := i\<rparr>) b = Inactive h k" using ex(2) [OF hb] by simp
  qed
  from evict_pairs_step [OF inv1 ex(1) this, of c] obtain bl hs s' where
    s': "evict_pairs c r (s\<lparr>inactive := i\<rparr>) = Some (bl, map fst r, hs, s')"
      "map mb_block_id bl = filter (\<lambda>b. b < c) (map snd r)" "only_slots (snd ` set r) (s\<lparr>inactive := i\<rparr>) s'"
      "\<forall>b \<in> snd ` set r. st s' b = (if b < c then Mutable else Reset)"
    and inv': "MI ({} \<union> snd ` set r - snd ` set r) {} E 0 (di - int (length r)) 0 (dm + int (length bl))
        (unbook dp hs) s'" by auto
  have os: "only_slots (snd ` set r) s s'" using s'(3) by (simp add: only_slots_def frame_def)
  have st': "st s' b = (if b \<in> snd ` set r then if b < c then Mutable else Reset else st s b)" for b
    using s'(4) only_slots_st [OF os, of b] by auto
  have br: "b \<in> snd ` set r" using r(4) by force
  have "evicted_to c s s'" unfolding evicted_to_def using st' inact by metis
  moreover have "inact_hash (st s' b) = None" using st' [of b] br by simp
  moreover have "\<forall>b. inact_hash (st s' b) \<noteq> None \<longrightarrow> gen_ok s' b"
    using gens st' only_slots_counters(1) [OF os] by (metis slot_hash_simps(8,9))
  moreover have "mb_block_id ` set bl = {b. inact_hash (st s b) \<noteq> None \<and> st s' b = Mutable}"
  proof -
    have "mb_block_id ` set bl = {b \<in> snd ` set r. b < c}" using arg_cong [OF s'(2), of set] by auto
    also have "\<dots> = {b. inact_hash (st s b) \<noteq> None \<and> st s' b = Mutable}"
      using st' inact by (auto split: if_splits)
    finally show ?thesis .
  qed
  moreover have "MI {} {} E 0 (di - int (length r)) 0 (dm + int (length bl)) (unbook dp hs) s'"
    using inv' by simp
  moreover have "distinct (map mb_block_id bl)" using ex(1) by (simp add: s'(2))
  ultimately show ?thesis using r(1) s'(1) only_slots_frame [OF os] by blast
qed

lemma evict_tail_step:
  assumes "MI {} {} E 0 di 0 dm dp s" "\<forall>b. inact_hash (st s b) \<noteq> None \<longrightarrow> gen_ok s b"
    "\<forall>b \<in> set bs. b < length (slots s)"
  shows "\<exists>blocks evicted handles s'. evict_tail ops c bs s = Some (blocks, evicted, handles, s')
    \<and> frame s s' \<and> evicted_to c s s' \<and> (\<forall>b \<in> set bs. inact_hash (st s' b) = None)
    \<and> distinct (map mb_block_id blocks)
    \<and> mb_block_id ` set blocks = {b. inact_hash (st s b) \<noteq> None \<and> st s' b = Mutable}
    \<and> MI {} {} E 0 (di - int (length evicted)) 0 (dm + int (length blocks)) (unbook dp handles) s'"
  using assms
proof (induction bs arbitrary: di dm dp s)
  case Nil then show ?case by (auto simp: evicted_to_def)
next
  case (Cons b bs)
  have idx: "index_slot s b = Some (slots s ! b)" "slot_state (slots s ! b) = st s b"
    using Cons.prems(3) by (simp_all add: index_slot_def st_def)
  show ?case
  proof (cases "inact_hash (st s b)")
    case None
    then have "evict_tail ops c (b # bs) s = evict_tail ops c bs s"
      using idx by (cases "st s b") simp_all
    moreover from Cons.IH [OF Cons.prems(1,2)] Cons.prems(3) obtain bl ev hs s' where
      s': "evict_tail ops c bs s = Some (bl, ev, hs, s')" "frame s s'" "evicted_to c s s'"
        "\<forall>b \<in> set bs. inact_hash (st s' b) = None" "distinct (map mb_block_id bl)"
        "mb_block_id ` set bl = {b. inact_hash (st s b) \<noteq> None \<and> st s' b = Mutable}"
        "MI {} {} E 0 (di - int (length ev)) 0 (dm + int (length bl)) (unbook dp hs) s'" by auto
    moreover have "inact_hash (st s' b) = None" using None evicted_to_inactive [OF s'(3), of b] by fastforce
    ultimately show ?thesis by auto
  next
    case (Some h)
    from this [unfolded inact_hash_Some] obtain k where k: "st s b = Inactive h k" by blast
    from evict_lineage_step [OF Cons.prems(1) k Cons.prems(2), of c] obtain r i bl hs s1 where
      s1: "ix_take_with_descendants ops h b (inactive s) = Some (r, i)"
        "evict_pairs c r (s\<lparr>inactive := i\<rparr>) = Some (bl, map fst r, hs, s1)"
        "frame s s1" "evicted_to c s s1" "inact_hash (st s1 b) = None"
        "\<forall>b. inact_hash (st s1 b) \<noteq> None \<longrightarrow> gen_ok s1 b" "distinct (map mb_block_id bl)"
        "mb_block_id ` set bl = {b. inact_hash (st s b) \<noteq> None \<and> st s1 b = Mutable}"
        "MI {} {} E 0 (di - int (length r)) 0 (dm + int (length bl)) (unbook dp hs) s1"
      by (elim exE conjE) (rule that)
    have "\<forall>b \<in> set bs. b < length (slots s1)" using Cons.prems(3) s1(3) by (simp add: frame_def)
    from Cons.IH [OF s1(9,6) this] obtain bl' ev' hs' s' where
      s': "evict_tail ops c bs s1 = Some (bl', ev', hs', s')" "frame s1 s'" "evicted_to c s1 s'"
        "\<forall>b \<in> set bs. inact_hash (st s' b) = None" "distinct (map mb_block_id bl')"
        "mb_block_id ` set bl' = {b. inact_hash (st s1 b) \<noteq> None \<and> st s' b = Mutable}"
        "MI {} {} E 0 (di - int (length r) - int (length ev')) 0 (dm + int (length bl) + int (length bl'))
           (unbook (unbook dp hs) hs') s'"
      by (elim exE conjE) (rule that)
    have "evict_tail ops c (b # bs) s = Some (bl @ bl', map fst r @ ev', hs @ hs', s')"
      using idx k s1(1,2) s'(1) by simp
    moreover have "inact_hash (st s' b) = None" using s1(5) evicted_to_inactive [OF s'(3), of b] by fastforce
    moreover have "mb_block_id ` set (bl @ bl') = {b. inact_hash (st s b) \<noteq> None \<and> st s' b = Mutable}"
    proof -
      have "inact_hash (st s x) \<noteq> None \<and> st s' x = Mutable \<longleftrightarrow>
          inact_hash (st s x) \<noteq> None \<and> st s1 x = Mutable \<or> inact_hash (st s1 x) \<noteq> None \<and> st s' x = Mutable" for x
        using s1(4) s'(3) unfolding evicted_to_def by (metis slot_hash_simps(8,9))
      with s1(8) s'(6) show ?thesis by (simp add: image_Un) blast
    qed
    moreover have "distinct (map mb_block_id (bl @ bl'))" using s1(7,8) s'(5,6) by auto
    moreover have "MI {} {} E 0 (di - int (length (map fst r @ ev'))) 0 (dm + int (length (bl @ bl')))
        (unbook dp (hs @ hs')) s'"
      using s'(7) by (simp add: algebra_simps)
    moreover have "frame s s'" "evicted_to c s s'"
      using frame_trans [OF s1(3) s'(2)] evicted_to_trans [OF s1(4) s'(3)] .
    ultimately show ?thesis using s'(4) by (intro exI conjI) auto
  qed
qed

lemma tail_step:
  assumes inv: "SI E dm s" and gens: "\<forall>b < length (slots s). gen_ok s b"
  shows "\<exists>blocks evicted s'. inactive_tail_to_mutable ops m s = Some ((blocks, evicted), s')
    \<and> SI E dm s' \<and> frame s s' \<and> evicted_to (effective_ceiling s) s s' \<and> distinct (map mb_block_id blocks)
    \<and> mb_block_id ` set blocks = {b. inact_hash (st s b) \<noteq> None \<and> st s' b = Mutable}
    \<and> (\<forall>b. m \<le> b \<and> b < capacity s \<and> (\<forall>b'. b \<le> b' \<and> b' < capacity s \<longrightarrow> is_reset_or_inactive (st s b'))
         \<longrightarrow> inact_hash (st s' b) = None)"
proof -
  note MI0 = inv [unfolded SI_iff_MI]
  note ok = core_invD [OF mid_invD(1) [OF MI0]]
  let ?c = "effective_ceiling s" and ?sl = "take (capacity s) (slots s)"
  let ?P = "\<lambda>slot. \<not> is_reset_or_inactive (slot_state slot)"
  let ?start = "max (case rposition ?P ?sl of None \<Rightarrow> 0 | Some index \<Rightarrow> index + 1) m"
  have sl: "slots_to_capacity s = Some ?sl" "length ?sl = capacity s"
    using ok(1) by (simp_all add: slots_to_capacity_def)
  have nth: "slot_state (?sl ! b) = st s b" if "b < capacity s" for b
    using that ok(1) by (simp add: st_def)
  have g: "\<forall>b. inact_hash (st s b) \<noteq> None \<longrightarrow> gen_ok s b"
    using gens core_bounds(1) [OF mid_invD(1) [OF MI0]] by (metis slot_hash_simps(8))
  have "\<forall>b \<in> set [?start..<capacity s]. b < length (slots s)" using ok(1) by auto
  from evict_tail_step [OF MI0 g this, of ?c] obtain bl ev hs s1 where
    s1: "evict_tail ops ?c [?start..<capacity s] s = Some (bl, ev, hs, s1)" "frame s s1" "evicted_to ?c s s1"
      "\<forall>b \<in> set [?start..<capacity s]. inact_hash (st s1 b) = None" "distinct (map mb_block_id bl)"
      "mb_block_id ` set bl = {b. inact_hash (st s b) \<noteq> None \<and> st s1 b = Mutable}"
    and inv1: "MI {} {} E 0 (0 - int (length ev)) 0 (dm + int (length bl)) (unbook (\<lambda>_. 0) hs) s1"
    by (elim exE conjE) (rule that)
  let ?s2 = "inc_evictions (length ev) (inc_inflight_mutable_by (int (length bl))
    (dec_inactive_pool_size_by (int (length ev)) s1))"
  have "MI {} {} E 0 0 0 dm (unbook (\<lambda>_. 0) hs) ?s2" unfolding mid_inv_book using inv1 by simp
  from MI_unbook [OF this] have "SI E dm (fold mark_absent hs ?s2)" by (simp add: SI_iff_MI)
  moreover have "inactive_tail_to_mutable ops m s = Some ((bl, ev), fold mark_absent hs ?s2)"
    unfolding inactive_tail_to_mutable_def sl(1) bind.simps Let_def s1(1) by simp
  moreover have "inact_hash (st s1 b) = None"
    if "m \<le> b" "b < capacity s" "\<forall>b'. b \<le> b' \<and> b' < capacity s \<longrightarrow> is_reset_or_inactive (st s b')" for b
  proof -
    have "(case rposition ?P ?sl of None \<Rightarrow> 0 | Some index \<Rightarrow> index + 1) \<le> b"
    proof (cases "rposition ?P ?sl")
      case (Some j)
      from rposition_Some [OF this] have "j < length ?sl" and j: "?P (?sl ! j)" by blast+
      from this(1) sl(2) have "j < capacity s" by simp
      with nth [of j] j have "\<not> is_reset_or_inactive (st s j)" by metis
      with that(3) \<open>j < capacity s\<close> Some show ?thesis by (metis Suc_eq_plus1 not_less_eq_eq option.simps(5))
    qed simp
    with that(1,2) s1(4) show ?thesis by simp
  qed
  ultimately show ?thesis
    using s1(2,3,5,6) by (intro exI [of _ bl] exI [of _ ev] exI [of _ "fold mark_absent hs ?s2"])
      (simp add: metrics_defs evicted_to_def)
qed

end

end
