(* ===== verification/Block_Store_Capacity.thy ===== *)
theory Block_Store_Capacity
  imports Block_Store_Alloc
begin

text \<open>
  Creation, capacity and allocation ceiling: \<open>BlockStore::new\<close>, \<open>set_capacity\<close> and
  \<open>set_allocation_ceiling\<close> establish and keep the invariant. The two resizing operations move reset
  ids between the two reset sets and touch no slot that is in use.
\<close>

section \<open>Pushing reset ids\<close>

lemma fold_push_reset_ids:
  "fold push_reset_id_locked ids s =
     s\<lparr>free := (free s \<union> {b \<in> set ids. b < effective_ceiling s}) - {b \<in> set ids. effective_ceiling s \<le> b},
       fenced := (fenced s \<union> {b \<in> set ids. effective_ceiling s \<le> b}) - {b \<in> set ids. b < effective_ceiling s}\<rparr>"
proof (induction ids arbitrary: s)
  case (Cons b ids)
  let ?s = "push_reset_id_locked b s" and ?c = "effective_ceiling s"
  have c: "effective_ceiling ?s = ?c" by (simp add: push_reset_id_locked_def)
  have sets: "{x \<in> set (b # ids). P x} = (if P b then insert b {x \<in> set ids. P x} else {x \<in> set ids. P x})" for P
    by auto
  show ?case
  proof (cases "b < ?c")
    case True
    then have "(free ?s \<union> {x \<in> set ids. x < ?c}) - {x \<in> set ids. ?c \<le> x}
        = (free s \<union> {x \<in> set (b # ids). x < ?c}) - {x \<in> set (b # ids). ?c \<le> x}"
      and "(fenced ?s \<union> {x \<in> set ids. ?c \<le> x}) - {x \<in> set ids. x < ?c}
        = (fenced s \<union> {x \<in> set (b # ids). ?c \<le> x}) - {x \<in> set (b # ids). x < ?c}"
      by (auto simp: push_reset_id_locked_def)
    with True show ?thesis using Cons.IH [of ?s] by (simp add: c) (simp add: push_reset_id_locked_def)
  next
    case False
    then have "(free ?s \<union> {x \<in> set ids. x < ?c}) - {x \<in> set ids. ?c \<le> x}
        = (free s \<union> {x \<in> set (b # ids). x < ?c}) - {x \<in> set (b # ids). ?c \<le> x}"
      and "(fenced ?s \<union> {x \<in> set ids. ?c \<le> x}) - {x \<in> set ids. x < ?c}
        = (fenced s \<union> {x \<in> set (b # ids). ?c \<le> x}) - {x \<in> set (b # ids). x < ?c}"
      by (auto simp: push_reset_id_locked_def)
    with False show ?thesis using Cons.IH [of ?s] by (simp add: c) (simp add: push_reset_id_locked_def)
  qed
qed simp

lemma fold_push_reset_union:
  "free (fold push_reset_id_locked ids s) \<union> fenced (fold push_reset_id_locked ids s)
    = free s \<union> fenced s \<union> set ids"
  unfolding fold_push_reset_ids by (auto dest: leI)

lemma repush_reset_ids_eq:
  assumes "finite (free s \<union> fenced s)"
  shows "repush_reset_ids s = s\<lparr>free := {b \<in> free s \<union> fenced s. b < effective_ceiling s},
    fenced := {b \<in> free s \<union> fenced s. effective_ceiling s \<le> b}\<rparr>"
proof -
  have "set (sorted_list_of_set (free s \<union> fenced s)) = free s \<union> fenced s"
    using assms by (rule set_sorted_list_of_set)
  then show ?thesis
    unfolding repush_reset_ids_def Let_def fold_push_reset_ids by (simp add: set_diff_eq) (auto intro!: arg_cong2 [where f = "\<lambda>F G. s\<lparr>free := F, fenced := G\<rparr>"])
qed

lemma repush_by_state:
  assumes "free s \<union> fenced s = {b. b < capacity s \<and> st s b = Reset}"
  shows "repush_reset_ids s = s\<lparr>free := {b. b < effective_ceiling s \<and> st s b = Reset},
    fenced := {b. effective_ceiling s \<le> b \<and> b < capacity s \<and> st s b = Reset}\<rparr>"
proof -
  have "{b \<in> {b. b < cap \<and> st s b = Reset}. b < c} = {b. b < c \<and> st s b = Reset}"
    "{b \<in> {b. b < cap \<and> st s b = Reset}. c \<le> b} = {b. c \<le> b \<and> b < cap \<and> st s b = Reset}"
    if "c \<le> cap" for c cap :: nat
    using that by auto
  note sets = this [OF effective_ceiling_le]
  have "finite (free s \<union> fenced s)" unfolding assms by simp
  from repush_reset_ids_eq [OF this] show ?thesis unfolding assms sets .
qed

section \<open>Counting over another capacity\<close>

lemma cnt_capacity:
  assumes "\<And>b. min cap cap' \<le> b \<Longrightarrow> \<not> P (\<sigma> b)"
  shows "cnt P cap' \<sigma> = cnt P cap \<sigma>"
proof -
  have "{b. b < cap' \<and> P (\<sigma> b)} = {b. b < cap \<and> P (\<sigma> b)}"
    using assms by (metis (no_types, lifting) leI min_less_iff_conj)
  then show ?thesis by (simp add: cnt_def)
qed

lemma cnt_grow:
  assumes "cap \<le> cap'" "\<And>b. cap \<le> b \<Longrightarrow> P (\<sigma> b)"
  shows "cnt P cap' \<sigma> = cnt P cap \<sigma> + int (cap' - cap)"
proof -
  have "{b. b < cap' \<and> P (\<sigma> b)} = {b. b < cap \<and> P (\<sigma> b)} \<union> {cap..<cap'}"
    using assms by (auto dest: leI)
  moreover have "card ({b. b < cap \<and> P (\<sigma> b)} \<union> {cap..<cap'}) = card {b. b < cap \<and> P (\<sigma> b)} + (cap' - cap)"
    by (subst card_Un_disjoint) auto
  ultimately show ?thesis by (simp add: cnt_def)
qed

lemma acct_capacity:
  assumes acc: "acct 0 0 0 dm dp s" and used: "\<And>b. st s b \<noteq> Reset \<Longrightarrow> b < min (capacity s) (capacity s')"
    and s': "st s' = st s" "metrics s' = metrics s" "presence s' = presence s"
  shows "acct (int (capacity s') - int (capacity s)) 0 0 dm dp s'"
proof -
  have reset: "st s b = Reset" if "min (capacity s) (capacity s') \<le> b" for b
    using used [of b] that by linarith
  have same: "cnt P (capacity s') (st s) = cnt P (capacity s) (st s)" if "\<not> P Reset" for P
    by (rule cnt_capacity) (use reset that in auto)
  have "cnt (\<lambda>x. x = Reset) (capacity s') (st s)
      = cnt (\<lambda>x. x = Reset) (capacity s) (st s) + (int (capacity s') - int (capacity s))"
  proof (cases "capacity s \<le> capacity s'")
    case True
    then have "\<And>b. capacity s \<le> b \<Longrightarrow> st s b = Reset" using reset by simp
    with cnt_grow [OF True, of "\<lambda>x. x = Reset" "st s"] True show ?thesis by simp
  next
    case False
    then have "\<And>b. capacity s' \<le> b \<Longrightarrow> st s b = Reset" and "capacity s' \<le> capacity s" using reset by simp_all
    with cnt_grow [of "capacity s'" "capacity s" "\<lambda>x. x = Reset" "st s"] show ?thesis by simp
  qed
  with acc same show ?thesis by (simp add: acct_def s')
qed

section \<open>Creation and resizing\<close>

context inactive_index
begin

lemma new_store_inv:
  assumes "iinv index" "iabs index = Map.empty" "room total_blocks index"
  shows "SI (\<lambda>_. 0) 0 (new_store manager_id total_blocks maximum_blocks block_size index d)"
proof -
  let ?s = "new_store manager_id total_blocks maximum_blocks block_size index d"
  have st: "st ?s = (\<lambda>_. Reset)" by (rule ext) (simp add: st_def new_store_def new_slot_def)
  have "core_inv iabs {} {} ?s"
    unfolding core_inv_def st
    by (auto simp: new_store_def assms(2) effective_ceiling_def pools_ok_def index_ok_def active_ok_def held_ok_def)
  moreover have "arc_inv (\<lambda>_. 0) ?s" unfolding arc_inv_def st by (simp add: new_store_def)
  moreover have "acct 0 0 0 0 (\<lambda>_. 0) ?s"
    unfolding acct_def st by (simp add: new_store_def cnt_def initial_metrics_def)
  ultimately show ?thesis
    using assms(1,3) by (simp add: store_inv_def mid_inv_def) (simp add: new_store_def)
qed

text \<open>The invariant after a change of capacity, fence and reset sets that keeps the slots in use.\<close>

lemma SI_resize:
  assumes inv: "SI E dm s" and st: "st s' = st s"
    and cap: "capacity s' \<le> length (slots s')" "length (reset_on_release s') = length (slots s')"
      "\<And>b. st s b \<noteq> Reset \<Longrightarrow> b < capacity s'" "length (slots s) \<le> length (slots s')"
    and pools: "free s' = {b. b < effective_ceiling s' \<and> st s b = Reset}"
      "fenced s' = {b. effective_ceiling s' \<le> b \<and> b < capacity s' \<and> st s b = Reset}"
    and idx: "iinv (inactive s')" "iabs (inactive s') = iabs (inactive s)" "room (length (slots s')) (inactive s')"
    and eq: "active_by_hash s' = active_by_hash s" "held_by_hash s' = held_by_hash s"
      "inners s' = inners s" "next_ptr s' = next_ptr s" "presence s' = presence s"
      "metrics s' = (metrics s)\<lparr>reset_pool_size := reset_pool_size (metrics s) + (int (capacity s') - int (capacity s))\<rparr>"
  shows "SI E dm s'"
proof -
  note MI0 = inv [unfolded SI_iff_MI]
  note ok = core_invD [OF mid_invD(1) [OF MI0]]
  let ?d = "int (capacity s') - int (capacity s)"
  have "core_inv iabs {} {} s'"
  proof (rule core_invI)
    show "pools_ok (st s') (effective_ceiling s') (capacity s') {} (free s') (fenced s')"
      by (simp add: pools_ok_def pools st)
  qed (use ok cap idx eq in \<open>simp_all add: st\<close>)
  moreover have "arc_inv E s'"
    by (rule arc_inv_cong [OF mid_invD(4) [OF MI0] st eq(3,4) cap(4)])
  moreover have "acct 0 0 0 dm (\<lambda>_. 0) s'"
  proof -
    have "acct ?d 0 0 dm (\<lambda>_. 0) (s\<lparr>capacity := capacity s'\<rparr>)"
      using acct_capacity [OF mid_invD(5) [OF MI0], of "s\<lparr>capacity := capacity s'\<rparr>"] cap(3) ok(3) by simp
    then show ?thesis by (simp add: acct_def st eq)
  qed
  ultimately show ?thesis using idx by (simp add: SI_iff_MI mid_inv_def)
qed

lemma SI_reset_ids:
  assumes "SI E dm s"
  shows "free s \<union> fenced s = {b. b < capacity s \<and> st s b = Reset}"
proof -
  have "{b. b < c \<and> st s b = Reset} \<union> {b. c \<le> b \<and> b < cap \<and> st s b = Reset} = {b. b < cap \<and> st s b = Reset}"
    if "c \<le> cap" for c cap :: nat
    using that by auto
  from this [OF effective_ceiling_le] show ?thesis unfolding SI_free(1,2) [OF assms] .
qed

lemma set_allocation_ceiling_step:
  assumes inv: "SI E dm s"
  shows "case f of Some c \<Rightarrow> c > capacity s \<longrightarrow>
       set_allocation_ceiling f s = (Inl (CeilingExceedsCapacity c (capacity s)), s) | None \<Rightarrow> True"
    and "(case f of Some c \<Rightarrow> c \<le> capacity s | None \<Rightarrow> True) \<Longrightarrow>
       \<exists>s'. set_allocation_ceiling f s = (Inr (), s') \<and> SI E dm s' \<and> slots s' = slots s
         \<and> capacity s' = capacity s \<and> fence s' = f"
proof -
  show "case f of Some c \<Rightarrow> c > capacity s \<longrightarrow>
       set_allocation_ceiling f s = (Inl (CeilingExceedsCapacity c (capacity s)), s) | None \<Rightarrow> True"
    by (simp add: set_allocation_ceiling_def split: option.splits)
  assume f: "case f of Some c \<Rightarrow> c \<le> capacity s | None \<Rightarrow> True"
  note MI0 = inv [unfolded SI_iff_MI]
  note ok = core_invD [OF mid_invD(1) [OF MI0]]
  let ?s = "s\<lparr>fence := f\<rparr>" and ?s' = "repush_reset_ids (s\<lparr>fence := f\<rparr>)"
  have "free ?s \<union> fenced ?s = {b. b < capacity ?s \<and> st ?s b = Reset}" using SI_reset_ids [OF inv] by simp
  note rp = repush_by_state [OF this]
  have "SI E dm ?s'"
    by (rule SI_resize [OF inv]) (use ok mid_invD(2,3) [OF MI0] in \<open>simp_all add: rp\<close>)
  moreover have "set_allocation_ceiling f s = (Inr (), ?s')"
    using f by (simp add: set_allocation_ceiling_def split: option.splits)
  ultimately show "\<exists>s'. set_allocation_ceiling f s = (Inr (), s') \<and> SI E dm s' \<and> slots s' = slots s
         \<and> capacity s' = capacity s \<and> fence s' = f" by (simp add: rp)
qed

text \<open>The high-water mark: one past the last slot in use.\<close>

lemma high_water_spec:
  assumes inv: "SI E dm s"
  shows "\<exists>hw. high_water s = Some hw \<and> hw \<le> capacity s \<and> (\<forall>b. st s b \<noteq> Reset \<longrightarrow> b < hw)
    \<and> (hw \<noteq> 0 \<longrightarrow> st s (hw - 1) \<noteq> Reset)"
proof -
  note ok = core_invD [OF mid_invD(1) [OF inv [unfolded SI_iff_MI]]]
  let ?sl = "take (capacity s) (slots s)" and ?P = "\<lambda>slot :: 'a block_slot. slot_state slot \<noteq> Reset"
  have sl: "slots_to_capacity s = Some ?sl" "length ?sl = capacity s"
    using ok(1) by (simp_all add: slots_to_capacity_def)
  have nth: "slot_state (?sl ! b) = st s b" if "b < capacity s" for b
    using that ok(1) by (simp add: st_def)
  show ?thesis
  proof (cases "rposition ?P ?sl")
    case None
    have "st s b = Reset" for b
    proof (rule ccontr)
      assume used: "st s b \<noteq> Reset"
      then have b: "b < capacity s" by (rule ok(3))
      then have "?sl ! b \<in> set ?sl" using sl(2) by (metis nth_mem)
      with None nth [OF b] used show False by (auto simp: rposition_None)
    qed
    with None sl show ?thesis by (simp add: high_water_def)
  next
    case (Some j)
    from rposition_Some [OF this] have j: "j < length ?sl" "?P (?sl ! j)"
      "\<forall>k < length ?sl. j < k \<longrightarrow> \<not> ?P (?sl ! k)" by blast+
    have jc: "j < capacity s" using j(1) sl(2) by simp
    have "b < j + 1" if used: "st s b \<noteq> Reset" for b
    proof (rule ccontr)
      assume "\<not> b < j + 1"
      moreover have b: "b < capacity s" by (rule ok(3) [OF used])
      ultimately have "slot_state (?sl ! b) = Reset" using j(3) sl(2) by simp
      with nth [OF b] used show False by simp
    qed
    moreover have "st s j \<noteq> Reset" using j(2) nth [OF jc] by simp
    ultimately show ?thesis using Some sl jc by (simp add: high_water_def)
  qed
qed

lemma set_capacity_refused:
  assumes inv: "SI E dm s"
  shows "cap > store_total_blocks s \<Longrightarrow>
      set_capacity ops cap s = Some (Inl (CapacityExceedsMaximum cap (store_total_blocks s)), s)"
    and "cap \<le> store_total_blocks s \<Longrightarrow> \<exists>b. st s b \<noteq> Reset \<and> cap \<le> b \<Longrightarrow>
      \<exists>b. st s b \<noteq> Reset \<and> cap \<le> b \<and> (\<forall>b'. st s b' \<noteq> Reset \<longrightarrow> b' \<le> b)
        \<and> set_capacity ops cap s = Some (Inl (CapacityExcludesOccupied cap b), s)"
proof -
  show "cap > store_total_blocks s \<Longrightarrow>
      set_capacity ops cap s = Some (Inl (CapacityExceedsMaximum cap (store_total_blocks s)), s)"
    by (simp add: set_capacity_def check_capacity_def)
  assume cap: "cap \<le> store_total_blocks s" and "\<exists>b. st s b \<noteq> Reset \<and> cap \<le> b"
  then obtain b where b: "st s b \<noteq> Reset" "cap \<le> b" by blast
  from high_water_spec [OF inv] obtain hw where hw: "high_water s = Some hw"
    "\<forall>b. st s b \<noteq> Reset \<longrightarrow> b < hw" "hw \<noteq> 0 \<longrightarrow> st s (hw - 1) \<noteq> Reset" by blast
  have "b < hw" using hw(2) b(1) by blast
  then have "cap < hw" "hw \<noteq> 0" using b(2) by linarith+
  moreover have "\<forall>b'. st s b' \<noteq> Reset \<longrightarrow> b' \<le> hw - 1" using hw(2) by fastforce
  moreover have "set_capacity ops cap s = Some (Inl (CapacityExcludesOccupied cap (hw - 1)), s)"
    using cap hw(1) \<open>cap < hw\<close> by (simp add: set_capacity_def check_capacity_def)
  ultimately show "\<exists>b. st s b \<noteq> Reset \<and> cap \<le> b \<and> (\<forall>b'. st s b' \<noteq> Reset \<longrightarrow> b' \<le> b)
        \<and> set_capacity ops cap s = Some (Inl (CapacityExcludesOccupied cap b), s)"
    using hw(3) by (intro exI [of _ "hw - 1"]) simp
qed

text \<open>The common end of the three cases of \<open>set_capacity\<close>: the state before the reset ids are pushed again.\<close>

lemma repush_SI:
  assumes inv: "SI E dm s" and st: "st s' = st s" and fence: "fence s' = fence s"
    and cap: "capacity s' \<le> length (slots s')" "length (reset_on_release s') = length (slots s')"
      "\<And>b. st s b \<noteq> Reset \<Longrightarrow> b < capacity s'" "length (slots s) \<le> length (slots s')"
    and ids: "free s' \<union> fenced s' = {b. b < capacity s' \<and> st s b = Reset}"
    and idx: "iinv (inactive s')" "iabs (inactive s') = iabs (inactive s)" "room (length (slots s')) (inactive s')"
    and eq: "active_by_hash s' = active_by_hash s" "held_by_hash s' = held_by_hash s"
      "inners s' = inners s" "next_ptr s' = next_ptr s" "presence s' = presence s"
      "metrics s' = (metrics s)\<lparr>reset_pool_size := reset_pool_size (metrics s) + (int (capacity s') - int (capacity s))\<rparr>"
  shows "SI E dm (repush_reset_ids s') \<and> capacity (repush_reset_ids s') = capacity s'
    \<and> st (repush_reset_ids s') = st s \<and> fence (repush_reset_ids s') = fence s"
proof -
  have "free s' \<union> fenced s' = {b. b < capacity s' \<and> st s' b = Reset}" using ids by (simp add: st)
  note rp = repush_by_state [OF this]
  have "SI E dm (repush_reset_ids s')"
    by (rule SI_resize [OF inv]) (use st fence cap idx eq in \<open>simp_all add: rp\<close>)
  then show ?thesis using fence by (simp add: rp st)
qed

lemma set_capacity_check:
  assumes inv: "SI E dm s" and cap: "cap \<le> store_total_blocks s" "\<And>b. st s b \<noteq> Reset \<Longrightarrow> b < cap"
  shows "check_capacity s cap = Some (Inr ())"
proof -
  from high_water_spec [OF inv] obtain hw where hw: "high_water s = Some hw" "hw \<noteq> 0 \<longrightarrow> st s (hw - 1) \<noteq> Reset"
    by blast
  have "\<not> cap < hw" using hw(2) cap(2) [of "hw - 1"] by linarith
  with cap(1) hw(1) show ?thesis by (simp add: check_capacity_def)
qed

lemma set_capacity_accepted:
  assumes inv: "SI E dm s" and cap: "cap \<le> store_total_blocks s" "\<And>b. st s b \<noteq> Reset \<Longrightarrow> b < cap"
  shows "\<exists>s'. set_capacity ops cap s = Some (Inr (), s')
    \<and> SI E dm s' \<and> capacity s' = cap \<and> st s' = st s \<and> fence s' = fence s"
proof -
  note MI0 = inv [unfolded SI_iff_MI]
  note ok = core_invD [OF mid_invD(1) [OF MI0]]
  note check = set_capacity_check [OF inv cap]
  note ids = SI_reset_ids [OF inv]
  note idx = mid_invD(2,3) [OF MI0]
  have reset: "st s b = Reset" if "capacity s \<le> b \<or> cap \<le> b" for b
    using that ok(3) [of b] cap(2) [of b] by linarith
  consider "cap < capacity s" | "cap = capacity s" | "cap > capacity s" "cap \<le> length (slots s)"
    | "cap > capacity s" "cap > length (slots s)" by linarith
  then show ?thesis
  proof cases
    case 1
    let ?s = "(dec_reset_pool_size_by (int (capacity s - cap))
      (s\<lparr>free := {b \<in> free s. b < cap}, fenced := {b \<in> fenced s. b < cap}\<rparr>))\<lparr>capacity := cap\<rparr>"
    have "free ?s \<union> fenced ?s = {b \<in> free s \<union> fenced s. b < cap}" by (simp add: metrics_defs) blast
    also have "\<dots> = {b. b < cap \<and> st s b = Reset}" unfolding ids using 1 by auto
    finally have "SI E dm (repush_reset_ids ?s) \<and> capacity (repush_reset_ids ?s) = capacity ?s
        \<and> st (repush_reset_ids ?s) = st s \<and> fence (repush_reset_ids ?s) = fence s"
      by (intro repush_SI [OF inv]) (use 1 ok cap idx in \<open>simp_all add: metrics_defs of_nat_diff\<close>)
    with 1 check show ?thesis by (simp add: set_capacity_def Let_def metrics_defs)
  next
    case 2
    have "SI E dm (repush_reset_ids s) \<and> capacity (repush_reset_ids s) = capacity s
        \<and> st (repush_reset_ids s) = st s \<and> fence (repush_reset_ids s) = fence s"
      by (intro repush_SI [OF inv]) (use 2 ok cap idx ids in simp_all)
    with 2 check show ?thesis by (simp add: set_capacity_def Let_def)
  next
    case 3
    let ?s = "inc_reset_pool_size_by (int (cap - capacity s))
      (fold push_reset_id_locked [capacity s..<cap] (s\<lparr>capacity := cap\<rparr>))"
    have "free ?s \<union> fenced ?s = {b. b < capacity s \<and> st s b = Reset} \<union> {capacity s..<cap}"
      by (simp add: metrics_defs fold_push_reset_union ids)
    also have "\<dots> = {b. b < cap \<and> st s b = Reset}" using reset 3(1) by (auto dest: leI)
    finally have "SI E dm (repush_reset_ids ?s) \<and> capacity (repush_reset_ids ?s) = capacity ?s
        \<and> st (repush_reset_ids ?s) = st s \<and> fence (repush_reset_ids ?s) = fence s"
      by (intro repush_SI [OF inv])
         (use 3 ok cap idx in \<open>simp_all add: metrics_defs fold_push_reset_ids of_nat_diff\<close>)
    with 3 check show ?thesis by (simp add: set_capacity_def Let_def) (simp add: metrics_defs fold_push_reset_ids)
  next
    case 4
    let ?s0 = "s\<lparr>slots := slots s @ replicate (cap - length (slots s)) (new_slot (store_block_size s)),
      reset_on_release := take cap (reset_on_release s)
        @ replicate (cap - length (reset_on_release s)) (default_reset_on_release s),
      inactive := ix_grow_capacity ops cap (inactive s), capacity := cap\<rparr>"
    let ?s = "inc_reset_pool_size_by (int (cap - capacity s)) (fold push_reset_id_locked [capacity s..<cap] ?s0)"
    have st: "st ?s = st s"
      by (rule ext) (simp add: metrics_defs fold_push_reset_ids st_def nth_append new_slot_def)
    have "free ?s \<union> fenced ?s = {b. b < capacity s \<and> st s b = Reset} \<union> {capacity s..<cap}"
      by (simp add: metrics_defs fold_push_reset_union ids)
    also have "\<dots> = {b. b < cap \<and> st s b = Reset}" using reset 4(1) by (auto dest: leI)
    finally have "SI E dm (repush_reset_ids ?s) \<and> capacity (repush_reset_ids ?s) = capacity ?s
        \<and> st (repush_reset_ids ?s) = st s \<and> fence (repush_reset_ids ?s) = fence s"
      by (intro repush_SI [OF inv st])
         (use 4 ok cap grow_capacity [OF idx(1), of cap] in
          \<open>simp_all add: metrics_defs fold_push_reset_ids of_nat_diff\<close>)
    with 4 check show ?thesis by (simp add: set_capacity_def Let_def) (simp add: metrics_defs fold_push_reset_ids)
  qed
qed

end

end
