(* ===== verification/Block_Store_Life.thy ===== *)
theory Block_Store_Life
  imports Block_Store_Capacity
begin

text \<open>
  The life of a block after its allocation: the guards' transitions, lookup and resurrection,
  registration, and release. Every lemma states that the operation returns (no assertion fails, no
  index is out of range) and what it does to the slots, to the callers' references and to the
  invariant.
\<close>

section \<open>Guards\<close>

context inactive_index
begin

lemma guard_step:
  assumes inv: "MI X R E dr di dh dm dp s" and b: "guarded (st s b)" and x: "guarded x"
  shows "\<exists>s'. set_state b x s = Some s' \<and> only_slots {b} s s' \<and> st s' = (st s)(b := x)
    \<and> slots_only s s' \<and> reset_on_release s' = reset_on_release s
    \<and> MI X R E dr di dh (dm - of_bool (st s b = Mutable) + of_bool (x = Mutable)) dp s'"
proof -
  note core = mid_invD(1) [OF inv]
  note ok = core_invD [OF core]
  note bD = guardedD [OF b] and xD = guardedD [OF x]
  have len: "b < length (slots s)" and cap: "b < capacity s"
    using core_bounds(1) [OF core, of b] ok(3) [of b] bD by simp_all
  from set_state_fields [OF len, of x] obtain s' where s': "set_state b x s = Some s'"
    "only_slots {b} s s'" "st s' = (st s)(b := x)" "reset_on_release s' = reset_on_release s" "slots_only s s'"
    by blast
  note so = slots_onlyD [OF s'(5)]
  have arc: "arc_inv E s'"
    by (rule arc_inv_slot [OF mid_invD(4) [OF inv], where b = b and x = x])
      (use so s'(2) bD xD in \<open>simp_all add: s'(3) only_slots_def frame_def\<close>)
  have "MI X R E dr di dh (dm - of_bool (st s b = Mutable) + of_bool (x = Mutable)) dp s'"
    using MI_slot [OF inv only_slots_frame [OF s'(2)] s'(3) cap _ _ _ _ _ _ _ _ _ arc, of R X]
      so mid_invD(2,3) [OF inv] pools_ok_upd(1) [OF ok(4), of b x] index_ok_keep [OF ok(5), of b x]
      active_ok_keep [OF ok(6), of b x] held_ok_keep [OF ok(7), of b x] bD xD by simp
  with s' show ?thesis by blast
qed

lemma release_mutable_step:
  assumes inv: "SI E dm s" and b: "st s b = Mutable"
  shows "\<exists>s'. release_mutable b s = Some s' \<and> SI E dm s' \<and> only_slots {b} s s' \<and> st s' = (st s)(b := Reset)"
proof -
  from reset_slot_step [OF inv [unfolded SI_iff_MI], of b] b obtain s' where
    s': "reset_slot_locked b s = Some s'" "only_slots {b} s s'" "st s' = (st s)(b := Reset)"
    and inv': "MI {} {} E 0 0 0 (dm - 1) (\<lambda>_. 0) s'" by auto
  have "release_mutable b s = Some (dec_inflight_mutable_by 1 s')"
    using s'(1) by (auto simp: release_mutable_def reset_slot_locked_def bind_eq_Some_conv)
  moreover have "SI E dm (dec_inflight_mutable_by 1 s')"
    using inv' by (simp only: SI_iff_MI mid_inv_book)
  ultimately show ?thesis using s'(2,3) by (simp add: metrics_defs)
qed

lemma release_staged_step:
  assumes inv: "SI E dm s" and b: "st s b = Staged h"
  shows "\<exists>s'. release_staged b s = Some s' \<and> SI E dm s' \<and> only_slots {b} s s' \<and> st s' = (st s)(b := Reset)"
proof -
  from reset_slot_step [OF inv [unfolded SI_iff_MI], of b] b obtain s' where
    s': "reset_slot_locked b s = Some s'" "only_slots {b} s s'" "st s' = (st s)(b := Reset)"
    and inv': "MI {} {} E 0 0 0 dm (\<lambda>_. 0) s'" by auto
  have "release_staged b s = reset_slot_locked b s"
    by (simp add: release_staged_def reset_slot_locked_def)
  with s' inv' show ?thesis by (simp add: SI_iff_MI)
qed

lemma transition_to_staged_step:
  assumes inv: "SI E dm s" and b: "st s b = Mutable"
  shows "\<exists>s'. transition_to_staged b h s = Some s' \<and> SI E dm s' \<and> only_slots {b} s s'
    \<and> st s' = (st s)(b := Staged h)"
proof -
  from guard_step [OF inv [unfolded SI_iff_MI], of b "Staged h"] b obtain s' where
    s': "set_state b (Staged h) s = Some s'" "only_slots {b} s s'" "st s' = (st s)(b := Staged h)"
    and inv': "MI {} {} E 0 0 0 (dm - 1) (\<lambda>_. 0) s'" by auto
  let ?s = "metrics_update (stagings_update (\<lambda>x. x + 1)) (dec_inflight_mutable_by 1 s')"
  have "SI E dm ?s" using inv' by (simp only: SI_iff_MI mid_inv_book)
  moreover have "transition_to_staged b h s = Some ?s" using s'(1) by (simp add: transition_to_staged_def)
  ultimately show ?thesis using s'(2,3) by (simp add: metrics_defs)
qed

lemma transition_back_to_mutable_step:
  assumes inv: "SI E dm s" and b: "st s b = Staged h"
  shows "\<exists>s'. transition_back_to_mutable b s = Some s' \<and> SI E dm s' \<and> only_slots {b} s s'
    \<and> st s' = (st s)(b := Mutable) \<and> reset_on_release s' ! b = default_reset_on_release s"
proof -
  note core = mid_invD(1) [OF inv [unfolded SI_iff_MI]]
  from guard_step [OF inv [unfolded SI_iff_MI], of b Mutable] b obtain s1 where
    s1: "set_state b Mutable s = Some s1" "only_slots {b} s s1" "st s1 = (st s)(b := Mutable)"
      "reset_on_release s1 = reset_on_release s"
    and inv1: "MI {} {} E 0 0 0 (dm + 1) (\<lambda>_. 0) s1" by auto
  have len: "b < length (reset_on_release s1)"
    using core_bounds(1) [OF core, of b] core_invD(2) [OF core] b s1(4) by simp
  from set_reset_flag_fields [OF this, of "default_reset_on_release s1"] obtain s2 where
    s2: "set_reset_flag b (default_reset_on_release s1) s1 = Some s2" "only_slots {} s1 s2" "st s2 = st s1"
      "reset_on_release s2 = (reset_on_release s1)[b := default_reset_on_release s1]" "slots_only s1 s2" by blast
  have inv2: "MI {} {} E 0 0 0 (dm + 1) (\<lambda>_. 0) s2" by (rule MI_flags [OF inv1 s2(5,2,3)])
  let ?s = "inc_inflight_mutable_by 1 s2"
  have "SI E dm ?s" using inv2 by (simp only: SI_iff_MI mid_inv_book)
  moreover have "transition_back_to_mutable b s = Some ?s"
    using s1(1) s2(1) by (simp add: transition_back_to_mutable_def)
  moreover have "default_reset_on_release s1 = default_reset_on_release s"
    using s1(2) by (simp add: only_slots_def frame_def)
  ultimately show ?thesis
    using only_slots_trans [OF s1(2) s2(2)] s1(3) s2(3,4) len by (simp add: metrics_defs)
qed

end

section \<open>Strong references\<close>

text \<open>A weak pointer of a slot upgrades when a strong reference is left.\<close>

definition live :: "('h, 'i) block_store \<Rightarrow> nat \<Rightarrow> bool" where
  "live s p \<longleftrightarrow> (\<exists>n. inners s p = Some n \<and> in_strong n \<noteq> 0)"

lemma set_strong_fields [simp]:
  "st (set_strong p c s) = st s" "slots (set_strong p c s) = slots s"
  "only_slots B s' (set_strong p c s) = only_slots B s' s" "frame s' (set_strong p c s) = frame s' s"
  "active_by_hash (set_strong p c s) = active_by_hash s" "held_by_hash (set_strong p c s) = held_by_hash s"
  "inactive (set_strong p c s) = inactive s" "free (set_strong p c s) = free s"
  "fenced (set_strong p c s) = fenced s" "next_ptr (set_strong p c s) = next_ptr s"
  "metrics (set_strong p c s) = metrics s" "presence (set_strong p c s) = presence s"
  "reset_on_release (set_strong p c s) = reset_on_release s"
  "effective_ceiling (set_strong p c s) = effective_ceiling s"
  by (simp_all add: set_strong_def only_slots_def frame_def)

lemma set_strong_lookup:
  "inners s p = Some n \<Longrightarrow> inners (set_strong p c s) q = (if q = p then Some (n\<lparr>in_strong := c\<rparr>) else inners s q)"
  by (simp add: set_strong_def)

context inactive_index
begin

lemma MI_strong:
  assumes inv: "MI X R E dr di dh dm dp s" and p: "inners s p = Some n" "in_strong n \<noteq> 0 \<or> c = 0"
    and c: "card (keepers (inners s) p) + e = c"
  shows "MI X R (E(p := e)) dr di dh dm dp (set_strong p c s)"
proof -
  have "core_inv iabs X R (set_strong p c s)"
    using mid_invD(1) [OF inv] by (simp add: core_inv_def) (simp add: set_strong_def)
  moreover have "acct dr di dh dm dp (set_strong p c s)"
    by (rule acct_cong [OF mid_invD(5) [OF inv]]) (simp_all add: set_strong_def)
  ultimately show ?thesis
    using mid_invD(2,3) [OF inv] arc_inv_set_strong [OF mid_invD(4) [OF inv] p c] by (simp add: mid_inv_def)
qed

lemma MI_add_ref:
  assumes inv: "MI X R E dr di dh dm dp s" and p: "inners s p = Some n" "in_strong n \<noteq> 0"
  shows "MI X R (E(p := E p + 1)) dr di dh dm dp (set_strong p (in_strong n + 1) s)"
  by (rule MI_strong [OF inv p(1)]) (use p arc_invD(4) [OF mid_invD(4) [OF inv] p(1)] in simp_all)

lemma MI_drop_ref:
  assumes inv: "MI X R E dr di dh dm dp s" and p: "E p \<noteq> 0"
  shows "\<exists>n. inners s p = Some n \<and> in_strong n \<noteq> 0 \<and> arc_dec p s = Some (set_strong p (in_strong n - 1) s)
    \<and> MI X R (E(p := E p - 1)) dr di dh dm dp (set_strong p (in_strong n - 1) s)"
proof -
  note arc = mid_invD(4) [OF inv]
  from p arc_invD(6) [OF arc, of p] obtain n where n: "inners s p = Some n" by fastforce
  have strong: "in_strong n = card (keepers (inners s) p) + E p" by (rule arc_invD(4) [OF arc n])
  with p have "in_strong n \<noteq> 0" by simp
  moreover have "MI X R (E(p := E p - 1)) dr di dh dm dp (set_strong p (in_strong n - 1) s)"
    by (rule MI_strong [OF inv n]) (use strong p in simp_all)
  ultimately show ?thesis using n by (simp add: arc_dec_def assert_that_def)
qed

lemma weak_upgrade_dead: "\<not> live s p \<Longrightarrow> weak_upgrade p s = (None, s)"
  by (auto simp: weak_upgrade_def live_def split: option.splits)

lemma weak_upgrade_live:
  assumes "MI X R E dr di dh dm dp s" "live s p"
  shows "\<exists>n. inners s p = Some n \<and> weak_upgrade p s = (Some p, set_strong p (in_strong n + 1) s)
    \<and> MI X R (E(p := E p + 1)) dr di dh dm dp (set_strong p (in_strong n + 1) s)"
  using assms(2) MI_add_ref [OF assms(1)] by (auto simp: weak_upgrade_def live_def)

end

section \<open>Leaving and entering the active pool\<close>

text \<open>The entry a resurrection or a registration adds to the heap.\<close>

abbreviation primary_inner :: "block_id \<Rightarrow> 'h \<Rightarrow> 'h registration_handle \<Rightarrow> 'h block_inner" where
  "primary_inner b h k \<equiv> \<lparr>in_block_id = b, in_seq_hash = h, in_handle = k, in_is_primary = True,
     in_keepalive = None, in_strong = 1\<rparr>"

abbreviation duplicate_inner :: "block_id \<Rightarrow> 'h \<Rightarrow> 'h registration_handle \<Rightarrow> nat \<Rightarrow> 'h block_inner" where
  "duplicate_inner b h k q \<equiv> \<lparr>in_block_id = b, in_seq_hash = h, in_handle = k, in_is_primary = False,
     in_keepalive = Some q, in_strong = 1\<rparr>"

context inactive_index
begin

text \<open>A slot that carries no hash of its own, or an extracted inactive slot, becomes a primary.\<close>

lemma become_primary_step:
  assumes inv: "MI X R E dr di dh dm dp s"
    and b: "guarded (st s b) \<and> (\<forall>b'. inact_hash (st s b') \<noteq> Some h) \<or> b \<in> X \<and> st s b = Inactive h k"
    and act: "active_by_hash s h = None"
    and s1: "s1 = s\<lparr>inners := (inners s)(next_ptr s \<mapsto> primary_inner b h k), next_ptr := next_ptr s + 1\<rparr>"
  shows "\<exists>s2 s'. set_state b (Primary h k (next_ptr s)) s1 = Some s2
    \<and> s' = active_by_hash_update (\<lambda>m. m(h \<mapsto> b)) s2
    \<and> only_slots {b} s s' \<and> st s' = (st s)(b := Primary h k (next_ptr s))
    \<and> inactive s' = inactive s \<and> active_by_hash s' = (active_by_hash s)(h \<mapsto> b)
    \<and> held_by_hash s' = held_by_hash s \<and> inners s' = inners s1 \<and> next_ptr s' = next_ptr s + 1
    \<and> MI (X - {b}) R (E(next_ptr s := 1)) dr (di - of_bool (inact_hash (st s b) \<noteq> None)) dh
        (dm - of_bool (st s b = Mutable))
        (\<lambda>i. unbook dp (handles_of (st s b)) i + hcount [k] i) s'"
proof -
  note core = mid_invD(1) [OF inv]
  note ok = core_invD [OF core]
  let ?p = "next_ptr s" and ?x = "Primary h k (next_ptr s)"
  have bD: "st s b \<noteq> Reset" "slot_weak (st s b) = None" "prim_hash (st s b) = None" "held_hash (st s b) = None"
    using b guardedD [of "st s b"] by auto
  have len: "b < length (slots s)" and cap: "b < capacity s"
    using core_bounds(1) [OF core bD(1)] ok(3) [OF bD(1)] .
  have "b < length (slots s1)" using len by (simp add: s1)
  from set_state_fields [OF this, of ?x] obtain s2 where s2: "set_state b ?x s1 = Some s2"
    "only_slots {b} s1 s2" "st s2 = (st s1)(b := ?x)" "reset_on_release s2 = reset_on_release s1" "slots_only s1 s2"
    by blast
  note so = slots_onlyD [OF s2(5)]
  let ?s' = "active_by_hash_update (\<lambda>m. m(h \<mapsto> b)) s2"
  have os: "only_slots {b} s ?s'" using s2(2) by (simp add: only_slots_def frame_def s1)
  have st': "st ?s' = (st s)(b := ?x)" using s2(3) by (simp add: s1)
  have idx: "index_ok ((st s)(b := ?x)) (X - {b}) (iabs (inactive s))"
    using b
  proof
    assume "b \<in> X \<and> st s b = Inactive h k"
    then show ?thesis using index_ok_leave [OF ok(5), of b ?x] by simp
  next
    assume g: "guarded (st s b) \<and> (\<forall>b'. inact_hash (st s b') \<noteq> Some h)"
    then have none: "inact_hash (st s b) = None" using guardedD by blast
    then have "b \<notin> X" using index_okD(3) [OF ok(5), of b] by auto
    with index_ok_keep [OF ok(5) none, of ?x] show ?thesis by simp
  qed
  have "\<forall>b'. b' \<noteq> b \<longrightarrow> inact_hash (st s b') \<noteq> Some h"
    using b index_okD(2) [OF ok(5), of b h] by fastforce
  from active_ok_add [OF ok(6) bD(3) act this, of ?x]
  have act': "active_ok ((st s)(b := ?x)) (active_by_hash ?s')" using so by (simp add: s1)
  have held': "held_ok ((st s)(b := ?x)) (held_by_hash ?s')"
    using held_ok_keep [OF ok(7) bD(4), of ?x] so by (simp add: s1)
  have arc: "arc_inv (E(?p := 1)) ?s'"
    by (rule arc_inv_new [OF mid_invD(4) [OF inv] bD(2) len, where n = "primary_inner b h k"])
      (use so os st' in \<open>simp_all add: s1 only_slots_def frame_def\<close>)
  have "MI (X - {b}) R (E(?p := 1)) (dr - of_bool (st s b = Reset) + of_bool (?x = Reset))
      (di - of_bool (inact_hash (st s b) \<noteq> None) + of_bool (inact_hash ?x \<noteq> None))
      (dh - of_bool (held_hash (st s b) \<noteq> None) + of_bool (held_hash ?x \<noteq> None))
      (dm - of_bool (st s b = Mutable) + of_bool (?x = Mutable))
      (\<lambda>i. unbook dp (handles_of (st s b)) i + hcount (handles_of ?x) i) ?s'"
    by (rule MI_slot [OF inv only_slots_frame [OF os] st' cap _ _ _ _ _ _ _ act' held' arc])
      (use so mid_invD(2,3) [OF inv] pools_ok_upd(1) [OF ok(4) bD(1), of ?x] idx in \<open>simp_all add: s1\<close>)
  then have "MI (X - {b}) R (E(?p := 1)) dr (di - of_bool (inact_hash (st s b) \<noteq> None)) dh
      (dm - of_bool (st s b = Mutable)) (\<lambda>i. unbook dp (handles_of (st s b)) i + hcount [k] i) ?s'"
    using bD by simp
  with s2 so os st' show ?thesis by (intro exI [of _ s2] exI [of _ ?s']) (simp add: s1)
qed

lemma resurrect_step:
  assumes inv: "MI X R E dr di dh dm dp s" and b: "b \<in> X" "st s b = Inactive h k"
  shows "\<exists>s'. resurrect_slot h b s = Some (next_ptr s, s')
    \<and> only_slots {b} s s' \<and> st s' = (st s)(b := Primary h k (next_ptr s))
    \<and> inactive s' = inactive s \<and> active_by_hash s' = (active_by_hash s)(h \<mapsto> b)
    \<and> held_by_hash s' = held_by_hash s \<and> inners s' = (inners s)(next_ptr s \<mapsto> primary_inner b h k)
    \<and> next_ptr s' = next_ptr s + 1
    \<and> MI (X - {b}) R (E(next_ptr s := 1)) dr (di - 1) dh dm dp s'"
proof -
  note ok = core_invD [OF mid_invD(1) [OF inv]]
  let ?s1 = "s\<lparr>inners := (inners s)(next_ptr s \<mapsto> primary_inner b h k), next_ptr := next_ptr s + 1\<rparr>"
  have "active_by_hash s h = None"
  proof (rule ccontr)
    assume "active_by_hash s h \<noteq> None"
    then obtain b' where "prim_hash (st s b') = Some h" using active_okD1 [OF ok(6), of h] by auto
    moreover have "inact_hash (st s b) = Some h" using b(2) by simp
    ultimately show False using active_okD2 [OF ok(6)] by blast
  qed
  from become_primary_step [OF inv _ this refl, of b k] b obtain s2 s' where
    s': "set_state b (Primary h k (next_ptr s)) ?s1 = Some s2" "s' = active_by_hash_update (\<lambda>m. m(h \<mapsto> b)) s2"
      "only_slots {b} s s'" "st s' = (st s)(b := Primary h k (next_ptr s))" "inactive s' = inactive s"
      "active_by_hash s' = (active_by_hash s)(h \<mapsto> b)" "held_by_hash s' = held_by_hash s"
      "inners s' = inners ?s1" "next_ptr s' = next_ptr s + 1"
    and inv': "MI (X - {b}) R (E(next_ptr s := 1)) dr (di - 1) dh dm (\<lambda>i. unbook dp [k] i + hcount [k] i) s'"
    by (auto simp: b(2))
  have "(\<lambda>i. unbook dp [k] i + hcount [k] i) = dp" by (simp add: unbook_def)
  then have "MI (X - {b}) R (E(next_ptr s := 1)) dr (di - 1) dh dm dp s'" using inv' by simp
  moreover have "resurrect_slot h b s = Some (next_ptr s, s')"
    using take_inactive_handle_st [OF b(2)] s'(1,2)
    by (simp add: resurrect_slot_def new_primary_def new_inner_def)
  ultimately show ?thesis using s' by simp
qed

text \<open>The hash of a primary is not in the index.\<close>

lemma primary_not_indexed:
  assumes inv: "MI X R E dr di dh dm dp s" and b: "st s b = Primary h k p"
  shows "\<forall>b'. inact_hash (st s b') \<noteq> Some h" "h \<notin> dom (iabs (inactive s))" "b \<notin> ran (iabs (inactive s))" "b \<notin> X"
    "active_by_hash s h = Some b"
proof -
  note ok = core_invD [OF mid_invD(1) [OF inv]]
  have prim: "prim_hash (st s b) = Some h" using b by simp
  show act: "active_by_hash s h = Some b" using active_okD1 [OF ok(6)] prim by simp
  show none: "\<forall>b'. inact_hash (st s b') \<noteq> Some h" using active_okD2 [OF ok(6)] prim by blast
  show "h \<notin> dom (iabs (inactive s))" using none index_okD(1) [OF ok(5)] by (metis domD)
  show "b \<notin> ran (iabs (inactive s))"
  proof
    assume "b \<in> ran (iabs (inactive s))"
    then obtain h' where "iabs (inactive s) h' = Some b" by (auto simp: ran_def)
    then show False using index_okD(1) [OF ok(5), of h' b] b by simp
  qed
  show "b \<notin> X" using index_okD(3) [OF ok(5), of b] b by auto
qed

text \<open>The slot of a dead primary becomes inactive and enters the index; the hash leaves the active map.\<close>

lemma tenure_step:
  assumes inv: "MI X R E dr di dh dm dp s" and b: "st s b = Primary h k p" "inners s p = Some n" "in_strong n = 0"
    and e: "epoch_ok s b"
  shows "\<exists>s2 s'. enter_inactive_tenure_locked ops b h k s = Some s2 \<and> s' = active_by_hash_update (\<lambda>m. m(h := None)) s2
    \<and> only_slots {b} s s' \<and> st s' = (st s)(b := Inactive h k)
    \<and> iabs (inactive s') = (iabs (inactive s))(h \<mapsto> b) \<and> active_by_hash s' = (active_by_hash s)(h := None)
    \<and> held_by_hash s' = held_by_hash s \<and> inners s' = inners s \<and> next_ptr s' = next_ptr s
    \<and> reset_on_release s' = reset_on_release s
    \<and> MI X R E dr (di + 1) dh dm dp s'"
proof -
  note core = mid_invD(1) [OF inv]
  note ok = core_invD [OF core]
  note pn = primary_not_indexed [OF inv b(1)]
  let ?x = "Inactive h k" and ?m = "iabs (inactive s)"
  have len: "b < length (slots s)" and cap: "b < capacity s"
    using core_bounds(1) [OF core, of b] ok(3) [of b] b(1) by simp_all
  have "card (dom ?m) < length (slots s)" by (rule index_card_less [OF core cap]) (simp add: b)
  from insert [OF mid_invD(2,3) [OF inv] this pn(2,3)] obtain i where
    i: "ix_insert ops h b (inactive s) = Some i" "iinv i" "iabs i = ?m(h \<mapsto> b)"
       "\<forall>n. room n (inactive s) \<longrightarrow> room n i" by blast
  let ?sl = "(slots s)[b := (slots s ! b)\<lparr>inactive_epoch := inactive_epoch (slots s ! b) + 1, slot_state := ?x\<rparr>]"
  let ?s2 = "s\<lparr>slots := ?sl, inactive := i\<rparr>" and ?s' = "s\<lparr>slots := ?sl, inactive := i, active_by_hash := (active_by_hash s)(h := None)\<rparr>"
  have run: "enter_inactive_tenure_locked ops b h k s = Some ?s2"
    using len e i(1) by (simp add: enter_inactive_tenure_locked_def set_inactive_tenure_state_locked_def
        index_slot_def assert_that_def epoch_ok_def)
  have os: "only_slots {b} s ?s'" by (simp add: only_slots_def frame_def)
  have st': "st ?s' = (st s)(b := ?x)" using len by (simp add: st_list_update)
  have idx: "index_ok ((st s)(b := ?x)) X (iabs (inactive ?s'))"
    using index_ok_insert [OF index_ok_enter [OF ok(5) _ pn(1), of b ?x], of b h] pn(4) i(3) b(1) by simp
  have act: "active_ok ((st s)(b := ?x)) (active_by_hash ?s')"
    using active_ok_remove [OF ok(6), of b h ?x] b(1) by simp
  have held: "held_ok ((st s)(b := ?x)) (held_by_hash ?s')"
    using held_ok_keep [OF ok(7), of b ?x] b(1) by simp
  have arc: "arc_inv E ?s'"
    by (rule arc_inv_dead_slot [OF mid_invD(4) [OF inv] b, where x = ?x]) (use st' in simp_all)
  have room: "room (length (slots s)) (inactive ?s')" "iinv (inactive ?s')"
    using i(2,4) mid_invD(3) [OF inv] by simp_all
  have "MI X R E (dr - of_bool (st s b = Reset) + of_bool (?x = Reset))
      (di - of_bool (inact_hash (st s b) \<noteq> None) + of_bool (inact_hash ?x \<noteq> None))
      (dh - of_bool (held_hash (st s b) \<noteq> None) + of_bool (held_hash ?x \<noteq> None))
      (dm - of_bool (st s b = Mutable) + of_bool (?x = Mutable))
      (\<lambda>i. unbook dp (handles_of (st s b)) i + hcount (handles_of ?x) i) ?s'"
    by (rule MI_slot [OF inv only_slots_frame [OF os] st' cap _ _ _ _ idx room(2,1) act held arc])
      (use pools_ok_upd(1) [OF ok(4), of b ?x] in \<open>simp_all add: b(1)\<close>)
  then have "MI X R E dr (di + 1) dh dm dp ?s'" by (simp add: b(1) unbook_def)
  with run os st' i(3) show ?thesis by (intro exI [of _ ?s2] exI [of _ ?s']) simp
qed

text \<open>The slot of a dead primary returns to the reset sets; the hash leaves the active map.\<close>

lemma reset_primary_step:
  assumes inv: "MI X R E dr di dh dm dp s" and b: "st s b = Primary h k p" "inners s p = Some n" "in_strong n = 0"
  shows "\<exists>s2 s'. reset_slot_locked b s = Some s2 \<and> s' = active_by_hash_update (\<lambda>m. m(h := None)) s2
    \<and> only_slots {b} s s' \<and> st s' = (st s)(b := Reset)
    \<and> inactive s' = inactive s \<and> active_by_hash s' = (active_by_hash s)(h := None)
    \<and> held_by_hash s' = held_by_hash s \<and> inners s' = inners s \<and> next_ptr s' = next_ptr s
    \<and> reset_on_release s' = reset_on_release s
    \<and> MI X R E dr di dh dm (unbook dp [k]) s'"
proof -
  note core = mid_invD(1) [OF inv]
  note ok = core_invD [OF core]
  note pn = primary_not_indexed [OF inv b(1)]
  have len: "b < length (slots s)" and cap: "b < capacity s"
    using core_bounds(1) [OF core, of b] ok(3) [of b] b(1) by simp_all
  have R: "b \<notin> R" using core_bounds(3) [OF core, of b] b(1) by auto
  from set_state_fields [OF len, of Reset] obtain s1 where s1: "set_state b Reset s = Some s1"
    "only_slots {b} s s1" "st s1 = (st s)(b := Reset)" "reset_on_release s1 = reset_on_release s"
    "slots_only s s1" by blast
  note so = slots_onlyD [OF s1(5)]
  let ?s2 = "active_by_hash_update (\<lambda>m. m(h := None)) s1"
  have os: "only_slots {b} s ?s2" using s1(2) by (simp add: only_slots_def frame_def)
  have st': "st ?s2 = (st s)(b := Reset)" using s1(3) by simp
  have idx: "index_ok ((st s)(b := Reset)) X (iabs (inactive ?s2))"
    using index_ok_keep [OF ok(5), of b Reset] b(1) so by simp
  have act: "active_ok ((st s)(b := Reset)) (active_by_hash ?s2)"
    using active_ok_remove [OF ok(6), of b h Reset] b(1) so by simp
  have held: "held_ok ((st s)(b := Reset)) (held_by_hash ?s2)"
    using held_ok_keep [OF ok(7), of b Reset] b(1) so by simp
  have arc: "arc_inv E ?s2"
    by (rule arc_inv_dead_slot [OF mid_invD(4) [OF inv] b, where x = Reset])
      (use st' so os in \<open>simp_all add: only_slots_def frame_def\<close>)
  have "MI X (insert b R) E (dr + 1) di dh dm (unbook dp [k]) ?s2"
    using MI_slot [OF inv only_slots_frame [OF os] st' cap _ _ _ _ _ _ _ _ _ arc, of "insert b R" X]
      pools_ok_upd(6) [OF ok(4), of b] cap so mid_invD(2,3) [OF inv] idx act held by (simp add: b(1))
  from push_reset_step [OF this, of b] R
  have push: "MI X R E (dr + 1) di dh dm (unbook dp [k]) (push_reset_id_locked b ?s2)"
    and os2: "only_slots {} ?s2 (push_reset_id_locked b ?s2)" by simp_all
  let ?s3 = "inc_reset_pool_size_by 1 (push_reset_id_locked b s1)"
  let ?s' = "active_by_hash_update (\<lambda>m. m(h := None)) ?s3"
  have eq: "?s' = inc_reset_pool_size_by 1 (push_reset_id_locked b ?s2)"
    by (simp add: metrics_defs push_reset_id_locked_def)
  have "MI X R E dr di dh dm (unbook dp [k]) ?s'" unfolding eq mid_inv_book by (rule push)
  moreover have "only_slots {b} s ?s'"
    using only_slots_trans [OF os os2] unfolding eq by (simp add: metrics_defs)
  moreover have "st ?s' = (st s)(b := Reset)" using st' by (simp add: metrics_defs push_reset_id_locked_def)
  moreover have "reset_slot_locked b s = Some ?s3" using s1(1) by (simp add: reset_slot_locked_def)
  ultimately show ?thesis using s1(4) so
    by (intro exI [of _ ?s3] exI [of _ ?s']) (simp add: metrics_defs push_reset_id_locked_def)
qed

end

section \<open>Release\<close>

text \<open>Where the slot of a primary goes when its last reference is dropped.\<close>

definition release_target :: "('h, 'i) block_store \<Rightarrow> 'h block_inner \<Rightarrow> 'h slot_state" where
  "release_target s n = (if reset_on_release s ! in_block_id n then Reset else Inactive (in_seq_hash n) (in_handle n))"

context inactive_index
begin

lemma release_target_unguarded [simp]: "\<not> guarded (release_target s n)"
  by (simp add: release_target_def)

lemma MI_remove_inner:
  assumes inv: "MI X R E dr di dh dm dp s" and p: "inners s p = Some n" "keepers (inners s) p = {}"
    and off: "slot_weak (st s (in_block_id n)) \<noteq> Some p"
  shows "MI X R (ext_add (in_keepalive n) (E(p := 0))) dr di dh dm dp (inners_update (\<lambda>m. m(p := None)) s)"
proof -
  let ?s = "inners_update (\<lambda>m. m(p := None)) s"
  have "arc_inv (ext_add (in_keepalive n) (E(p := 0))) ?s"
    by (rule arc_inv_remove [OF mid_invD(4) [OF inv] p, where x = Reset]) (use off in simp_all)
  moreover have "core_inv iabs X R ?s" using mid_invD(1) [OF inv] by (simp add: core_inv_def)
  moreover have "acct dr di dh dm dp ?s" by (rule acct_cong [OF mid_invD(5) [OF inv]]) simp_all
  ultimately show ?thesis using mid_invD(2,3) [OF inv] by (simp add: mid_inv_def)
qed

text \<open>The slot of a duplicate returns to the reset sets together with its heap entry.\<close>

lemma reset_duplicate_step:
  assumes inv: "MI X R E dr di dh dm dp s" and b: "st s b = Duplicate h k p" "inners s p = Some n"
  shows "\<exists>s2 s'. reset_slot_locked b s = Some s2 \<and> s' = inners_update (\<lambda>m. m(p := None)) s2
    \<and> only_slots {b} s s' \<and> st s' = (st s)(b := Reset)
    \<and> inactive s' = inactive s \<and> active_by_hash s' = active_by_hash s
    \<and> held_by_hash s' = held_by_hash s \<and> next_ptr s' = next_ptr s \<and> inners s2 = inners s
    \<and> reset_on_release s' = reset_on_release s
    \<and> MI X R (ext_add (in_keepalive n) (E(p := 0))) dr di dh dm (unbook dp [k]) s'"
proof -
  note core = mid_invD(1) [OF inv]
  note ok = core_invD [OF core]
  note arc = mid_invD(4) [OF inv]
  have n: "in_block_id n = b" "\<not> in_is_primary n"
    using arc_invD(5) [OF arc, of b p] b by (auto split: if_splits)
  have kp: "keepers (inners s) p = {}" by (rule duplicate_not_kept [OF arc b(2) n(2)])
  have len: "b < length (slots s)" and cap: "b < capacity s"
    using core_bounds(1) [OF core, of b] ok(3) [of b] b(1) by simp_all
  have R: "b \<notin> R" using core_bounds(3) [OF core, of b] b(1) by auto
  from set_state_fields [OF len, of Reset] obtain s1 where s1: "set_state b Reset s = Some s1"
    "only_slots {b} s s1" "st s1 = (st s)(b := Reset)" "reset_on_release s1 = reset_on_release s"
    "slots_only s s1" by blast
  note so = slots_onlyD [OF s1(5)]
  let ?E = "ext_add (in_keepalive n) (E(p := 0))"
  let ?s2 = "inners_update (\<lambda>m. m(p := None)) s1"
  have os: "only_slots {b} s ?s2" using s1(2) by (simp add: only_slots_def frame_def)
  have st': "st ?s2 = (st s)(b := Reset)" using s1(3) by simp
  have arc': "arc_inv ?E ?s2"
    by (rule arc_inv_remove [OF arc b(2) kp, where x = Reset])
      (use st' so os n b(1) in \<open>simp_all add: only_slots_def frame_def\<close>)
  have "MI X (insert b R) ?E (dr + 1) di dh dm (unbook dp [k]) ?s2"
    using MI_slot [OF inv only_slots_frame [OF os] st' cap _ _ _ _ _ _ _ _ _ arc', of "insert b R" X]
      pools_ok_upd(6) [OF ok(4), of b] cap so mid_invD(2,3) [OF inv] index_ok_keep [OF ok(5), of b Reset]
      active_ok_keep [OF ok(6), of b Reset] held_ok_keep [OF ok(7), of b Reset] by (simp add: b(1))
  from push_reset_step [OF this, of b] R
  have push: "MI X R ?E (dr + 1) di dh dm (unbook dp [k]) (push_reset_id_locked b ?s2)"
    and os2: "only_slots {} ?s2 (push_reset_id_locked b ?s2)" by simp_all
  let ?s3 = "inc_reset_pool_size_by 1 (push_reset_id_locked b s1)"
  let ?s' = "inners_update (\<lambda>m. m(p := None)) ?s3"
  have eq: "?s' = inc_reset_pool_size_by 1 (push_reset_id_locked b ?s2)"
    by (simp add: metrics_defs push_reset_id_locked_def)
  have "MI X R ?E dr di dh dm (unbook dp [k]) ?s'" unfolding eq mid_inv_book by (rule push)
  moreover have "only_slots {b} s ?s'"
    using only_slots_trans [OF os os2] unfolding eq by (simp add: metrics_defs)
  moreover have "st ?s' = (st s)(b := Reset)" using st' by (simp add: metrics_defs push_reset_id_locked_def)
  moreover have "reset_slot_locked b s = Some ?s3" using s1(1) by (simp add: reset_slot_locked_def)
  ultimately show ?thesis using s1(4) so
    by (intro exI [of _ ?s3] exI [of _ ?s']) (simp add: metrics_defs push_reset_id_locked_def)
qed

lemma index_reset_flag_ok:
  assumes "MI X R E dr di dh dm dp s" "st s b \<noteq> Reset"
  shows "index_slot s b = Some (slots s ! b)" "slot_state (slots s ! b) = st s b"
    "index_reset_flag s b = Some (reset_on_release s ! b)"
  using st_index [OF refl assms(2)] core_invD(2) [OF mid_invD(1) [OF assms(1)]]
  by (simp_all add: index_reset_flag_def)

lemma MI_mark_absent:
  assumes "MI X R E dr di dh dm (unbook (\<lambda>_. 0) [k]) s"
  shows "MI X R E dr di dh dm (\<lambda>_. 0) (mark_absent k s)"
  using MI_unbook [OF assms] by simp

lemma mark_absent_fields [simp]:
  "slots (mark_absent k s) = slots s" "st (mark_absent k s) = st s"
  "inactive (mark_absent k s) = inactive s" "inners (mark_absent k s) = inners s"
  "active_by_hash (mark_absent k s) = active_by_hash s" "held_by_hash (mark_absent k s) = held_by_hash s"
  "next_ptr (mark_absent k s) = next_ptr s" "frame s' (mark_absent k s) = frame s' s"
  "reset_on_release (mark_absent k s) = reset_on_release s"
  "only_slots B s' (mark_absent k s) = only_slots B s' s"
  by (simp_all add: mark_absent_def frame_def only_slots_def)

lemma release_primary_step:
  assumes inv: "SI E dm s" and p: "inners s p = Some n" "in_is_primary n" "in_strong n = 0"
    and e: "epoch_ok s (in_block_id n)"
  shows "\<exists>s'. release_primary ops p s = Some s' \<and> SI E dm s' \<and> inners s' = inners s \<and> next_ptr s' = next_ptr s
    \<and> only_slots {in_block_id n} s s' \<and> held_by_hash s' = held_by_hash s
    \<and> reset_on_release s' = reset_on_release s
    \<and> st s' = (if slot_weak (st s (in_block_id n)) = Some p
         then (st s)(in_block_id n := release_target s n) else st s)"
proof (cases "slot_weak (st s (in_block_id n)) = Some p")
  case True
  note MI0 = inv [unfolded SI_iff_MI]
  let ?b = "in_block_id n" and ?h = "in_seq_hash n" and ?k = "in_handle n"
  have b: "st s ?b = Primary ?h ?k p"
    using arc_invD(5) [OF mid_invD(4) [OF MI0] True] p(1,2) by auto
  then have ne: "st s ?b \<noteq> Reset" by simp
  note ix = index_reset_flag_ok [OF MI0 ne]
  show ?thesis
  proof (cases "reset_on_release s ! ?b")
    case reset: True
    from reset_primary_step [OF MI0 b p(1,3)] obtain s2 s' where
      s': "reset_slot_locked ?b s = Some s2" "s' = active_by_hash_update (\<lambda>m. m(?h := None)) s2"
        "only_slots {?b} s s'" "st s' = (st s)(?b := Reset)" "held_by_hash s' = held_by_hash s" "inners s' = inners s"
        "next_ptr s' = next_ptr s" "reset_on_release s' = reset_on_release s"
      and inv': "MI {} {} E 0 0 0 dm (unbook (\<lambda>_. 0) [?k]) s'" by blast
    have "release_primary ops p s = Some (mark_absent ?k s')"
      using p(1) ix b reset s'(1,2) by (simp add: release_primary_def)
    moreover have "SI E dm (mark_absent ?k s')" using MI_mark_absent [OF inv'] by (simp add: SI_iff_MI)
    ultimately show ?thesis using s'(3-) b reset by (auto simp: release_target_def)
  next
    case keep: False
    from tenure_step [OF MI0 b p(1,3) e] obtain s2 s' where
      s': "enter_inactive_tenure_locked ops ?b ?h ?k s = Some s2" "s' = active_by_hash_update (\<lambda>m. m(?h := None)) s2"
        "only_slots {?b} s s'" "st s' = (st s)(?b := Inactive ?h ?k)" "held_by_hash s' = held_by_hash s"
        "inners s' = inners s" "next_ptr s' = next_ptr s" "reset_on_release s' = reset_on_release s"
      and inv': "MI {} {} E 0 (0 + 1) 0 dm (\<lambda>_. 0) s'" by blast
    have "release_primary ops p s = Some (inc_inactive_pool_size_by 1 s')"
      using p(1) ix b keep s'(1,2) by (simp add: release_primary_def)
    moreover have "SI E dm (inc_inactive_pool_size_by 1 s')" using inv' by (simp only: SI_iff_MI mid_inv_book)
    ultimately show ?thesis using s'(3-) b keep by (auto simp: release_target_def metrics_defs)
  qed
next
  case False
  note MI0 = inv [unfolded SI_iff_MI]
  let ?s = "metrics_update (release_primary_noop_update (\<lambda>x. x + 1)) s"
  have len: "in_block_id n < length (slots s)" by (rule arc_invD(2) [OF mid_invD(4) [OF MI0] p(1)])
  then have "release_primary ops p s = Some ?s"
    using p(1) False by (cases "st s (in_block_id n)") (auto simp: release_primary_def index_slot_def st_def)
  moreover have "SI E dm ?s" using inv by (simp only: SI_iff_MI mid_inv_book)
  ultimately show ?thesis using False by simp
qed

text \<open>The drop glue of an inner whose last reference is gone.\<close>

lemma inner_drop_step:
  assumes inv: "SI E dm s" and p: "inners s p = Some n" "in_strong n = 0"
    and e: "in_is_primary n \<Longrightarrow> epoch_ok s (in_block_id n)"
  shows "\<exists>s'. inner_drop ops p s = Some (in_keepalive n, s')
    \<and> SI (ext_add (in_keepalive n) (E(p := 0))) dm s' \<and> inners s' = (inners s)(p := None)
    \<and> next_ptr s' = next_ptr s \<and> only_slots {in_block_id n} s s' \<and> held_by_hash s' = held_by_hash s
    \<and> reset_on_release s' = reset_on_release s
    \<and> st s' = (if slot_weak (st s (in_block_id n)) = Some p
         then (st s)(in_block_id n := if in_is_primary n then release_target s n else Reset) else st s)"
proof (cases "in_is_primary n")
  case True
  from release_primary_step [OF inv p(1) True p(2) e [OF True]] obtain s1 where
    s1: "release_primary ops p s = Some s1" "SI E dm s1" "inners s1 = inners s" "next_ptr s1 = next_ptr s"
      "only_slots {in_block_id n} s s1" "held_by_hash s1 = held_by_hash s" "reset_on_release s1 = reset_on_release s"
      "st s1 = (if slot_weak (st s (in_block_id n)) = Some p
         then (st s)(in_block_id n := release_target s n) else st s)" by (elim exE conjE) (rule that)
  have kp: "keepers (inners s1) p = {}"
    using keepers_empty_of_dead(1) [OF mid_invD(4) [OF inv [unfolded SI_iff_MI]] p] s1(3) by simp
  have "slot_weak (st s1 (in_block_id n)) \<noteq> Some p"
    using s1(8) by (auto simp: release_target_def)
  moreover have "inners s1 p = Some n" using p(1) s1(3) by simp
  ultimately have "SI (ext_add (in_keepalive n) (E(p := 0))) dm (inners_update (\<lambda>m. m(p := None)) s1)"
    using MI_remove_inner [OF s1(2) [unfolded SI_iff_MI] _ kp] by (simp add: SI_iff_MI)
  with True p(1) s1 show ?thesis
    by (auto simp: inner_drop_def only_slots_def frame_def)
next
  case False
  note MI0 = inv [unfolded SI_iff_MI]
  let ?b = "in_block_id n"
  have b: "st s ?b = Duplicate (in_seq_hash n) (in_handle n) p"
    using arc_invD(3) [OF mid_invD(4) [OF MI0] p(1)] False by (simp add: inner_ok_def)
  then have ne: "st s ?b \<noteq> Reset" by simp
  note ix = index_reset_flag_ok [OF MI0 ne]
  from reset_duplicate_step [OF MI0 b p(1)] obtain s2 s' where
    s': "reset_slot_locked ?b s = Some s2" "s' = inners_update (\<lambda>m. m(p := None)) s2"
      "only_slots {?b} s s'" "st s' = (st s)(?b := Reset)" "held_by_hash s' = held_by_hash s"
      "next_ptr s' = next_ptr s" "inners s2 = inners s" "reset_on_release s' = reset_on_release s"
    and inv': "MI {} {} (ext_add (in_keepalive n) (E(p := 0))) 0 0 0 dm (unbook (\<lambda>_. 0) [in_handle n]) s'"
    by (elim exE conjE) (rule that)
  have "inner_drop ops p s = Some (in_keepalive n, mark_absent (in_handle n) s')"
    using p(1) False ix b s'(1,2) by (simp add: inner_drop_def release_duplicate_def mark_absent_def)
  moreover have "SI (ext_add (in_keepalive n) (E(p := 0))) dm (mark_absent (in_handle n) s')"
    using MI_mark_absent [OF inv'] by (simp add: SI_iff_MI)
  ultimately show ?thesis using s'(2-8) b False by auto
qed

text \<open>Dropping one reference: nothing happens to the slots unless it was the last.\<close>

lemma drop_shared:
  assumes inv: "SI E dm s" and p: "E p \<noteq> 0" "inners s p = Some n" "in_strong n \<noteq> 1"
  shows "drop_arc_fuel ops (Suc f) p s = Some (set_strong p (in_strong n - 1) s)"
    "SI (E(p := E p - 1)) dm (set_strong p (in_strong n - 1) s)"
proof -
  from MI_drop_ref [OF inv [unfolded SI_iff_MI] p(1)] p(2)
  have dec: "in_strong n \<noteq> 0" "arc_dec p s = Some (set_strong p (in_strong n - 1) s)"
    and inv': "SI (E(p := E p - 1)) dm (set_strong p (in_strong n - 1) s)" by (auto simp: SI_iff_MI)
  show "SI (E(p := E p - 1)) dm (set_strong p (in_strong n - 1) s)" by (rule inv')
  show "drop_arc_fuel ops (Suc f) p s = Some (set_strong p (in_strong n - 1) s)"
    using dec p(2,3) by (simp add: set_strong_lookup [OF p(2)])
qed

lemma drop_last:
  assumes inv: "SI E dm s" and p: "E p \<noteq> 0" "inners s p = Some n" "in_strong n = 1"
    and e: "in_is_primary n \<Longrightarrow> epoch_ok s (in_block_id n)"
  shows "\<exists>s1. drop_arc_fuel ops (Suc f) p s
        = (case in_keepalive n of None \<Rightarrow> Some s1 | Some q \<Rightarrow> drop_arc_fuel ops f q s1)
    \<and> SI (ext_add (in_keepalive n) (E(p := 0))) dm s1 \<and> inners s1 = (inners s)(p := None)
    \<and> E p = 1 \<and> next_ptr s1 = next_ptr s \<and> only_slots {in_block_id n} s s1 \<and> held_by_hash s1 = held_by_hash s
    \<and> reset_on_release s1 = reset_on_release s
    \<and> st s1 = (st s)(in_block_id n := if in_is_primary n then release_target s n else Reset)"
proof -
  note MI0 = inv [unfolded SI_iff_MI]
  let ?s = "set_strong p 0 s" and ?n = "n\<lparr>in_strong := 0\<rparr>"
  from MI_drop_ref [OF MI0 p(1)] p(2,3)
  have dec: "arc_dec p s = Some ?s" and inv': "SI (E(p := E p - 1)) dm ?s" by (auto simp: SI_iff_MI)
  have E: "E p = 1" using arc_invD(4) [OF mid_invD(4) [OF MI0] p(2)] p(1,3) by linarith
  have look: "inners ?s p = Some ?n" by (simp add: set_strong_lookup [OF p(2)])
  have w: "slot_weak (st ?s (in_block_id n)) = Some p"
    using arc_invD(3) [OF mid_invD(4) [OF MI0] p(2)] p(3) by (auto simp: inner_ok_def split: if_splits)
  from inner_drop_step [OF inv' look] e obtain s1 where
    s1: "inner_drop ops p ?s = Some (in_keepalive n, s1)"
      "SI (ext_add (in_keepalive n) (E(p := E p - 1, p := 0))) dm s1" "inners s1 = (inners ?s)(p := None)"
      "next_ptr s1 = next_ptr ?s" "only_slots {in_block_id n} ?s s1" "held_by_hash s1 = held_by_hash ?s"
      "reset_on_release s1 = reset_on_release ?s"
      "st s1 = (if slot_weak (st ?s (in_block_id n)) = Some p
         then (st ?s)(in_block_id n := if in_is_primary n then release_target ?s ?n else Reset) else st ?s)"
    by (auto simp: epoch_ok_def)
  have "inners s1 = (inners s)(p := None)" using s1(3) by (simp add: set_strong_def)
  moreover have "only_slots {in_block_id n} s s1" using s1(5) by (simp add: only_slots_def frame_def set_strong_def)
  moreover have "st s1 = (st s)(in_block_id n := if in_is_primary n then release_target s n else Reset)"
    using s1(8) w by (simp add: release_target_def)
  moreover have "drop_arc_fuel ops (Suc f) p s
      = (case in_keepalive n of None \<Rightarrow> Some s1 | Some q \<Rightarrow> drop_arc_fuel ops f q s1)"
    using dec look s1(1) by simp
  ultimately show ?thesis using s1(2,4,6,7) E by auto
qed

lemma drop_primary:
  assumes inv: "SI E dm s" and p: "E p \<noteq> 0" "inners s p = Some n" "in_is_primary n"
    and e: "epoch_ok s (in_block_id n)"
  shows "\<exists>s'. drop_arc_fuel ops (Suc f) p s = Some s' \<and> SI (E(p := E p - 1)) dm s'
    \<and> inners s' = (inners s)(p := if in_strong n = 1 then None else Some (n\<lparr>in_strong := in_strong n - 1\<rparr>))
    \<and> next_ptr s' = next_ptr s \<and> only_slots {in_block_id n} s s' \<and> held_by_hash s' = held_by_hash s
    \<and> reset_on_release s' = reset_on_release s
    \<and> st s' = (if in_strong n = 1 then (st s)(in_block_id n := release_target s n) else st s)"
proof (cases "in_strong n = 1")
  case True
  have ka: "in_keepalive n = None"
    using arc_invD(3) [OF mid_invD(4) [OF inv [unfolded SI_iff_MI]] p(2)] p(3) by (simp add: inner_ok_def)
  from drop_last [OF inv p(1,2) True e, of f] ka p(3) obtain s1 where
    "drop_arc_fuel ops (Suc f) p s = Some s1" "SI (E(p := 0)) dm s1" "inners s1 = (inners s)(p := None)"
    "E p = 1" "next_ptr s1 = next_ptr s" "only_slots {in_block_id n} s s1" "held_by_hash s1 = held_by_hash s"
    "reset_on_release s1 = reset_on_release s" "st s1 = (st s)(in_block_id n := release_target s n)"
    by (auto simp: ext_add_def)
  with True show ?thesis by auto
next
  case False
  note ds = drop_shared(1) [OF inv p(1,2) False, of f] drop_shared(2) [OF inv p(1,2) False]
  have "inners (set_strong p (in_strong n - 1) s) = (inners s)(p := Some (n\<lparr>in_strong := in_strong n - 1\<rparr>))"
    by (rule ext) (simp add: set_strong_lookup [OF p(2)])
  with ds False show ?thesis by auto
qed

lemma drop_duplicate:
  assumes inv: "SI E dm s" and p: "E p \<noteq> 0" "inners s p = Some n" "\<not> in_is_primary n"
    and q: "in_keepalive n = Some q" "inners s q = Some m" and e: "epoch_ok s (in_block_id m)"
  shows "\<exists>s'. drop_arc_fuel ops (Suc (Suc f)) p s = Some s' \<and> SI (E(p := E p - 1)) dm s' \<and> frame s s'
    \<and> only_slots {in_block_id n, in_block_id m} s s' \<and> held_by_hash s' = held_by_hash s
    \<and> st s' = (if in_strong n \<noteq> 1 then st s
         else if in_strong m \<noteq> 1 then (st s)(in_block_id n := Reset)
         else (st s)(in_block_id n := Reset, in_block_id m := release_target s m))"
proof (cases "in_strong n = 1")
  case False
  note ds = drop_shared(1) [OF inv p(1,2) False, of "Suc f"] drop_shared(2) [OF inv p(1,2) False]
  have "only_slots {in_block_id n, in_block_id m} s (set_strong p (in_strong n - 1) s)"
    by simp
  with ds False show ?thesis by auto
next
  case True
  note MI0 = inv [unfolded SI_iff_MI]
  note arc = mid_invD(4) [OF MI0]
  from drop_last [OF inv p(1,2) True, of "Suc f"] p(3) q(1) obtain s1 where
    s1: "drop_arc_fuel ops (Suc (Suc f)) p s = drop_arc_fuel ops (Suc f) q s1"
      "SI (ext_add (Some q) (E(p := 0))) dm s1" "inners s1 = (inners s)(p := None)"
      "E p = 1" "only_slots {in_block_id n} s s1" "held_by_hash s1 = held_by_hash s"
      "reset_on_release s1 = reset_on_release s" "st s1 = (st s)(in_block_id n := Reset)"
    by auto
  have prim: "in_is_primary m" using arc_invD(3) [OF arc p(2)] p(3) q by (auto simp: inner_ok_def)
  have ne: "q \<noteq> p" using prim p(2,3) q(2) by auto
  have strong: "in_strong m \<noteq> 0"
  proof -
    have "p \<in> keepers (inners s) q" using p(2) q(1) by (auto simp: keepers_def)
    then have "card (keepers (inners s) q) \<noteq> 0" using finite_keepers [OF arc] by auto
    then show ?thesis using arc_invD(4) [OF arc q(2)] by simp
  qed
  have bne: "in_block_id m \<noteq> in_block_id n"
    using arc_invD(3) [OF arc p(2)] arc_invD(3) [OF arc q(2)] p(3) prim strong by (auto simp: inner_ok_def)
  have look: "inners s1 q = Some m" using q(2) ne s1(3) by simp
  have e1: "epoch_ok s1 (in_block_id m)" using e only_slots_counters(2) [OF s1(5)] bne by simp
  have "ext_add (Some q) (E(p := 0)) q \<noteq> 0" by (simp add: ext_add_def)
  from drop_primary [OF s1(2) this look prim e1, of f] obtain s' where
    s': "drop_arc_fuel ops (Suc f) q s1 = Some s'"
      "SI ((ext_add (Some q) (E(p := 0)))(q := ext_add (Some q) (E(p := 0)) q - 1)) dm s'"
      "only_slots {in_block_id m} s1 s'" "held_by_hash s' = held_by_hash s1"
      "st s' = (if in_strong m = 1 then (st s1)(in_block_id m := release_target s1 m) else st s1)" by blast
  have "(ext_add (Some q) (E(p := 0)))(q := ext_add (Some q) (E(p := 0)) q - 1) = E(p := 0)"
    using ne by (auto simp: ext_add_def)
  then have "SI (E(p := E p - 1)) dm s'" using s'(2) s1(4) by simp
  moreover have os: "only_slots {in_block_id n, in_block_id m} s s'"
    using only_slots_trans [OF s1(5) s'(3)] by (simp add: insert_commute)
  moreover have "release_target s1 m = release_target s m" by (simp add: release_target_def s1(7))
  ultimately show ?thesis
    using s1(1,6,8) s'(1,4,5) True only_slots_frame [OF os] by auto
qed

text \<open>The drop of any reference returns and keeps the invariant.\<close>

lemma drop_arc_step:
  assumes inv: "SI E dm s" and p: "E p \<noteq> 0" and e: "\<forall>b < length (slots s). epoch_ok s b"
  shows "\<exists>s'. drop_arc ops p s = Some s' \<and> SI (E(p := E p - 1)) dm s' \<and> frame s s' \<and> held_by_hash s' = held_by_hash s
    \<and> keeps_guards {} s s'"
proof -
  note MI0 = inv [unfolded SI_iff_MI]
  note arc = mid_invD(4) [OF MI0]
  have off: "\<not> guarded (st s (in_block_id n))" if "inners s p = Some n" "in_strong n \<noteq> 0" for p n
    using arc_invD(3) [OF arc that(1)] that(2) by (auto simp: inner_ok_def split: if_splits)
  from p arc_invD(6) [OF arc, of p] obtain n where n: "inners s p = Some n" by fastforce
  note pb = arc_invD(1) [OF arc n] and len = arc_invD(2) [OF arc n]
  show ?thesis
  proof (cases "in_is_primary n")
    case True
    from pb obtain f where "next_ptr s = Suc f" by (cases "next_ptr s") auto
    moreover from drop_primary [OF inv p n True, of f] e len obtain s' where
      "drop_arc_fuel ops (Suc f) p s = Some s'" "SI (E(p := E p - 1)) dm s'" "only_slots {in_block_id n} s s'"
      "held_by_hash s' = held_by_hash s"
      "st s' = (if in_strong n = 1 then (st s)(in_block_id n := release_target s n) else st s)" by blast
    moreover from this(5) have "keeps_guards {} s s'" using off [OF n] by (auto simp: keeps_guards_def)
    ultimately show ?thesis by (auto simp: drop_arc_def only_slots_def)
  next
    case False
    then obtain q m where q: "in_keepalive n = Some q" "inners s q = Some m" "in_is_primary m"
      using arc_invD(3) [OF arc n] by (auto simp: inner_ok_def)
    have "q \<noteq> p" using q n False by auto
    with pb arc_invD(1) [OF arc q(2)] have "2 \<le> next_ptr s" by linarith
    then obtain f where "next_ptr s = Suc (Suc f)" by (metis Suc_le_D numeral_2_eq_2 Suc_le_mono)
    moreover from drop_duplicate [OF inv p n False q(1,2), of f] e arc_invD(2) [OF arc q(2)] obtain s' where
      "drop_arc_fuel ops (Suc (Suc f)) p s = Some s'" "SI (E(p := E p - 1)) dm s'" "frame s s'"
      "held_by_hash s' = held_by_hash s"
      "st s' = (if in_strong n \<noteq> 1 then st s
         else if in_strong m \<noteq> 1 then (st s)(in_block_id n := Reset)
         else (st s)(in_block_id n := Reset, in_block_id m := release_target s m))" by blast
    moreover from this(5) have "keeps_guards {} s s'" using off [OF n] off [OF q(2)] by (auto simp: keeps_guards_def)
    ultimately show ?thesis by (auto simp: drop_arc_def)
  qed
qed

end

end
