(* ===== verification/Block_Store_Lookup.thy ===== *)
theory Block_Store_Lookup
  imports Block_Store_Life
begin

text \<open>
  Lookup by hash and registration: the active path, the eager transition of a primary whose last
  reference is gone but whose drop has not run yet, the resurrection of an inactive block, and the
  registration of completed blocks on top of them.
\<close>

section \<open>Pending drops\<close>

text \<open>The slots whose epoch a lookup may have to advance: primaries without a reference.\<close>

definition dead_ok :: "('h, 'i) block_store \<Rightarrow> bool" where
  "dead_ok s \<longleftrightarrow> (\<forall>b h k p. st s b = Primary h k p \<longrightarrow> \<not> live s p \<longrightarrow> epoch_ok s b)"

lemma dead_okI: "\<forall>b < length (slots s). epoch_ok s b \<Longrightarrow> dead_ok s"
  unfolding dead_ok_def using st_index(1) by (metis slot_state.distinct(5))

section \<open>Lookup\<close>

text \<open>What a lookup that found \<open>h\<close> has done: slot \<open>b\<close> is primary under the live pointer \<open>p\<close>, and the
  caller holds one more reference to it.\<close>

definition acquired :: "('h, 'i) block_store \<Rightarrow> 'h \<Rightarrow> block_id \<Rightarrow> nat \<Rightarrow> ('h, 'i) block_store \<Rightarrow> bool" where
  "acquired s h b p s' \<longleftrightarrow> only_slots {b} s s' \<and> held_by_hash s' = held_by_hash s
     \<and> (\<exists>k n. ((\<exists>q. st s b = Primary h k q) \<or> st s b = Inactive h k) \<and> st s' = (st s)(b := Primary h k p)
          \<and> inners s' p = Some n \<and> in_block_id n = b \<and> in_is_primary n \<and> in_strong n \<noteq> 0
          \<and> in_seq_hash n = h \<and> in_handle n = k)
     \<and> (\<forall>q. q \<noteq> p \<longrightarrow> inners s' q = inners s q)
     \<and> (\<forall>m. inners s p = Some m \<longrightarrow> in_seq_hash m = h \<and> in_is_primary m \<and> in_block_id m = b \<and> in_strong m \<noteq> 0)"

text \<open>Heap entries keep what they describe; only counts change and entries are added.\<close>

definition dead_ptrs :: "('h, 'i) block_store \<Rightarrow> nat set" where
  "dead_ptrs s = {p. \<exists>n. inners s p = Some n \<and> in_strong n = 0}"

lemma dead_ptrs_cong: "inners s' = inners s \<Longrightarrow> dead_ptrs s' = dead_ptrs s"
  by (simp add: dead_ptrs_def)

lemma dead_ptrs_new:
  "inners s' = (inners s)(p \<mapsto> n) \<Longrightarrow> inners s p = None \<Longrightarrow> in_strong n \<noteq> 0 \<Longrightarrow> dead_ptrs s' = dead_ptrs s"
  by (auto simp: dead_ptrs_def)

definition inners_kept :: "('h, 'i) block_store \<Rightarrow> ('h, 'i) block_store \<Rightarrow> bool" where
  "inners_kept s s' \<longleftrightarrow> (\<forall>p n. inners s p = Some n \<longrightarrow> (\<exists>n'. inners s' p = Some n'
     \<and> in_seq_hash n' = in_seq_hash n \<and> in_is_primary n' = in_is_primary n \<and> in_block_id n' = in_block_id n))
     \<and> dead_ptrs s' = dead_ptrs s"

lemma inners_kept_refl: "inners s' = inners s \<Longrightarrow> inners_kept s s'"
  by (simp add: inners_kept_def dead_ptrs_def)

lemma inners_kept_cong:
  assumes "inners_kept s s'" "inners s1 = inners s" "inners s1' = inners s'"
  shows "inners_kept s1 s1'"
  using assms(1) unfolding inners_kept_def dead_ptrs_def assms(2,3) .

lemma inners_kept_new:
  "inners s' = (inners s)(p \<mapsto> n) \<Longrightarrow> inners s p = None \<Longrightarrow> in_strong n \<noteq> 0 \<Longrightarrow> inners_kept s s'"
  using dead_ptrs_new [of s' s p n] by (auto simp: inners_kept_def)

lemma inners_kept_trans:
  assumes "inners_kept s s'" "inners_kept s' s''"
  shows "inners_kept s s''"
  unfolding inners_kept_def
proof (intro conjI allI impI)
  show "dead_ptrs s'' = dead_ptrs s" using assms by (simp add: inners_kept_def)
next
  fix p n assume "inners s p = Some n"
  with assms(1) obtain m where m: "inners s' p = Some m" "in_seq_hash m = in_seq_hash n"
    "in_is_primary m = in_is_primary n" "in_block_id m = in_block_id n" unfolding inners_kept_def by blast
  with assms(2) obtain k where "inners s'' p = Some k" "in_seq_hash k = in_seq_hash m"
    "in_is_primary k = in_is_primary m" "in_block_id k = in_block_id m" unfolding inners_kept_def by blast
  with m show "\<exists>k. inners s'' p = Some k \<and> in_seq_hash k = in_seq_hash n \<and> in_is_primary k = in_is_primary n
      \<and> in_block_id k = in_block_id n" by simp
qed

lemma acquired_inners_kept:
  assumes "acquired s h b p s'"
  shows "inners_kept s s'"
  unfolding inners_kept_def
proof (intro conjI allI impI)
  from assms obtain n where n: "inners s' p = Some n" "in_strong n \<noteq> 0" unfolding acquired_def by blast
  have p: "in_strong m \<noteq> 0" if "inners s p = Some m" for m using assms that unfolding acquired_def by blast
  have "q \<in> dead_ptrs s' \<longleftrightarrow> q \<in> dead_ptrs s" for q
  proof (cases "q = p")
    case True
    with n p show ?thesis by (auto simp: dead_ptrs_def)
  next
    case False
    with assms have "inners s' q = inners s q" unfolding acquired_def by blast
    then show ?thesis by (simp add: dead_ptrs_def)
  qed
  then show "dead_ptrs s' = dead_ptrs s" by blast
next
  fix q m assume q: "inners s q = Some m"
  show "\<exists>n'. inners s' q = Some n' \<and> in_seq_hash n' = in_seq_hash m \<and> in_is_primary n' = in_is_primary m
      \<and> in_block_id n' = in_block_id m"
  proof (cases "q = p")
    case True
    from assms obtain n where n: "inners s' p = Some n" "in_block_id n = b" "in_is_primary n" "in_seq_hash n = h"
      unfolding acquired_def by blast
    from assms q True have "in_seq_hash m = h" "in_is_primary m" "in_block_id m = b"
      unfolding acquired_def by blast+
    with n True show ?thesis by simp
  next
    case False
    with assms have "inners s' q = inners s q" unfolding acquired_def by blast
    with q show ?thesis by simp
  qed
qed

text \<open>A hash is registered when an active or an inactive slot carries it, and visible to lookups
  unless it is held.\<close>

definition registered :: "('h, 'i) block_store \<Rightarrow> 'h \<Rightarrow> bool" where
  "registered s h \<longleftrightarrow> (\<exists>b. prim_hash (st s b) = Some h \<or> inact_hash (st s b) = Some h)"

definition visible :: "('h, 'i) block_store \<Rightarrow> 'h \<Rightarrow> bool" where
  "visible s h \<longleftrightarrow> held_by_hash s h = None \<and> registered s h"

lemma acquired_registered:
  assumes "acquired s h b p s'"
  shows "registered s' h' = registered s h'"
proof -
  from assms obtain k where k: "(\<exists>q. st s b = Primary h k q) \<or> st s b = Inactive h k"
    "st s' = (st s)(b := Primary h k p)" unfolding acquired_def by blast
  have "(prim_hash (st s' b') = Some h' \<or> inact_hash (st s' b') = Some h')
      = (prim_hash (st s b') = Some h' \<or> inact_hash (st s b') = Some h')" for b'
    using k by (cases "b' = b") auto
  then show ?thesis by (simp add: registered_def)
qed

lemma acquired_keeps_guards:
  assumes "acquired s h b p s'"
  shows "keeps_guards {} s s'"
proof -
  from assms obtain k where "(\<exists>q. st s b = Primary h k q) \<or> st s b = Inactive h k"
    and st': "st s' = (st s)(b := Primary h k p)"
    unfolding acquired_def by (elim exE conjE) (rule that)
  then have "\<not> guarded (st s b)" by auto
  then show ?thesis by (simp add: keeps_guards_def st')
qed

lemma acquired_visible: "acquired s h b p s' \<Longrightarrow> visible s' h' = visible s h'"
  using acquired_registered [of s h b p s' h'] by (simp add: visible_def acquired_def)

text \<open>A pointer to a primary for a hash.\<close>

definition serves :: "('h, 'i) block_store \<Rightarrow> 'h \<Rightarrow> nat \<Rightarrow> bool" where
  "serves s h p \<longleftrightarrow> (\<exists>n. inners s p = Some n \<and> in_seq_hash n = h \<and> in_is_primary n)"

lemma serves_kept: "inners_kept s s' \<Longrightarrow> serves s h p \<Longrightarrow> serves s' h p"
  unfolding inners_kept_def serves_def by blast

lemma acquired_serves: "acquired s h b p s' \<Longrightarrow> serves s' h p"
  unfolding acquired_def serves_def by blast

text \<open>References handed to a caller.\<close>

definition add_refs :: "nat list \<Rightarrow> (nat \<Rightarrow> nat) \<Rightarrow> nat \<Rightarrow> nat" where
  "add_refs ps E = (\<lambda>p. E p + count_list ps p)"

lemma add_refs_simps [simp]:
  "add_refs [] E = E" "add_refs (p # ps) E = add_refs ps (E(p := E p + 1))"
  by (auto simp: add_refs_def)

text \<open>What the index lookups return, in terms of the map.\<close>

lemma map_find_matches_all:
  "distinct hs \<Longrightarrow> set hs \<subseteq> dom m \<Longrightarrow> map fst (fst (map_find_matches hs m)) = hs"
proof (induction hs arbitrary: m)
  case (Cons h hs)
  then obtain b where "m h = Some b" by auto
  moreover have "map fst (fst (map_find_matches hs (m(h := None)))) = hs"
    by (rule Cons.IH) (use Cons.prems in auto)
  ultimately show ?case by (simp add: split_beta)
qed simp

lemma map_scan_matches_set:
  "set (map fst (fst (map_scan_matches hs m))) = set hs \<inter> dom m"
proof (induction hs arbitrary: m)
  case (Cons h hs)
  show ?case
  proof (cases "m h")
    case None
    with Cons.IH [of m] show ?thesis by auto
  next
    case (Some b)
    have "set (map fst (fst (map_scan_matches hs (m(h := None))))) = set hs \<inter> dom (m(h := None))"
      by (rule Cons.IH)
    with Some show ?thesis by (auto simp: split_beta)
  qed
qed simp

context inactive_index
begin

abbreviation LI where "LI E dm dp s \<equiv> MI {} {} E 0 0 0 dm dp s"

lemma slot_pointer:
  assumes "MI X R E dr di dh dm dp s" "st s b = Primary h k p"
  shows "\<exists>n. inners s p = Some n \<and> in_block_id n = b \<and> in_is_primary n \<and> in_seq_hash n = h \<and> in_handle n = k"
  using arc_invD(5) [OF mid_invD(4) [OF assms(1)], of b p] assms(2) by (auto split: if_splits)

lemma eager_step:
  assumes inv: "MI X R E dr di dh dm dp s" and b: "st s b = Primary h k p" "\<not> live s p" and e: "epoch_ok s b"
  shows "\<exists>s'. eager_primary_to_inactive_locked ops h b s = Some s' \<and> only_slots {b} s s'
    \<and> st s' = (st s)(b := Inactive h k) \<and> iabs (inactive s') = (iabs (inactive s))(h \<mapsto> b)
    \<and> active_by_hash s' = (active_by_hash s)(h := None) \<and> held_by_hash s' = held_by_hash s
    \<and> inners s' = inners s \<and> next_ptr s' = next_ptr s \<and> MI X R E dr di dh dm dp s'"
proof -
  from slot_pointer [OF inv b(1)] obtain n where n: "inners s p = Some n" by blast
  with b(2) have "in_strong n = 0" by (simp add: live_def)
  from tenure_step [OF inv b(1) n this e] obtain s2 s1 where
    s1: "enter_inactive_tenure_locked ops b h k s = Some s2" "s1 = active_by_hash_update (\<lambda>m. m(h := None)) s2"
      "only_slots {b} s s1" "st s1 = (st s)(b := Inactive h k)" "iabs (inactive s1) = (iabs (inactive s))(h \<mapsto> b)"
      "active_by_hash s1 = (active_by_hash s)(h := None)" "held_by_hash s1 = held_by_hash s"
      "inners s1 = inners s" "next_ptr s1 = next_ptr s" "MI X R E dr (di + 1) dh dm dp s1"
    by (elim exE conjE) (rule that)
  let ?s' = "metrics_update (eager_primary_to_inactive_update (\<lambda>x. x + 1)) (inc_inactive_pool_size_by 1 s1)"
  have ne: "st s b \<noteq> Reset" using b(1) by simp
  have "eager_primary_to_inactive_locked ops h b s = Some ?s'"
    using index_reset_flag_ok(1,2) [OF inv ne] b(1) s1(1,2) by (simp add: eager_primary_to_inactive_locked_def)
  moreover have "MI X R E dr di dh dm dp ?s'" unfolding mid_inv_book by (rule s1(10))
  ultimately show ?thesis using s1(3-9) by (simp add: metrics_defs)
qed

text \<open>The inactive path of a lookup.\<close>

lemma find_miss:
  assumes inv: "LI E dm dp s" and none: "iabs (inactive s) h = None"
  shows "\<exists>i. ix_find_match ops h touch (inactive s) = Some (None, i) \<and> iabs i = iabs (inactive s)
    \<and> LI E dm dp (s\<lparr>inactive := i\<rparr>)"
proof -
  note ok = core_invD [OF mid_invD(1) [OF inv]]
  from find_match [OF mid_invD(2) [OF inv], of h touch] none obtain i where
    i: "ix_find_match ops h touch (inactive s) = Some (None, i)" "iinv i"
      "iabs i = (iabs (inactive s))(h := None)" "\<forall>n. room n (inactive s) \<longrightarrow> room n i" by auto
  have eq: "iabs i = iabs (inactive s)" using i(3) none by auto
  have "LI E dm dp (s\<lparr>inactive := i\<rparr>)"
    by (rule MI_index [OF inv _ i(2)]) (use ok(5) eq i(4) mid_invD(3) [OF inv] in simp_all)
  with i(1) eq show ?thesis by blast
qed

lemma find_hit:
  assumes inv: "LI E dm dp s" and b: "st s b = Inactive h k"
  shows "\<exists>i s'. ix_find_match ops h touch (inactive s) = Some (Some (h, b), i)
    \<and> resurrect_slot h b (dec_inactive_pool_size_by 1 (s\<lparr>inactive := i\<rparr>)) = Some (next_ptr s, s')
    \<and> acquired s h b (next_ptr s) s' \<and> E (next_ptr s) = 0 \<and> LI (E(next_ptr s := E (next_ptr s) + 1)) dm dp s'"
proof -
  note ok = core_invD [OF mid_invD(1) [OF inv]]
  have hit: "iabs (inactive s) h = Some b" using index_okD(1) [OF ok(5), of h b] b by simp
  from find_match [OF mid_invD(2) [OF inv], of h touch] hit obtain i where
    i: "ix_find_match ops h touch (inactive s) = Some (Some (h, b), i)" "iinv i"
      "iabs i = (iabs (inactive s))(h := None)" "\<forall>n. room n (inactive s) \<longrightarrow> room n i" by auto
  have "extracts (iabs (inactive s)) [(h, b)] (iabs i)" using hit i(3) by (simp add: extracts_Cons)
  from extract_step [OF inv this i(2,4)]
  have "MI {b} {} E 0 0 0 dm dp (s\<lparr>inactive := i\<rparr>)" by simp
  then have inv1: "MI {b} {} E 0 (0 + 1) 0 dm dp (dec_inactive_pool_size_by 1 (s\<lparr>inactive := i\<rparr>))"
    unfolding mid_inv_book by simp
  let ?s = "dec_inactive_pool_size_by 1 (s\<lparr>inactive := i\<rparr>)"
  have np: "next_ptr ?s = next_ptr s" by (simp add: metrics_defs)
  have "st ?s b = Inactive h k" using b by simp
  from resurrect_step [OF inv1 singletonI this] obtain s' where
    s': "resurrect_slot h b ?s = Some (next_ptr s, s')" "only_slots {b} ?s s'"
      "st s' = (st ?s)(b := Primary h k (next_ptr s))" "held_by_hash s' = held_by_hash ?s"
      "inners s' = (inners ?s)(next_ptr s \<mapsto> primary_inner b h k)"
      "MI ({b} - {b}) {} (E(next_ptr s := 1)) 0 (0 + 1 - 1) 0 dm dp s'"
    unfolding np by blast
  have E0: "E (next_ptr s) = 0" by (rule fresh_ptr(2) [OF mid_invD(4) [OF inv]])
  have "only_slots {b} s s'" using s'(2) by (simp add: only_slots_def frame_def metrics_defs)
  then have "acquired s h b (next_ptr s) s'"
    using s'(3,4,5) b fresh_ptr(1) [OF mid_invD(4) [OF inv]] by (simp add: acquired_def metrics_defs)
  moreover have "LI (E(next_ptr s := E (next_ptr s) + 1)) dm dp s'" using s'(6) E0 by simp
  ultimately show ?thesis using i(1) s'(1) E0 by blast
qed

text \<open>The complete lookup.\<close>

lemma acquire_miss:
  assumes inv: "LI E dm dp s" and none: "active_by_hash s h = None" "iabs (inactive s) h = None"
  shows "\<exists>i. acquire_registered_for_hash_locked ops h touch s = Some (None, s\<lparr>inactive := i\<rparr>)
    \<and> iabs i = iabs (inactive s) \<and> LI E dm dp (s\<lparr>inactive := i\<rparr>)"
  using find_miss [OF inv none(2), of touch] none(1)
  by (auto simp: acquire_registered_for_hash_locked_def)

lemma acquire_inactive:
  assumes inv: "LI E dm dp s" and none: "active_by_hash s h = None" and b: "iabs (inactive s) h = Some b"
  shows "\<exists>p s'. acquire_registered_for_hash_locked ops h touch s = Some (Some p, s')
    \<and> acquired s h b p s' \<and> LI (E(p := E p + 1)) dm dp s'"
proof -
  note ok = core_invD [OF mid_invD(1) [OF inv]]
  from b index_okD(1) [OF ok(5), of h b] obtain k where k: "st s b = Inactive h k" by (auto simp: inact_hash_Some)
  from find_hit [OF inv k, of touch] none show ?thesis
    by (auto simp: acquire_registered_for_hash_locked_def)
qed

lemma acquire_active:
  assumes inv: "LI E dm dp s" and b: "active_by_hash s h = Some b" and dead: "dead_ok s"
  shows "\<exists>p s'. acquire_registered_for_hash_locked ops h touch s = Some (Some p, s')
    \<and> acquired s h b p s' \<and> LI (E(p := E p + 1)) dm dp s'"
proof -
  note ok = core_invD [OF mid_invD(1) [OF inv]]
  from b active_okD1 [OF ok(6), of h b] obtain k w where w: "st s b = Primary h k w" by (auto simp: prim_hash_Some)
  then have ne: "st s b \<noteq> Reset" by simp
  note ix = index_reset_flag_ok(1,2) [OF inv ne]
  from slot_pointer [OF inv w] obtain n where
    n: "inners s w = Some n" "in_block_id n = b" "in_is_primary n" "in_seq_hash n = h" "in_handle n = k" by blast
  show ?thesis
  proof (cases "live s w")
    case True
    from weak_upgrade_live [OF inv True] n(1) have
      up: "weak_upgrade w s = (Some w, set_strong w (in_strong n + 1) s)"
        "LI (E(w := E w + 1)) dm dp (set_strong w (in_strong n + 1) s)" by auto
    have "acquired s h b w (set_strong w (in_strong n + 1) s)"
      using w n True by (auto simp: acquired_def live_def set_strong_lookup [OF n(1)])
    with up b ix w show ?thesis by (auto simp: acquire_registered_for_hash_locked_def)
  next
    case False
    have e: "epoch_ok s b" using dead w False by (auto simp: dead_ok_def)
    from eager_step [OF inv w False e] obtain s1 where
      s1: "eager_primary_to_inactive_locked ops h b s = Some s1" "only_slots {b} s s1"
        "st s1 = (st s)(b := Inactive h k)" "held_by_hash s1 = held_by_hash s" "inners s1 = inners s"
        "next_ptr s1 = next_ptr s" "LI E dm dp s1" by blast
    have "st s1 b = Inactive h k" by (simp add: s1(3))
    from find_hit [OF s1(7) this, of touch] obtain i s' where
      s': "ix_find_match ops h touch (inactive s1) = Some (Some (h, b), i)"
        "resurrect_slot h b (dec_inactive_pool_size_by 1 (s1\<lparr>inactive := i\<rparr>)) = Some (next_ptr s1, s')"
        "acquired s1 h b (next_ptr s1) s'" "LI (E(next_ptr s1 := E (next_ptr s1) + 1)) dm dp s'" by blast
    have "acquired s h b (next_ptr s1) s'"
      using s'(3) only_slots_trans [OF s1(2)] w s1(3,4,5) by (fastforce simp: acquired_def)
    moreover have "acquire_registered_for_hash_locked ops h touch s = Some (Some (next_ptr s1), s')"
      using b ix w weak_upgrade_dead [OF False] s1(1) s'(1,2)
      by (simp add: acquire_registered_for_hash_locked_def)
    ultimately show ?thesis using s'(4) by blast
  qed
qed

lemma acquired_dead_ok:
  assumes inv: "LI E dm dp s" and acq: "acquired s h b p s'" and dead: "dead_ok s"
  shows "dead_ok s'"
  unfolding dead_ok_def
proof (intro allI impI)
  fix b' h' k' q assume b': "st s' b' = Primary h' k' q" "\<not> live s' q"
  from acq have os: "only_slots {b} s s'" and st': "\<exists>k. st s' = (st s)(b := Primary h k p)" and lp: "live s' p"
    and q: "\<forall>q. q \<noteq> p \<longrightarrow> inners s' q = inners s q" by (auto simp: acquired_def live_def)
  have "q \<noteq> p" using b'(2) lp by auto
  with st' b'(1) have "b' \<noteq> b" by (auto split: if_splits)
  with st' b'(1) have "st s b' = Primary h' k' q" by (auto split: if_splits)
  moreover have "\<not> live s q" using b'(2) q \<open>q \<noteq> p\<close> by (simp add: live_def)
  ultimately show "epoch_ok s' b'"
    using dead only_slots_counters(2) [OF os, of b'] \<open>b' \<noteq> b\<close> by (auto simp: dead_ok_def)
qed

lemma LI_lookup:
  assumes "LI E dm dp s"
  shows "active_by_hash s h = Some b \<longleftrightarrow> prim_hash (st s b) = Some h"
    "iabs (inactive s) h = Some b \<longleftrightarrow> inact_hash (st s b) = Some h"
    "held_by_hash s h = Some b \<longleftrightarrow> held_hash (st s b) = Some h"
proof -
  note ok = core_invD [OF mid_invD(1) [OF assms]]
  show "active_by_hash s h = Some b \<longleftrightarrow> prim_hash (st s b) = Some h" by (rule active_okD1 [OF ok(6)])
  show "iabs (inactive s) h = Some b \<longleftrightarrow> inact_hash (st s b) = Some h" using index_okD(1) [OF ok(5)] by simp
  show "held_by_hash s h = Some b \<longleftrightarrow> held_hash (st s b) = Some h" using ok(7) by (simp add: held_ok_def)
qed

lemma registered_iff:
  assumes "LI E dm dp s"
  shows "registered s h \<longleftrightarrow> active_by_hash s h \<noteq> None \<or> iabs (inactive s) h \<noteq> None"
  unfolding registered_def using LI_lookup [OF assms] by (metis not_Some_eq)

text \<open>A lookup finds a hash exactly when it is registered.\<close>

lemma acquire_step:
  assumes inv: "LI E dm dp s" and dead: "dead_ok s"
  shows "registered s h \<Longrightarrow> \<exists>b p s'. acquire_registered_for_hash_locked ops h touch s = Some (Some p, s')
      \<and> acquired s h b p s' \<and> LI (E(p := E p + 1)) dm dp s'"
    and "\<not> registered s h \<Longrightarrow> \<exists>i. acquire_registered_for_hash_locked ops h touch s = Some (None, s\<lparr>inactive := i\<rparr>)
      \<and> iabs i = iabs (inactive s) \<and> LI E dm dp (s\<lparr>inactive := i\<rparr>)"
proof -
  assume reg: "registered s h"
  show "\<exists>b p s'. acquire_registered_for_hash_locked ops h touch s = Some (Some p, s')
      \<and> acquired s h b p s' \<and> LI (E(p := E p + 1)) dm dp s'"
  proof (cases "active_by_hash s h")
    case None
    with reg registered_iff [OF inv] obtain b where "iabs (inactive s) h = Some b" by auto
    from acquire_inactive [OF inv None this] show ?thesis by blast
  next
    case (Some b)
    from acquire_active [OF inv this dead] show ?thesis by blast
  qed
next
  assume "\<not> registered s h"
  then have "active_by_hash s h = None" "iabs (inactive s) h = None" using registered_iff [OF inv] by auto
  from acquire_miss [OF inv this] show "\<exists>i. acquire_registered_for_hash_locked ops h touch s = Some (None, s\<lparr>inactive := i\<rparr>)
      \<and> iabs i = iabs (inactive s) \<and> LI E dm dp (s\<lparr>inactive := i\<rparr>)" by blast
qed

text \<open>The batched prefix lookup returns the longest visible prefix.\<close>

lemma match_prefix_step:
  assumes "LI E dm dp s" "dead_ok s"
  shows "\<exists>ps s'. match_prefix_locked_batch ops hs s = Some (ps, s')
    \<and> list_all2 (serves s') (takeWhile (visible s) hs) ps
    \<and> LI (add_refs ps E) dm dp s' \<and> dead_ok s' \<and> inners_kept s s' \<and> frame s s' \<and> keeps_guards {} s s'
    \<and> (\<forall>h. visible s' h = visible s h)"
  using assms
proof (induction hs arbitrary: E s)
  case Nil
  then show ?case by (auto simp: inners_kept_refl keeps_guards_refl)
next
  case (Cons h hs)
  show ?case
  proof (cases "visible s h")
    case True
    then have held: "held_by_hash s h = None" and reg: "registered s h" by (simp_all add: visible_def)
    from acquire_step(1) [OF Cons.prems reg, of False] obtain b p s1 where
      s1: "acquire_registered_for_hash_locked ops h False s = Some (Some p, s1)" "acquired s h b p s1"
        "LI (E(p := E p + 1)) dm dp s1" by blast
    note dead1 = acquired_dead_ok [OF Cons.prems(1) s1(2) Cons.prems(2)]
    from Cons.IH [OF s1(3) dead1] obtain ps s' where
      s': "match_prefix_locked_batch ops hs s1 = Some (ps, s')"
        "list_all2 (serves s') (takeWhile (visible s1) hs) ps" "LI (add_refs ps (E(p := E p + 1))) dm dp s'"
        "dead_ok s'" "inners_kept s1 s'" "frame s1 s'" "keeps_guards {} s1 s'" "\<forall>h. visible s' h = visible s1 h" by blast
    have vis: "visible s1 = visible s" by (rule ext) (rule acquired_visible [OF s1(2)])
    have "match_prefix_locked_batch ops (h # hs) s = Some (p # ps, s')"
      using held s1(1) s'(1) by (simp add: acquire_for_hash_locked_def)
    moreover have "serves s' h p" by (rule serves_kept [OF s'(5) acquired_serves [OF s1(2)]])
    moreover have "frame s s'"
      using s1(2) frame_trans [OF only_slots_frame s'(6)] by (auto simp: acquired_def)
    moreover have "inners_kept s s'" by (rule inners_kept_trans [OF acquired_inners_kept [OF s1(2)] s'(5)])
    moreover have "keeps_guards {} s s'" by (rule keeps_guards_trans0 [OF acquired_keeps_guards [OF s1(2)] s'(7)])
    ultimately show ?thesis using True s'(2-4,8) by (auto simp: vis)
  next
    case False
    show ?thesis
    proof (cases "held_by_hash s h")
      case (Some x)
      then have "match_prefix_locked_batch ops (h # hs) s = Some ([], s)" by (simp add: acquire_for_hash_locked_def)
      with Cons.prems False show ?thesis by (auto simp: inners_kept_refl keeps_guards_refl)
    next
      case None
      with False have "\<not> registered s h" by (simp add: visible_def)
      from acquire_step(2) [OF Cons.prems this, of False] obtain i where
        i: "acquire_registered_for_hash_locked ops h False s = Some (None, s\<lparr>inactive := i\<rparr>)"
          "LI E dm dp (s\<lparr>inactive := i\<rparr>)" by blast
      have "match_prefix_locked_batch ops (h # hs) s = Some ([], s\<lparr>inactive := i\<rparr>)"
        using None i(1) by (simp add: acquire_for_hash_locked_def)
      moreover have "dead_ok (s\<lparr>inactive := i\<rparr>)"
        using Cons.prems(2) by (simp add: dead_ok_def live_def epoch_ok_def)
      moreover have "\<forall>h. visible (s\<lparr>inactive := i\<rparr>) h = visible s h" by (simp add: visible_def registered_def)
      ultimately show ?thesis using False i(2) by (auto simp: inners_kept_refl frame_def keeps_guards_refl)
    qed
  qed
qed

text \<open>Promotion of inactive blocks found by the index.\<close>

lemma promote_pairs_step:
  assumes "MI X {} E 0 di 0 dm dp s" "distinct (map snd pairs)"
    "\<forall>(h, b) \<in> set pairs. b \<in> X \<and> (\<exists>k. st s b = Inactive h k)"
  shows "\<exists>r s'. promote_pairs pairs s = Some (r, s') \<and> map fst r = map fst pairs
    \<and> list_all2 (serves s') (map fst r) (map snd r)
    \<and> MI (X - snd ` set pairs) {} (add_refs (map snd r) E) 0 (di - int (length pairs)) 0 dm dp s'
    \<and> inners_kept s s' \<and> only_slots (snd ` set pairs) s s' \<and> held_by_hash s' = held_by_hash s
    \<and> keeps_guards {} s s'"
  using assms
proof (induction pairs arbitrary: X E di s)
  case Nil
  then show ?case by (auto simp: inners_kept_refl keeps_guards_refl)
next
  case (Cons hb pairs)
  obtain h b where hb: "hb = (h, b)" by (cases hb)
  with Cons.prems(3) obtain k where b: "b \<in> X" "st s b = Inactive h k" by auto
  let ?p = "next_ptr s"
  note fresh = fresh_ptr [OF mid_invD(4) [OF Cons.prems(1)]]
  from resurrect_step [OF Cons.prems(1) b] obtain s1 where
    s1: "resurrect_slot h b s = Some (?p, s1)" "only_slots {b} s s1" "st s1 = (st s)(b := Primary h k ?p)"
      "held_by_hash s1 = held_by_hash s" "inners s1 = (inners s)(?p \<mapsto> primary_inner b h k)"
      "MI (X - {b}) {} (E(?p := 1)) 0 (di - 1) 0 dm dp s1" by blast
  have inv1: "MI (X - {b}) {} (E(?p := E ?p + 1)) 0 (di - 1) 0 dm dp s1" using s1(6) fresh(2) by simp
  have rest: "\<forall>(h', b') \<in> set pairs. b' \<in> X - {b} \<and> (\<exists>k. st s1 b' = Inactive h' k)"
  proof (clarify, intro conjI)
    fix h' b' assume in_pairs: "(h', b') \<in> set pairs"
    then have "b' \<noteq> b" using Cons.prems(2) by (force simp: hb)
    with in_pairs Cons.prems(3) show "b' \<in> X - {b}" "\<exists>k. st s1 b' = Inactive h' k"
      by (auto simp: hb s1(3))
  qed
  have "distinct (map snd pairs)" using Cons.prems(2) by (simp add: hb)
  from Cons.IH [OF inv1 this rest] obtain r s' where
    s': "promote_pairs pairs s1 = Some (r, s')" "map fst r = map fst pairs"
      "list_all2 (serves s') (map fst r) (map snd r)" "inners_kept s1 s'" "only_slots (snd ` set pairs) s1 s'"
      "held_by_hash s' = held_by_hash s1" "keeps_guards {} s1 s'"
    and inv': "MI (X - {b} - snd ` set pairs) {} (add_refs (map snd r) (E(?p := E ?p + 1))) 0
        (di - 1 - int (length pairs)) 0 dm dp s'"
    by (elim exE conjE) (rule that)
  have kept: "inners_kept s s1" by (rule inners_kept_new [OF s1(5) fresh(1)]) simp
  have "serves s1 h ?p" using s1(5) by (simp add: serves_def)
  from serves_kept [OF s'(4) this] have "serves s' h ?p" .
  moreover have "promote_pairs (hb # pairs) s = Some ((h, ?p) # r, s')" using s1(1) s'(1) by (simp add: hb)
  moreover have "only_slots (snd ` set (hb # pairs)) s s'"
    using only_slots_trans [OF s1(2) s'(5)] by (simp add: hb)
  moreover have "MI (X - snd ` set (hb # pairs)) {} (add_refs (map snd ((h, ?p) # r)) E) 0
      (di - int (length (hb # pairs))) 0 dm dp s'"
  proof -
    have "X - snd ` set (hb # pairs) = X - {b} - snd ` set pairs" by (auto simp: hb)
    then show ?thesis using inv' by (simp add: diff_diff_eq)
  qed
  moreover have "inners_kept s s'" by (rule inners_kept_trans [OF kept s'(4)])
  moreover have "keeps_guards {} s s1" by (rule keeps_guards_upd [OF s1(3)]) (simp_all add: b(2))
  then have "keeps_guards {} s s'" by (rule keeps_guards_trans0 [OF _ s'(7)])
  ultimately show ?case
    using s'(2,3,6) s1(4) by (intro exI [of _ "(h, ?p) # r"] exI [of _ s']) (simp add: hb)
qed

text \<open>From an extraction of the index to the promoted blocks.\<close>

lemma promote_extracted:
  assumes inv: "LI E dm dp s" and ex: "extracts (iabs (inactive s)) r (iabs i)" "iinv i"
    "\<forall>n. room n (inactive s) \<longrightarrow> room n i"
  shows "\<exists>res s'. promote_pairs r (dec_inactive_pool_size_by (int (length r)) (s\<lparr>inactive := i\<rparr>)) = Some (res, s')
    \<and> map fst res = map fst r \<and> list_all2 (serves s') (map fst res) (map snd res)
    \<and> LI (add_refs (map snd res) E) dm dp s' \<and> inners_kept s s' \<and> frame s s' \<and> held_by_hash s' = held_by_hash s
    \<and> keeps_guards {} s s'"
proof -
  let ?s = "dec_inactive_pool_size_by (int (length r)) (s\<lparr>inactive := i\<rparr>)"
  note xs = extracted_slots [OF inv ex(1)]
  have "MI (snd ` set r) {} E 0 0 0 dm dp (s\<lparr>inactive := i\<rparr>)" using extract_step [OF inv ex] by simp
  then have inv1: "MI (snd ` set r) {} E 0 (int (length r)) 0 dm dp ?s" unfolding mid_inv_book by simp
  have "\<forall>(h, b) \<in> set r. b \<in> snd ` set r \<and> (\<exists>k. st ?s b = Inactive h k)"
  proof (clarify, intro conjI)
    fix h b assume hb: "(h, b) \<in> set r"
    then show "b \<in> snd ` set r" by force
    show "\<exists>k. st ?s b = Inactive h k" using xs(2) [OF hb] by simp
  qed
  from promote_pairs_step [OF inv1 xs(1) this] obtain res s' where
    s': "promote_pairs r ?s = Some (res, s')" "map fst res = map fst r"
      "list_all2 (serves s') (map fst res) (map snd res)" "inners_kept ?s s'" "only_slots (snd ` set r) ?s s'"
      "held_by_hash s' = held_by_hash ?s" "keeps_guards {} ?s s'"
    and inv': "MI (snd ` set r - snd ` set r) {} (add_refs (map snd res) E) 0 (int (length r) - int (length r)) 0 dm dp s'"
    by blast
  have "inners_kept s s'" by (rule inners_kept_cong [OF s'(4)]) (simp_all add: metrics_defs)
  moreover have "frame s s'" using only_slots_frame [OF s'(5)] by (simp add: frame_def metrics_defs)
  moreover have "keeps_guards {} s s'"
    by (rule keeps_guards_cong [OF s'(7)]) (simp_all add: metrics_defs)
  ultimately show ?thesis using s' inv' by (intro exI [of _ res] exI [of _ s']) (simp add: metrics_defs)
qed

lemma scan_step:
  assumes inv: "LI E dm dp s"
  shows "\<exists>res s'. scan_inactive_primaries ops hs touch s = Some (res, s')
    \<and> distinct (map fst res)
    \<and> set (map fst res) = {h \<in> set hs. held_by_hash s h = None \<and> iabs (inactive s) h \<noteq> None}
    \<and> list_all2 (serves s') (map fst res) (map snd res)
    \<and> LI (add_refs (map snd res) E) dm dp s' \<and> inners_kept s s' \<and> frame s s' \<and> held_by_hash s' = held_by_hash s
    \<and> keeps_guards {} s s'"
proof -
  let ?hs = "filter (\<lambda>h. held_by_hash s h = None) hs"
  from scan_matches [OF mid_invD(2) [OF inv], of ?hs touch] obtain r i where
    r: "ix_scan_matches ops ?hs touch (inactive s) = Some (r, i)" "iinv i"
      "map_scan_matches ?hs (iabs (inactive s)) = (r, iabs i)" "\<forall>n. room n (inactive s) \<longrightarrow> room n i" by blast
  note ex = map_scan_matches_extracts [OF r(3)]
  from promote_extracted [OF inv ex r(2,4)] obtain res s' where
    s': "promote_pairs r (dec_inactive_pool_size_by (int (length r)) (s\<lparr>inactive := i\<rparr>)) = Some (res, s')"
      "map fst res = map fst r" "list_all2 (serves s') (map fst res) (map snd res)"
      "LI (add_refs (map snd res) E) dm dp s'" "inners_kept s s'" "frame s s'" "held_by_hash s' = held_by_hash s"
      "keeps_guards {} s s'"
    by blast
  have "set (map fst r) = {h \<in> set hs. held_by_hash s h = None \<and> iabs (inactive s) h \<noteq> None}"
    using map_scan_matches_set [of ?hs "iabs (inactive s)"] r(3) by auto
  moreover have "distinct (map fst r)" using ex by (simp add: extracts_def)
  moreover have "scan_inactive_primaries ops hs touch s = Some (res, s')"
    using r(1) s'(1) by (simp add: scan_inactive_primaries_def promote_inactive_def)
  ultimately show ?thesis using s' by (intro exI [of _ res] exI [of _ s']) simp
qed

lemma match_inactive_refuses:
  assumes inv: "LI E dm dp s"
    and no: "\<not> (distinct hs \<and> (\<forall>h \<in> set hs. held_by_hash s h = None \<and> iabs (inactive s) h \<noteq> None))"
  shows "match_inactive_primaries ops hs s = Some ([], s)"
proof -
  have has: "ix_has ops (inactive s) h \<longleftrightarrow> iabs (inactive s) h \<noteq> None" for h
    using has [OF mid_invD(2) [OF inv]] by auto
  from no have "list_ex (\<lambda>h. held_by_hash s h \<noteq> None \<or> \<not> ix_has ops (inactive s) h) hs
      \<or> length hs > 1 \<and> \<not> distinct hs"
    by (cases hs; cases "tl hs") (auto simp: list_ex_iff has)
  then show ?thesis by (auto simp: match_inactive_primaries_def promote_inactive_def)
qed

lemma match_inactive_step:
  assumes inv: "LI E dm dp s"
    and hs: "distinct hs" "\<forall>h \<in> set hs. held_by_hash s h = None \<and> iabs (inactive s) h \<noteq> None"
  shows "\<exists>res s'. match_inactive_primaries ops hs s = Some (res, s') \<and> map fst res = hs
    \<and> list_all2 (serves s') hs (map snd res)
    \<and> LI (add_refs (map snd res) E) dm dp s' \<and> inners_kept s s' \<and> frame s s' \<and> held_by_hash s' = held_by_hash s
    \<and> keeps_guards {} s s'"
proof (cases hs)
  case Nil
  with inv show ?thesis by (auto simp: match_inactive_primaries_def promote_inactive_def inners_kept_refl keeps_guards_refl)
next
  case (Cons h rest)
  have has: "ix_has ops (inactive s) h \<longleftrightarrow> iabs (inactive s) h \<noteq> None" for h
    using has [OF mid_invD(2) [OF inv]] by auto
  have guard: "\<not> list_ex (\<lambda>h. held_by_hash s h \<noteq> None \<or> \<not> ix_has ops (inactive s) h) hs"
    using hs(2) by (auto simp: list_ex_iff has)
  from hs(2) Cons obtain b where b: "iabs (inactive s) h = Some b" and held: "held_by_hash s h = None" by auto
  from find_match [OF mid_invD(2) [OF inv], of h False] b obtain i where
    i: "ix_find_match ops h False (inactive s) = Some (Some (h, b), i)" "iinv i"
      "iabs i = (iabs (inactive s))(h := None)" "\<forall>n. room n (inactive s) \<longrightarrow> room n i" by auto
  have tw: "takeWhile (\<lambda>h. held_by_hash s h = None) rest = rest"
    using hs(2) Cons by (auto simp: takeWhile_eq_all_conv)
  from find_matches [OF i(2), of rest False] obtain r j where
    r: "ix_find_matches ops rest False i = Some (r, j)" "iinv j" "map_find_matches rest (iabs i) = (r, iabs j)"
      "\<forall>n. room n i \<longrightarrow> room n j" by blast
  have "set rest \<subseteq> dom (iabs i)" using hs Cons i(3) by auto
  then have keys: "map fst r = rest" using map_find_matches_all [of rest "iabs i"] hs(1) Cons r(3) by simp
  obtain r' j' where r': "(if rest = [] then Some ([], i) else ix_find_matches ops rest False i) = Some (r', j')"
    "iinv j'" "extracts (iabs i) r' (iabs j')" "\<forall>n. room n i \<longrightarrow> room n j'" "map fst r' = rest"
  proof (cases "rest = []")
    case True with i(2) show ?thesis by (intro that [of "[]" i]) simp_all
  next
    case False
    with r keys map_find_matches_extracts [OF r(3)] show ?thesis by (intro that [of r j]) simp_all
  qed
  have ex: "extracts (iabs (inactive s)) ((h, b) # r') (iabs j')"
    using b i(3) r'(3) by (simp add: extracts_Cons)
  have room: "\<forall>n. room n (inactive s) \<longrightarrow> room n j'" using i(4) r'(4) by blast
  from promote_extracted [OF inv ex r'(2) room] obtain res s' where
    s': "promote_pairs ((h, b) # r') (dec_inactive_pool_size_by (int (length ((h, b) # r'))) (s\<lparr>inactive := j'\<rparr>)) = Some (res, s')"
      "map fst res = map fst ((h, b) # r')" "list_all2 (serves s') (map fst res) (map snd res)"
      "LI (add_refs (map snd res) E) dm dp s'" "inners_kept s s'" "frame s s'" "held_by_hash s' = held_by_hash s"
      "keeps_guards {} s s'"
    by blast
  have eq: "map fst res = hs" using s'(2) r'(5) Cons by simp
  have "match_inactive_primaries ops hs s = Some (res, s')"
    using guard [unfolded Cons] hs(1) [unfolded Cons] held i(1) s'(1) r'(1)
    by (cases "rest = []") (auto simp: match_inactive_primaries_def promote_inactive_def tw Cons)
  with s'(3-) eq show ?thesis by auto
qed

end

end
