(* ===== verification/Block_Store_Register.thy ===== *)
theory Block_Store_Register
  imports Block_Store_Lookup
begin

text \<open>
  Registration of completed blocks, one at a time and batched. A registration of a hash that is
  already registered yields a duplicate or, under the rejecting policy, the existing primary; a fresh
  hash yields a primary. The batch behaves as its items one after the other.
\<close>

section \<open>Presence still to be marked\<close>

definition book :: "(nat \<Rightarrow> int) \<Rightarrow> 'h registration_handle list \<Rightarrow> nat \<Rightarrow> int" where
  "book dp ks = (\<lambda>i. dp i + hcount ks i)"

lemma book_simps [simp]: "book dp [] = dp" "book (book dp ks) ks' = book dp (ks @ ks')"
  by (auto simp: book_def)

lemma acct_book:
  assumes "acct dr di dh dm (book (\<lambda>_. 0) ks) s"
  shows "acct dr di dh dm (\<lambda>_. 0) (fold mark_present ks s)"
  using assms
proof (induction ks arbitrary: s)
  case (Cons k ks)
  have "(book (\<lambda>_. 0) (k # ks))(handle_id k := book (\<lambda>_. 0) (k # ks) (handle_id k) - 1) = book (\<lambda>_. 0) ks"
    by (auto simp: book_def)
  with acct_mark_present [OF Cons.prems, of k] have "acct dr di dh dm (book (\<lambda>_. 0) ks) (mark_present k s)" by simp
  from Cons.IH [OF this] show ?case by simp
qed simp

lemma fold_mark_present: "\<exists>f. fold mark_present ks s = presence_update f s"
proof (induction ks arbitrary: s)
  case Nil
  have "s = presence_update (\<lambda>x. x) s" by simp
  then show ?case by (metis fold_simps(1))
next
  case (Cons k ks)
  then obtain f where "fold mark_present ks (mark_present k s) = presence_update f (mark_present k s)" by blast
  then have "fold mark_present (k # ks) s = presence_update f (mark_present k s)" by simp
  also have "\<dots> = presence_update (\<lambda>pr. f (pr(handle_id k := pr (handle_id k) + 1))) s"
    by (simp add: mark_present_def comp_def)
  finally show ?case by blast
qed

lemma fold_mark_present_fields [simp]:
  "slots (fold mark_present ks s) = slots s" "st (fold mark_present ks s) = st s"
  "inactive (fold mark_present ks s) = inactive s" "inners (fold mark_present ks s) = inners s"
  "active_by_hash (fold mark_present ks s) = active_by_hash s"
  "held_by_hash (fold mark_present ks s) = held_by_hash s"
  "next_ptr (fold mark_present ks s) = next_ptr s" "frame s' (fold mark_present ks s) = frame s' s"
  using fold_mark_present [of ks s] by (auto simp: frame_def)

section \<open>One registration\<close>

text \<open>What registering a block for \<open>h\<close> in the staged slot \<open>b\<close> leaves of the rest.\<close>

definition registers_in :: "('h, 'i) block_store \<Rightarrow> block_id \<Rightarrow> 'h \<Rightarrow> ('h, 'i) block_store \<Rightarrow> bool" where
  "registers_in s b h s' \<longleftrightarrow> frame s s' \<and> held_by_hash s' = held_by_hash s \<and> inners_kept s s' \<and> dead_ok s'
     \<and> keeps_guards {b} s s'
     \<and> (\<forall>h'. registered s' h' \<longleftrightarrow> registered s h' \<or> h' = h)"

lemma registers_inD:
  assumes "registers_in s b h s'"
  shows "frame s s'" "keeps_guards {b} s s'" "dead_ptrs s' = dead_ptrs s"
    "registered s' h' \<longleftrightarrow> registered s h' \<or> h' = h"
  using assms by (simp_all add: registers_in_def inners_kept_def)

lemma release_staged_inners: "release_staged b s = Some s' \<Longrightarrow> inners s' = inners s"
  by (auto simp: release_staged_def set_state_def push_reset_id_locked_def metrics_defs split: if_splits)

context inactive_index
begin

lemma MI_book:
  assumes "MI X R E dr di dh dm (book (\<lambda>_. 0) ks) s"
  shows "MI X R E dr di dh dm (\<lambda>_. 0) (fold mark_present ks s)"
proof -
  from fold_mark_present [of ks s] obtain f where f: "fold mark_present ks s = presence_update f s" by blast
  show ?thesis
    by (rule MI_cong [OF assms]) (use acct_book [OF mid_invD(5) [OF assms]] f in \<open>simp_all add: frame_def\<close>)
qed

text \<open>A staged slot becomes a duplicate of a live primary; the caller's reference becomes its keepalive.\<close>

lemma become_duplicate_step:
  assumes inv: "LI E dm dp s" and b: "st s b = Staged h" and q: "inners s q = Some m" "in_is_primary m"
    "in_seq_hash m = h" "E q \<noteq> 0"
    and s1: "s1 = s\<lparr>inners := (inners s)(next_ptr s \<mapsto> duplicate_inner b h k q), next_ptr := next_ptr s + 1\<rparr>"
  shows "\<exists>s'. set_state b (Duplicate h k (next_ptr s)) s1 = Some s' \<and> only_slots {b} s s'
    \<and> st s' = (st s)(b := Duplicate h k (next_ptr s)) \<and> held_by_hash s' = held_by_hash s
    \<and> inners s' = inners s1 \<and> LI (E(q := E q - 1, next_ptr s := 1)) dm (book dp [k]) s'"
proof -
  note core = mid_invD(1) [OF inv]
  note ok = core_invD [OF core]
  let ?p = "next_ptr s" and ?x = "Duplicate h k (next_ptr s)" and ?E = "E(q := E q - 1, next_ptr s := 1)"
  have ne: "st s b \<noteq> Reset" using b by simp
  have len: "b < length (slots s)" and cap: "b < capacity s"
    using core_bounds(1) [OF core ne] ok(3) [OF ne] .
  have "b < length (slots s1)" using len by (simp add: s1)
  from set_state_fields [OF this, of ?x] obtain s' where s': "set_state b ?x s1 = Some s'"
    "only_slots {b} s1 s'" "st s' = (st s1)(b := ?x)" "reset_on_release s' = reset_on_release s1" "slots_only s1 s'"
    by blast
  note so = slots_onlyD [OF s'(5)]
  have os: "only_slots {b} s s'" using s'(2) by (simp add: only_slots_def frame_def s1)
  have st': "st s' = (st s)(b := ?x)" using s'(3) by (simp add: s1)
  have weak: "slot_weak (st s b) = None" using b by simp
  have arc: "arc_inv ?E s'"
    by (rule arc_inv_new [OF mid_invD(4) [OF inv] weak len, where n = "duplicate_inner b h k q"])
      (use so os st' q in \<open>simp_all add: s1 only_slots_def frame_def\<close>)
  have "LI ?E dm (book dp [k]) s'"
    using MI_slot [OF inv only_slots_frame [OF os] st' cap _ _ _ _ _ _ _ _ _ arc, of "{}" "{}"]
      so mid_invD(2,3) [OF inv] pools_ok_upd(1) [OF ok(4), of b ?x] index_ok_keep [OF ok(5), of b ?x]
      active_ok_keep [OF ok(6), of b ?x] held_ok_keep [OF ok(7), of b ?x]
    by (simp add: b s1 book_def)
  with s' so os st' show ?thesis by (intro exI [of _ s']) (simp add: s1)
qed

lemma dead_ok_fresh:
  assumes "dead_ok s" "only_slots {b} s s'" "st s' = (st s)(b := x)"
    and "\<And>q. live s q \<Longrightarrow> live s' q" and "\<And>h k p. x = Primary h k p \<Longrightarrow> live s' p"
  shows "dead_ok s'"
  unfolding dead_ok_def
proof (intro allI impI)
  fix b' h' k' q assume b': "st s' b' = Primary h' k' q" "\<not> live s' q"
  then have "b' \<noteq> b" using assms(3,5) by (auto split: if_splits)
  with b' assms(3) have "st s b' = Primary h' k' q" by (auto split: if_splits)
  moreover have "\<not> live s q" using b'(2) assms(4) by blast
  ultimately show "epoch_ok s' b'"
    using assms(1) only_slots_counters(2) [OF assms(2), of b'] \<open>b' \<noteq> b\<close> by (auto simp: dead_ok_def)
qed

lemma register_fresh:
  assumes inv: "LI E dm dp s" and dead: "dead_ok s" and b: "st s b = Staged h" and no: "\<not> registered s h"
    and cb: "cb_block_id cb = b" "cb_seq_hash cb = h"
  shows "\<exists>p s'. register_one ops cb handle policy s = Some (p, True, s') \<and> registers_in s b h s'
    \<and> st s' b = Primary h handle p \<and> serves s' h p \<and> LI (E(p := E p + 1)) dm (book dp [handle]) s'"
proof -
  from acquire_step(2) [OF inv dead no, of False] obtain i where
    i: "acquire_registered_for_hash_locked ops h False s = Some (None, s\<lparr>inactive := i\<rparr>)"
      "LI E dm dp (s\<lparr>inactive := i\<rparr>)" by blast
  let ?s = "s\<lparr>inactive := i\<rparr>" and ?p = "next_ptr s"
  have none: "active_by_hash ?s h = None" "\<forall>b'. inact_hash (st ?s b') \<noteq> Some h"
    using no registered_iff [OF inv, of h] by (auto simp: registered_def)
  have g: "guarded (st ?s b) \<and> (\<forall>b'. inact_hash (st ?s b') \<noteq> Some h) \<or> b \<in> {} \<and> st ?s b = Inactive h handle"
    using none(2) b by simp
  from become_primary_step [OF i(2) g none(1) refl] obtain s2 s' where
    s': "set_state b (Primary h handle ?p) (?s\<lparr>inners := (inners ?s)(next_ptr ?s \<mapsto> primary_inner b h handle),
          next_ptr := next_ptr ?s + 1\<rparr>) = Some s2"
      "s' = active_by_hash_update (\<lambda>m. m(h \<mapsto> b)) s2" "only_slots {b} ?s s'"
      "st s' = (st ?s)(b := Primary h handle ?p)" "held_by_hash s' = held_by_hash ?s"
      "inners s' = (inners s)(?p \<mapsto> primary_inner b h handle)"
    and inv': "LI (E(?p := 1)) dm (\<lambda>i. unbook dp (handles_of (st ?s b)) i + hcount [handle] i) s'"
    using b by auto
  have fresh: "inners s ?p = None" "E ?p = 0" using fresh_ptr(1,2) [OF mid_invD(4) [OF inv]] .
  have os: "only_slots {b} s s'" using s'(3) by (simp add: only_slots_def frame_def)
  have st': "st s' = (st s)(b := Primary h handle ?p)" using s'(4) by simp
  have live: "live s' ?p" "live s q \<Longrightarrow> live s' q" for q
    using fresh(1) by (auto simp: live_def s'(6))
  have kept: "inners_kept s s'" by (rule inners_kept_new [OF s'(6) fresh(1)]) simp
  have guards: "keeps_guards {b} s s'" by (simp add: keeps_guards_def st')
  have reg: "registered s' h' \<longleftrightarrow> registered s h' \<or> h' = h" for h'
  proof
    assume "registered s' h'"
    then show "registered s h' \<or> h' = h" unfolding registered_def st' by (auto split: if_splits)
  next
    assume "registered s h' \<or> h' = h"
    then show "registered s' h'"
    proof
      assume "registered s h'"
      then obtain b' where b': "prim_hash (st s b') = Some h' \<or> inact_hash (st s b') = Some h'"
        by (auto simp: registered_def)
      then have "b' \<noteq> b" using b by auto
      with b' show ?thesis unfolding registered_def st' by (intro exI [of _ b']) simp
    qed (auto simp: registered_def st')
  qed
  have "registers_in s b h s'"
    using only_slots_frame [OF os] s'(5) kept guards reg dead_ok_fresh [OF dead os st' live(2)] live(1)
    by (simp add: registers_in_def)
  moreover have "LI (E(?p := E ?p + 1)) dm (book dp [handle]) s'"
    using inv' b fresh(2) by (simp add: book_def)
  moreover have "register_one ops cb handle policy s = Some (?p, True, s')"
    using i(1) s'(1,2) cb by (simp add: register_one_def new_primary_def new_inner_def)
  ultimately show ?thesis using st' by (auto simp: serves_def s'(6))
qed

lemma register_existing:
  assumes inv: "LI E dm dp s" and dead: "dead_ok s" and b: "st s b = Staged h" and reg: "registered s h"
    and cb: "cb_block_id cb = b" "cb_seq_hash cb = h"
  shows "\<exists>p s'. register_one ops cb handle policy s = Some (p, policy = Allow, s') \<and> registers_in s b h s'
    \<and> st s' b = (if policy = Allow then Duplicate h handle p else Staged h)
    \<and> (policy = Reject \<longrightarrow> serves s' h p)
    \<and> LI (E(p := E p + 1)) dm (book dp (if policy = Allow then [handle] else [])) s'"
proof -
  from acquire_step(1) [OF inv dead reg, of False] obtain b0 q s1 where
    s1: "acquire_registered_for_hash_locked ops h False s = Some (Some q, s1)" "acquired s h b0 q s1"
      "LI (E(q := E q + 1)) dm dp s1" by blast
  from s1(2) obtain k0 m where m: "(\<exists>q. st s b0 = Primary h k0 q) \<or> st s b0 = Inactive h k0"
    "st s1 = (st s)(b0 := Primary h k0 q)" "inners s1 q = Some m" "in_block_id m = b0" "in_is_primary m"
    "in_seq_hash m = h" "only_slots {b0} s s1" "held_by_hash s1 = held_by_hash s"
    unfolding acquired_def by (elim exE conjE) (rule that)
  have ne: "b0 \<noteq> b" using m(1) b by auto
  have b1: "st s1 b = Staged h" using m(2) ne b by simp
  note guards1 = acquired_keeps_guards [OF s1(2)]
  have reg1: "registered s1 h' \<longleftrightarrow> registered s h' \<or> h' = h" for h'
    using acquired_registered [OF s1(2)] reg by auto
  note dead1 = acquired_dead_ok [OF inv s1(2) dead] and kept1 = acquired_inners_kept [OF s1(2)]
  show ?thesis
  proof (cases policy)
    case Reject
    let ?s = "metrics_update (registration_dedup_update (\<lambda>x. x + 1)) s1"
    have "register_one ops cb handle policy s = Some (q, False, ?s)"
      using s1(1) m(3,4) ne cb Reject by (simp add: register_one_def assert_that_def)
    moreover have "LI (E(q := E q + 1)) dm dp ?s" unfolding mid_inv_book by (rule s1(3))
    moreover have "dead_ok ?s" using dead1 by (simp add: dead_ok_def live_def epoch_ok_def)
    moreover have "inners_kept s ?s" by (rule inners_kept_cong [OF kept1]) simp_all
    moreover have "keeps_guards {b} s ?s" 
      using keeps_guards_trans [OF guards1 keeps_guards_refl [of ?s s1 "{b}"]] by simp
    moreover have "registered ?s h' = registered s1 h'" for h' by (simp add: registered_def)
    moreover have "serves ?s h q" using m(3,5,6) by (simp add: serves_def)
    ultimately show ?thesis
      using Reject b1 reg1 only_slots_frame [OF m(7)] m(8) by (auto simp: registers_in_def)
  next
    case Allow
    let ?d = "next_ptr s1"
    have Eq: "(E(q := E q + 1)) q \<noteq> 0" by simp
    let ?s1 = "s1\<lparr>inners := (inners s1)(?d \<mapsto> duplicate_inner b h handle q), next_ptr := ?d + 1\<rparr>"
    from become_duplicate_step [OF s1(3) b1 m(3,5,6) Eq refl, of handle] obtain s2 where
      s2: "set_state b (Duplicate h handle ?d) ?s1 = Some s2" "only_slots {b} s1 s2"
        "st s2 = (st s1)(b := Duplicate h handle ?d)" "held_by_hash s2 = held_by_hash s1" "inners s2 = inners ?s1"
      and inv2: "LI ((E(q := E q + 1))(q := (E(q := E q + 1)) q - 1, ?d := 1)) dm (book dp [handle]) s2"
      by (elim exE conjE) (rule that)
    have fresh: "inners s1 ?d = None" "(E(q := E q + 1)) ?d = 0" using fresh_ptr(1,2) [OF mid_invD(4) [OF s1(3)]] .
    then have "q \<noteq> ?d" "E ?d = 0" using m(3) by (auto split: if_splits)
    then have E: "(E(q := E q + 1))(q := (E(q := E q + 1)) q - 1, ?d := 1) = E(?d := E ?d + 1)" by auto
    let ?s = "metrics_update (duplicate_blocks_update (\<lambda>x. x + 1)) s2"
    have "register_one ops cb handle policy s = Some (?d, True, ?s)"
      using s1(1) m(3,4) ne cb Allow s2(1) by (simp add: register_one_def assert_that_def new_duplicate_def new_inner_def)
    moreover have "LI (E(?d := E ?d + 1)) dm (book dp [handle]) ?s" unfolding mid_inv_book using inv2 by (simp only: E)
    moreover have "dead_ok ?s"
    proof -
      have "live s1 p \<Longrightarrow> live s2 p" for p using fresh(1) by (auto simp: live_def s2(5))
      from dead_ok_fresh [OF dead1 s2(2,3) this] show ?thesis by (simp add: dead_ok_def live_def epoch_ok_def)
    qed
    moreover have "inners_kept s1 ?s" 
      using inners_kept_new [of ?s s1 ?d "duplicate_inner b h handle q"] fresh(1) by (simp add: s2(5))
    then have "inners_kept s ?s" by (rule inners_kept_trans [OF kept1])
    moreover have "registered ?s h' = registered s1 h'" for h'
    proof -
      have "(prim_hash (st s2 b') = Some h' \<or> inact_hash (st s2 b') = Some h')
          = (prim_hash (st s1 b') = Some h' \<or> inact_hash (st s1 b') = Some h')" for b'
        using b1 by (cases "b' = b") (simp_all add: s2(3))
      then show ?thesis by (simp add: registered_def)
    qed
    moreover have "frame s ?s" using frame_trans [OF only_slots_frame [OF m(7)] only_slots_frame [OF s2(2)]] by simp
    moreover have "keeps_guards {b} s ?s"
    proof -
      have "keeps_guards {b} s1 ?s" by (simp add: keeps_guards_def s2(3))
      from keeps_guards_trans [OF guards1 this] show ?thesis by simp
    qed
    ultimately show ?thesis
      using Allow reg1 m(8) s2(3,4) by (auto simp: registers_in_def)
  qed
qed

lemma register_one_step:
  assumes inv: "LI E dm dp s" and dead: "dead_ok s" and b: "st s (cb_block_id cb) = Staged (cb_seq_hash cb)"
  shows "\<exists>p s'. register_one ops cb handle policy s = Some (p, policy = Allow \<or> \<not> registered s (cb_seq_hash cb), s')
    \<and> registers_in s (cb_block_id cb) (cb_seq_hash cb) s'
    \<and> st s' (cb_block_id cb) = (if \<not> registered s (cb_seq_hash cb) then Primary (cb_seq_hash cb) handle p
         else if policy = Allow then Duplicate (cb_seq_hash cb) handle p else Staged (cb_seq_hash cb))
    \<and> LI (E(p := E p + 1)) dm
        (book dp (if policy = Allow \<or> \<not> registered s (cb_seq_hash cb) then [handle] else [])) s'"
proof (cases "registered s (cb_seq_hash cb)")
  case True
  from register_existing [OF inv dead b True refl refl, of handle policy] True show ?thesis by auto
next
  case False
  from register_fresh [OF inv dead b False refl refl, of handle policy] False show ?thesis by auto
qed

lemma register_completed_step:
  assumes inv: "SI E dm s" and dead: "dead_ok s" and b: "st s (cb_block_id cb) = Staged (cb_seq_hash cb)"
  shows "\<exists>p s'. register_completed_block ops cb handle policy s = Some (p, s') \<and> SI (E(p := E p + 1)) dm s'
    \<and> frame s s' \<and> (\<forall>h. registered s' h \<longleftrightarrow> registered s h \<or> h = cb_seq_hash cb)
    \<and> keeps_guards {cb_block_id cb} s s' \<and> dead_ptrs s' = dead_ptrs s
    \<and> st s' (cb_block_id cb) = (if \<not> registered s (cb_seq_hash cb) then Primary (cb_seq_hash cb) handle p
         else if policy = Allow then Duplicate (cb_seq_hash cb) handle p else Reset)"
proof -
  let ?b = "cb_block_id cb" and ?h = "cb_seq_hash cb"
  let ?add = "policy = Allow \<or> \<not> registered s ?h"
  from register_one_step [OF inv [unfolded SI_iff_MI] dead b, of handle policy] obtain p s1 where
    s1: "register_one ops cb handle policy s = Some (p, ?add, s1)" "registers_in s ?b ?h s1"
      "st s1 ?b = (if \<not> registered s ?h then Primary ?h handle p
         else if policy = Allow then Duplicate ?h handle p else Staged ?h)"
      "LI (E(p := E p + 1)) dm (book (\<lambda>_. 0) (if ?add then [handle] else [])) s1"
    by (elim exE conjE) (rule that)
  show ?thesis
  proof (cases ?add)
    case True
    then have "SI (E(p := E p + 1)) dm (mark_present handle s1)"
      using MI_book [of _ _ _ _ _ _ _ "[handle]"] s1(4) by (simp add: SI_iff_MI)
    moreover have "register_completed_block ops cb handle policy s = Some (p, mark_present handle s1)"
      using s1(1) True by (auto simp: register_completed_block_def)
    moreover have "registered (mark_present handle s1) h = registered s1 h" "st (mark_present handle s1) = st s1"
      "frame s (mark_present handle s1) = frame s s1" for h
      by (simp_all add: registered_def mark_present_def frame_def)
    moreover have "dead_ptrs (mark_present handle s1) = dead_ptrs s"
      unfolding registers_inD(3) [OF s1(2), symmetric] by (rule dead_ptrs_cong) (simp add: mark_present_def)
    moreover have "keeps_guards {?b} s (mark_present handle s1)"
      by (rule keeps_guards_cong [OF registers_inD(2) [OF s1(2)]]) (simp_all add: mark_present_def)
    ultimately show ?thesis using registers_inD(1,4) [OF s1(2)] s1(3) True
      by (intro exI [of _ p] exI [of _ "mark_present handle s1"]) auto
  next
    case False
    then have st1: "st s1 ?b = Staged ?h" using s1(3) by simp
    have "SI (E(p := E p + 1)) dm s1" using s1(4) False by (simp add: SI_iff_MI)
    from release_staged_step [OF this st1] obtain s' where
      s': "release_staged ?b s1 = Some s'" "SI (E(p := E p + 1)) dm s'" "only_slots {?b} s1 s'"
        "st s' = (st s1)(?b := Reset)" by blast
    have "registered s' h = registered s1 h" for h
    proof -
      have "(prim_hash (st s' b') = Some h \<or> inact_hash (st s' b') = Some h)
          = (prim_hash (st s1 b') = Some h \<or> inact_hash (st s1 b') = Some h)" for b'
        using st1 by (cases "b' = ?b") (simp_all add: s'(4))
      then show ?thesis by (simp add: registered_def)
    qed
    moreover have "register_completed_block ops cb handle policy s = Some (p, s')"
      using s1(1) False s'(1) by (simp add: register_completed_block_def)
    moreover have "frame s s'" by (rule frame_trans [OF registers_inD(1) [OF s1(2)] only_slots_frame [OF s'(3)]])
    moreover have "dead_ptrs s' = dead_ptrs s"
      unfolding registers_inD(3) [OF s1(2), symmetric] by (rule dead_ptrs_cong [OF release_staged_inners [OF s'(1)]])
    moreover have "keeps_guards {?b} s s'"
      using keeps_guards_trans [OF registers_inD(2) [OF s1(2)] only_slots_keeps_guards [OF s'(3), of "{?b}"]] by simp
    ultimately show ?thesis using s'(2,4) registers_inD(4) [OF s1(2)] False
      by (intro exI [of _ p] exI [of _ s']) simp
  qed
qed

text \<open>The batch: item \<open>i\<close> adds a presence unless it is rejected, because its hash was registered before
  or earlier in the batch.\<close>

lemma register_loop_step:
  assumes "LI E dm dp s" "dead_ok s" "distinct (map (cb_block_id \<circ> fst) items)"
    "\<forall>(cb, handle) \<in> set items. st s (cb_block_id cb) = Staged (cb_seq_hash cb)"
  shows "\<exists>ps added s'. register_loop ops items policy s = Some (ps, added, s')
    \<and> length ps = length items \<and> length added = length items
    \<and> (\<forall>i < length items. added ! i \<longleftrightarrow> policy = Allow \<or> \<not> registered s (cb_seq_hash (fst (items ! i)))
         \<and> cb_seq_hash (fst (items ! i)) \<notin> (cb_seq_hash \<circ> fst) ` set (take i items))
    \<and> LI (add_refs ps E) dm (book dp (map fst (filter snd (zip (map snd items) added)))) s' \<and> dead_ok s'
    \<and> frame s s' \<and> (\<forall>h. registered s' h \<longleftrightarrow> registered s h \<or> h \<in> (cb_seq_hash \<circ> fst) ` set items)
    \<and> keeps_guards ((cb_block_id \<circ> fst) ` set items) s s' \<and> dead_ptrs s' = dead_ptrs s
    \<and> (\<forall>i < length items. if added ! i then \<not> guarded (st s' (cb_block_id (fst (items ! i))))
         else st s' (cb_block_id (fst (items ! i))) = Staged (cb_seq_hash (fst (items ! i))))"
  using assms
proof (induction items arbitrary: E dp s)
  case Nil
  then show ?case by (simp add: keeps_guards_refl)
next
  case (Cons item items)
  obtain cb handle where item: "item = (cb, handle)" by (cases item)
  let ?b = "cb_block_id cb" and ?h = "cb_seq_hash cb"
  let ?add = "policy = Allow \<or> \<not> registered s ?h"
  have b: "st s ?b = Staged ?h" using Cons.prems(4) by (simp add: item)
  from register_one_step [OF Cons.prems(1,2) b, of handle policy] obtain p s1 where
    s1: "register_one ops cb handle policy s = Some (p, ?add, s1)" "registers_in s ?b ?h s1"
      "LI (E(p := E p + 1)) dm (book dp (if ?add then [handle] else [])) s1"
    and b1: "if ?add then \<not> guarded (st s1 ?b) else st s1 ?b = Staged ?h"
    by (elim exE conjE) (rule that, assumption+, simp)
  have staged: "\<forall>(cb, handle) \<in> set items. st s1 (cb_block_id cb) = Staged (cb_seq_hash cb)"
  proof clarify
    fix cb' handle' assume in_items: "(cb', handle') \<in> set items"
    then have "cb_block_id cb' \<noteq> ?b" using Cons.prems(3) by (force simp: item)
    moreover have "st s (cb_block_id cb') = Staged (cb_seq_hash cb')" using Cons.prems(4) in_items by auto
    moreover note registers_inD(2) [OF s1(2)]
    ultimately show "st s1 (cb_block_id cb') = Staged (cb_seq_hash cb')"
      using keeps_guardsD [of "{?b}" s s1 "cb_block_id cb'"] by simp
  qed
  have dead1: "dead_ok s1" and reg1: "\<And>h'. registered s1 h' \<longleftrightarrow> registered s h' \<or> h' = ?h" and fr: "frame s s1"
    using s1(2) by (auto simp: registers_in_def)
  have dist: "distinct (map (cb_block_id \<circ> fst) items)" using Cons.prems(3) by (simp add: comp_def)
  from Cons.IH [OF s1(3) dead1 dist staged] obtain ps added s' where
    s': "register_loop ops items policy s1 = Some (ps, added, s')" "length ps = length items" "length added = length items"
      "\<forall>i < length items. added ! i \<longleftrightarrow> policy = Allow \<or> \<not> registered s1 (cb_seq_hash (fst (items ! i)))
         \<and> cb_seq_hash (fst (items ! i)) \<notin> (cb_seq_hash \<circ> fst) ` set (take i items)"
      "LI (add_refs ps (E(p := E p + 1))) dm (book (book dp (if ?add then [handle] else []))
         (map fst (filter snd (zip (map snd items) added)))) s'" "dead_ok s'" "frame s1 s'"
      "\<forall>h. registered s' h \<longleftrightarrow> registered s1 h \<or> h \<in> (cb_seq_hash \<circ> fst) ` set items"
      "keeps_guards ((cb_block_id \<circ> fst) ` set items) s1 s'" "dead_ptrs s' = dead_ptrs s1"
      "\<forall>i < length items. if added ! i then \<not> guarded (st s' (cb_block_id (fst (items ! i))))
         else st s' (cb_block_id (fst (items ! i))) = Staged (cb_seq_hash (fst (items ! i)))"
    by (elim exE conjE) (rule that)
  have "register_loop ops (item # items) policy s = Some (p # ps, ?add # added, s')"
    using s1(1) s'(1) by (simp add: item)
  moreover have "(?add # added) ! i \<longleftrightarrow> policy = Allow \<or> \<not> registered s (cb_seq_hash (fst ((item # items) ! i)))
       \<and> cb_seq_hash (fst ((item # items) ! i)) \<notin> (cb_seq_hash \<circ> fst) ` set (take i (item # items))"
    if "i < length (item # items)" for i
  proof (cases i)
    case (Suc j)
    then show ?thesis using that s'(4) [rule_format, of j] reg1 by (auto simp: item)
  qed (auto simp: item)
  moreover have "LI (add_refs (p # ps) E) dm (book dp (map fst (filter snd (zip (map snd (item # items)) (?add # added))))) s'"
    using s'(5) by (auto simp: item)
  moreover have "registered s' h \<longleftrightarrow> registered s h \<or> h \<in> (cb_seq_hash \<circ> fst) ` set (item # items)" for h
    using s'(8) reg1 by (auto simp: item)
  moreover have "keeps_guards ((cb_block_id \<circ> fst) ` set (item # items)) s s'"
  proof -
    from keeps_guards_trans [OF registers_inD(2) [OF s1(2)] s'(9)] show ?thesis by (simp add: item)
  qed
  moreover have "dead_ptrs s' = dead_ptrs s" using registers_inD(3) [OF s1(2)] s'(10) by simp
  moreover have "if (?add # added) ! i then \<not> guarded (st s' (cb_block_id (fst ((item # items) ! i))))
      else st s' (cb_block_id (fst ((item # items) ! i))) = Staged (cb_seq_hash (fst ((item # items) ! i)))"
    if "i < length (item # items)" for i
  proof (cases i)
    case 0
    have out: "?b \<notin> (cb_block_id \<circ> fst) ` set items" using Cons.prems(3) by (simp add: item)
    note keep = keeps_guardsD [OF s'(9) out]
    show ?thesis
    proof (cases ?add)
      case True
      with b1 have "\<not> guarded (st s1 ?b)" by simp
      with keep have "\<not> guarded (st s' ?b)" by metis
      with 0 True show ?thesis by (simp add: item)
    next
      case False
      with b1 have "st s1 ?b = Staged ?h" by simp
      with keep have "st s' ?b = Staged ?h" by simp
      with 0 False show ?thesis by (simp add: item)
    qed
  next
    case (Suc j)
    with that s'(11) show ?thesis by simp
  qed
  ultimately show ?case
    using s'(2,3,6) frame_trans [OF fr s'(7)]
    by (intro exI [of _ "p # ps"] exI [of _ "?add # added"] exI [of _ s']) simp
qed

lemma fold_mark_present_filter:
  "fold (\<lambda>(handle, add). if add then mark_present handle else id) xs s = fold mark_present (map fst (filter snd xs)) s"
  by (induction xs arbitrary: s) auto

lemma register_blocks_step:
  assumes inv: "SI E dm s" and dead: "dead_ok s"
    and blocks: "distinct (map cb_block_id blocks)" "\<forall>cb \<in> set blocks. st s (cb_block_id cb) = Staged (cb_seq_hash cb)"
    and handles: "list_all2 (\<lambda>cb handle. cb_seq_hash cb = handle_seq_hash handle) blocks handles"
  shows "\<exists>ps rejected s'. register_blocks ops blocks handles policy s = Some ((ps, rejected), s')
    \<and> SI (add_refs ps E) dm s' \<and> length ps = length blocks
    \<and> rejected = filter (\<lambda>(i, cb). policy = Reject \<and> (registered s (cb_seq_hash cb)
         \<or> cb_seq_hash cb \<in> cb_seq_hash ` set (take i blocks))) (zip [0..<length blocks] blocks)
    \<and> (\<forall>h. registered s' h \<longleftrightarrow> registered s h \<or> h \<in> cb_seq_hash ` set blocks)
    \<and> keeps_guards (cb_block_id ` set blocks) s s' \<and> dead_ptrs s' = dead_ptrs s
    \<and> (\<forall>i < length blocks. if (i, blocks ! i) \<in> set rejected
         then st s' (cb_block_id (blocks ! i)) = Staged (cb_seq_hash (blocks ! i))
         else \<not> guarded (st s' (cb_block_id (blocks ! i))))"
proof (cases "blocks = []")
  case True
  with handles inv show ?thesis
    by (simp add: register_blocks_def assert_that_def keeps_guards_refl)
next
  case False
  let ?items = "zip blocks handles"
  have len: "length blocks = length handles" using handles by (rule list_all2_lengthD)
  have fst_items: "map fst ?items = blocks" and snd_items: "map snd ?items = handles" using len by simp_all
  have "distinct (map (cb_block_id \<circ> fst) ?items)" using blocks(1) fst_items by (metis map_map)
  moreover have "\<forall>(cb, handle) \<in> set ?items. st s (cb_block_id cb) = Staged (cb_seq_hash cb)"
    using blocks(2) by (auto dest: set_zip_leftD)
  ultimately obtain ps added s1 where
    s1: "register_loop ops ?items policy s = Some (ps, added, s1)" "length ps = length ?items" "length added = length ?items"
      "\<forall>i < length ?items. added ! i \<longleftrightarrow> policy = Allow \<or> \<not> registered s (cb_seq_hash (fst (?items ! i)))
         \<and> cb_seq_hash (fst (?items ! i)) \<notin> (cb_seq_hash \<circ> fst) ` set (take i ?items)"
      "LI (add_refs ps E) dm (book (\<lambda>_. 0) (map fst (filter snd (zip (map snd ?items) added)))) s1"
      "\<forall>h. registered s1 h \<longleftrightarrow> registered s h \<or> h \<in> (cb_seq_hash \<circ> fst) ` set ?items"
      "keeps_guards ((cb_block_id \<circ> fst) ` set ?items) s s1" "dead_ptrs s1 = dead_ptrs s"
      "\<forall>i < length ?items. if added ! i then \<not> guarded (st s1 (cb_block_id (fst (?items ! i))))
         else st s1 (cb_block_id (fst (?items ! i))) = Staged (cb_seq_hash (fst (?items ! i)))"
    using register_loop_step [OF inv [unfolded SI_iff_MI] dead] by blast
  let ?s = "fold mark_present (map fst (filter snd (zip handles added))) s1"
  let ?rej = "filter (\<lambda>(i, _). \<not> added ! i) (zip [0..<length blocks] blocks)"
  have "register_blocks ops blocks handles policy s = Some ((ps, ?rej), ?s)"
    using False len handles s1(1) by (simp add: register_blocks_def assert_that_def fold_mark_present_filter)
  moreover have "SI (add_refs ps E) dm ?s" using MI_book [OF s1(5)] by (simp add: SI_iff_MI snd_items)
  moreover have hashes: "(cb_seq_hash \<circ> fst) ` set ?items = cb_seq_hash ` set blocks"
    "(cb_seq_hash \<circ> fst) ` set (take i ?items) = cb_seq_hash ` set (take i blocks)" for i
    using fst_items by (metis image_comp list.set_map, metis image_comp list.set_map take_map)
  moreover have "?rej = filter (\<lambda>(i, cb). policy = Reject \<and> (registered s (cb_seq_hash cb)
         \<or> cb_seq_hash cb \<in> cb_seq_hash ` set (take i blocks))) (zip [0..<length blocks] blocks)"
  proof (rule filter_cong [OF refl])
    fix x assume "x \<in> set (zip [0..<length blocks] blocks)"
    then obtain i where i: "i < length blocks" "x = (i, blocks ! i)" by (auto simp: set_zip)
    with s1(4) [rule_format, of i] len hashes(2) [of i]
    show "(case x of (i, _) \<Rightarrow> \<not> added ! i) = (case x of (i, cb) \<Rightarrow> policy = Reject \<and> (registered s (cb_seq_hash cb)
         \<or> cb_seq_hash cb \<in> cb_seq_hash ` set (take i blocks)))"
      by (cases policy) auto
  qed
  moreover have "registered ?s h = registered s1 h" for h by (simp add: registered_def)
  moreover have "keeps_guards (cb_block_id ` set blocks) s ?s"
  proof -
    have ids: "(cb_block_id \<circ> fst) ` set ?items = cb_block_id ` set blocks"
      unfolding image_comp [symmetric] using arg_cong [OF fst_items, of set] by (simp only: list.set_map)
    show ?thesis by (rule keeps_guards_cong [OF s1(7) [unfolded ids]]) simp_all
  qed
  moreover have "dead_ptrs ?s = dead_ptrs s" 
    unfolding s1(8) [symmetric] by (rule dead_ptrs_cong) simp
  moreover have last: "\<forall>i < length blocks. if (i, blocks ! i) \<in> set ?rej
      then st ?s (cb_block_id (blocks ! i)) = Staged (cb_seq_hash (blocks ! i))
      else \<not> guarded (st ?s (cb_block_id (blocks ! i)))"
  proof (intro allI impI)
    fix i assume i: "i < length blocks"
    have "(i, blocks ! i) \<in> set ?rej \<longleftrightarrow> \<not> added ! i" using i by (auto simp: set_zip intro!: exI [of _ i])
    with s1(9) [rule_format, of i] i len
    show "if (i, blocks ! i) \<in> set ?rej
      then st ?s (cb_block_id (blocks ! i)) = Staged (cb_seq_hash (blocks ! i))
      else \<not> guarded (st ?s (cb_block_id (blocks ! i)))" by (cases "added ! i") simp_all
  qed
  moreover have "length ps = length blocks" "\<forall>h. registered ?s h \<longleftrightarrow> registered s h \<or> h \<in> cb_seq_hash ` set blocks"
    using s1(2,6) len calculation(3) by (simp_all add: registered_def)
  ultimately show ?thesis by (intro exI [of _ ps] exI [of _ ?rej] exI [of _ ?s] conjI) assumption+
qed

end

end
