(* ===== verification/Block_Store_Frame.thy ===== *)
theory Block_Store_Frame
  imports Block_Store_Register
begin

text \<open>
  What the operations leave alone: allocation and the guards' transitions do not touch the heap of
  inner values, and only the guards of immutable blocks change the in-flight gauge.
\<close>

text \<open>The heap of inner values and the in-flight gauge are changed by no allocation.\<close>

definition infl :: "('h, 'i) block_store \<Rightarrow> int" where
  "infl s = inflight_immutable (metrics s)"

definition same_heap :: "('h, 'i) block_store \<Rightarrow> ('h, 'i) block_store \<Rightarrow> bool" where
  "same_heap s s' \<longleftrightarrow> inners s' = inners s \<and> infl s' = infl s"

lemma same_heap_refl [simp]: "same_heap s s"
  by (simp add: same_heap_def)

lemma same_heap_trans: "same_heap s s' \<Longrightarrow> same_heap s' s'' \<Longrightarrow> same_heap s s''"
  by (simp add: same_heap_def)

lemma same_heap_upd [simp]:
  "same_heap s (s'\<lparr>free := F\<rparr>) = same_heap s s'" "same_heap s (s'\<lparr>fenced := F\<rparr>) = same_heap s s'"
  "same_heap s (s'\<lparr>inactive := i\<rparr>) = same_heap s s'" "same_heap s (slots_update f s') = same_heap s s'"
  "same_heap s (reset_on_release_update u s') = same_heap s s'"
  "same_heap s (capacity_update z s') = same_heap s s'" "same_heap s (fence_update w s') = same_heap s s'"
  "same_heap s (presence_update g s') = same_heap s s'" "same_heap s (active_by_hash_update h s') = same_heap s s'"
  by (simp_all add: same_heap_def infl_def)

lemma same_heap_from [simp]:
  "same_heap (s\<lparr>free := F\<rparr>) s' = same_heap s s'" "same_heap (s\<lparr>inactive := i\<rparr>) s' = same_heap s s'"
  "same_heap (slots_update f s) s' = same_heap s s'" "same_heap (dec_inactive_pool_size_by n s) s' = same_heap s s'"
  "same_heap (inc_inactive_pool_size_by n s) s' = same_heap s s'"
  by (simp_all add: same_heap_def infl_def metrics_defs)

lemma same_heap_metrics [simp]:
  "same_heap s (inc_reset_pool_size_by n s') = same_heap s s'" "same_heap s (dec_reset_pool_size_by n s') = same_heap s s'"
  "same_heap s (inc_inactive_pool_size_by n s') = same_heap s s'" "same_heap s (dec_inactive_pool_size_by n s') = same_heap s s'"
  "same_heap s (inc_inflight_mutable_by n s') = same_heap s s'" "same_heap s (dec_inflight_mutable_by n s') = same_heap s s'"
  "same_heap s (inc_evictions k s') = same_heap s s'" "same_heap s (inc_allocations k k' s') = same_heap s s'"
  "same_heap s (metrics_update (allocate_atomic_rollback_update f) s') = same_heap s s'"
  "same_heap s (metrics_update (stagings_update f) s') = same_heap s s'"
  by (simp_all add: same_heap_def infl_def metrics_defs)

lemma same_heap_push [simp]: "same_heap s (push_reset_id_locked b s') = same_heap s s'"
  by (simp add: push_reset_id_locked_def)

lemma same_heap_pushes [simp]: "same_heap s (fold push_reset_id_locked bs s') = same_heap s s'"
  by (induction bs arbitrary: s') simp_all

lemma same_heap_absent [simp]: "same_heap s (mark_absent k s') = same_heap s s'"
  by (simp add: mark_absent_def)

lemma same_heap_absents [simp]: "same_heap s (fold mark_absent ks s') = same_heap s s'"
  by (induction ks arbitrary: s') simp_all

lemma same_heap_repush [simp]: "same_heap s (repush_reset_ids s') = same_heap s s'"
  by (simp add: repush_reset_ids_def Let_def)

lemma same_heap_set_state: "set_state b x s = Some s' \<Longrightarrow> same_heap s s'"
  by (auto simp: set_state_def split: if_splits)

lemma same_heap_flag: "set_reset_flag b v s = Some s' \<Longrightarrow> same_heap s s'"
  by (auto simp: set_reset_flag_def split: if_splits)

lemma same_heap_reset_slot: "reset_slot_locked b s = Some s' \<Longrightarrow> same_heap s s'"
  by (auto simp: reset_slot_locked_def bind_eq_Some_conv dest: same_heap_set_state)

lemma same_heap_mutable_slot: "allocate_mutable_slot b s = Some (n, s') \<Longrightarrow> same_heap s s'"
  by (auto simp: allocate_mutable_slot_def bind_eq_Some_conv Let_def dest: same_heap_flag)

lemma same_heap_evict_slot: "evict_slot c b s = Some (bl, k, s') \<Longrightarrow> same_heap s s'"
  by (auto simp: evict_slot_def bind_eq_Some_conv split: if_splits
      dest!: same_heap_mutable_slot same_heap_flag same_heap_reset_slot elim: same_heap_trans)

lemma same_heap_evict_pairs: "evict_pairs c ps s = Some (bl, ev, hs, s') \<Longrightarrow> same_heap s s'"
proof (induction ps arbitrary: s bl ev hs)
  case (Cons hb ps)
  then show ?case
    by (cases hb) (auto simp: bind_eq_Some_conv dest!: same_heap_evict_slot elim: same_heap_trans)
qed simp

lemma same_heap_evict_tail: "evict_tail ops c bs s = Some (bl, ev, hs, s') \<Longrightarrow> same_heap s s'"
proof (induction bs arbitrary: s bl ev hs)
  case (Cons b bs)
  from Cons.prems obtain slot where slot: "index_slot s b = Some slot" by (auto simp: bind_eq_Some_conv)
  show ?case
  proof (cases "\<exists>h k. slot_state slot = Inactive h k")
    case True
    with Cons.prems slot show ?thesis
      by (auto simp: bind_eq_Some_conv dest!: same_heap_evict_pairs Cons.IH) (rule same_heap_trans)
  next
    case False
    with Cons.prems slot have "evict_tail ops c bs s = Some (bl, ev, hs, s')" by (cases "slot_state slot") auto
    then show ?thesis by (rule Cons.IH)
  qed
qed simp

lemma same_heap_stage_ids: "stage_reset_ids n s = Some (ids, s') \<Longrightarrow> same_heap s s'"
proof (induction n arbitrary: s ids)
  case (Suc n)
  then show ?case
    by (auto simp: bind_eq_Some_conv pop_first_free_def split: if_splits dest!: Suc.IH elim: same_heap_trans)
qed simp

lemma same_heap_commit_ids: "commit_reset_ids ids s = Some (bl, s') \<Longrightarrow> same_heap s s'"
  by (induction ids arbitrary: s bl)
     (auto simp: bind_eq_Some_conv dest!: same_heap_mutable_slot elim: same_heap_trans)

lemma same_heap_reinsert: "reinsert_pairs ops ps s = Some s' \<Longrightarrow> same_heap s s'"
proof (induction ps arbitrary: s)
  case (Cons hb ps)
  then show ?case
    by (cases hb) (auto simp: bind_eq_Some_conv dest!: Cons.IH elim: same_heap_trans)
qed simp

lemma same_heap_commit_victims: "commit_victims ops c U ps s = Some (bl, ev, hs, s') \<Longrightarrow> same_heap s s'"
proof (induction ps arbitrary: s bl ev hs)
  case (Cons hb ps)
  then show ?case
    by (cases hb) (auto simp: bind_eq_Some_conv split: if_splits dest!: same_heap_evict_slot Cons.IH
        elim: same_heap_trans)
qed simp

lemma same_heap_allocate_atomic:
  assumes "allocate_atomic ops n s = Some (r, s')"
  shows "same_heap s s'"
  using assms
  by (auto simp: allocate_atomic_def Let_def bind_eq_Some_conv split: if_splits
      dest!: same_heap_stage_ids same_heap_commit_ids same_heap_commit_victims same_heap_reinsert)
    (blast intro: same_heap_trans)+

lemma same_heap_reset_loop: "allocate_reset_loop n s = Some (bl, s') \<Longrightarrow> same_heap s s'"
proof (induction n arbitrary: s bl)
  case (Suc n)
  then show ?case
    by (auto simp: bind_eq_Some_conv pop_first_free_def split: if_splits dest!: same_heap_mutable_slot Suc.IH)
      (blast intro: same_heap_trans)
qed simp

lemma same_heap_reset_blocks: "allocate_reset_blocks n s = Some (bl, s') \<Longrightarrow> same_heap s s'"
  by (auto simp: allocate_reset_blocks_def allocate_reset_blocks_locked_def bind_eq_Some_conv dest!: same_heap_reset_loop)

lemma same_heap_drain: "drain_inactive_to_mutable ops s = Some (r, s') \<Longrightarrow> same_heap s s'"
  by (auto simp: drain_inactive_to_mutable_def bind_eq_Some_conv Let_def dest!: same_heap_evict_pairs)

lemma same_heap_tail: "inactive_tail_to_mutable ops m s = Some (r, s') \<Longrightarrow> same_heap s s'"
  by (auto simp: inactive_tail_to_mutable_def bind_eq_Some_conv Let_def dest!: same_heap_evict_tail)

lemma same_heap_set_capacity: "set_capacity ops cap s = Some (r, s') \<Longrightarrow> same_heap s s'"
  by (cases "check_capacity s cap"; cases "the (check_capacity s cap)")
     (auto simp: set_capacity_def Let_def split: if_splits)

lemma same_heap_ceiling: "set_allocation_ceiling f s = (r, s') \<Longrightarrow> same_heap s s'"
  by (auto simp: set_allocation_ceiling_def split: option.splits if_splits)

lemma same_heap_guards:
  "release_mutable b s = Some s' \<Longrightarrow> same_heap s s'" "release_staged b s = Some s' \<Longrightarrow> same_heap s s'"
  "transition_to_staged b h s = Some s' \<Longrightarrow> same_heap s s'" "transition_back_to_mutable b s = Some s' \<Longrightarrow> same_heap s s'"
  by (auto simp: release_mutable_def release_staged_def transition_to_staged_def transition_back_to_mutable_def
      bind_eq_Some_conv dest!: same_heap_set_state same_heap_flag elim: same_heap_trans)

text \<open>The gauge is changed by no lookup or registration either.\<close>

lemma infl_upd [simp]:
  "infl (s\<lparr>inactive := i\<rparr>) = infl s" "infl (slots_update f s) = infl s" "infl (active_by_hash_update g s) = infl s"
  "infl (inners_update v s) = infl s" "infl (next_ptr_update w s) = infl s" "infl (presence_update x s) = infl s"
  "infl (reset_on_release_update u s) = infl s"
  "infl (inc_inactive_pool_size_by n s) = infl s" "infl (dec_inactive_pool_size_by n s) = infl s"
  "infl (metrics_update (eager_primary_to_inactive_update f1) s) = infl s"
  "infl (metrics_update (duplicate_blocks_update f1) s) = infl s"
  "infl (metrics_update (registration_dedup_update f1) s) = infl s"
  "infl (metrics_update (release_primary_noop_update f1) s) = infl s"
  "infl (metrics_update (release_duplicate_noop_update f1) s) = infl s"
  "infl (mark_present k s) = infl s" "infl (mark_absent k s) = infl s" "infl (set_strong p c s) = infl s"
  by (simp_all add: infl_def metrics_defs mark_present_def mark_absent_def set_strong_def)

lemma infl_same_heap: "same_heap s s' \<Longrightarrow> infl s' = infl s"
  by (simp add: same_heap_def)

lemma infl_set_state: "set_state b x s = Some s' \<Longrightarrow> infl s' = infl s"
  by (auto simp: set_state_def split: if_splits)

lemma infl_tenure: "enter_inactive_tenure_locked ops b h k s = Some s' \<Longrightarrow> infl s' = infl s"
  by (auto simp: enter_inactive_tenure_locked_def set_inactive_tenure_state_locked_def bind_eq_Some_conv)

lemma infl_eager: "eager_primary_to_inactive_locked ops h b s = Some s' \<Longrightarrow> infl s' = infl s"
  by (auto simp: eager_primary_to_inactive_locked_def bind_eq_Some_conv Let_def dest: infl_tenure)

lemma infl_resurrect: "resurrect_slot h b s = Some (p, s') \<Longrightarrow> infl s' = infl s"
  by (auto simp: resurrect_slot_def new_primary_def new_inner_def bind_eq_Some_conv Let_def dest!: infl_set_state)

lemma infl_weak_upgrade: "weak_upgrade p s = (r, s') \<Longrightarrow> infl s' = infl s"
  by (auto simp: weak_upgrade_def split: option.splits if_splits)

lemma infl_acquire_registered:
  assumes "acquire_registered_for_hash_locked ops h t s = Some (r, s')"
  shows "infl s' = infl s"
proof -
  let ?lookup = "case active_by_hash s h of
        None \<Rightarrow> Some (None, s)
      | Some b \<Rightarrow> do {
          slot \<leftarrow> index_slot s b;
          weak \<leftarrow> (case slot_state slot of Primary _ _ weak \<Rightarrow> Some weak | _ \<Rightarrow> None);
          let (live, s) = weak_upgrade weak s;
          if live \<noteq> None then Some (live, s)
          else do {
            s \<leftarrow> eager_primary_to_inactive_locked ops h b s;
            Some (None, s)
          }
        }"
  have lookup: "infl s1 = infl s" if "?lookup = Some (live, s1)" for live s1
  proof (cases "active_by_hash s h")
    case (Some b)
    with that obtain slot weak where "index_slot s b = Some slot"
      "(case slot_state slot of Primary _ _ weak \<Rightarrow> Some weak | _ \<Rightarrow> None) = Some weak"
      by (auto simp: bind_eq_Some_conv)
    moreover obtain up s2 where "weak_upgrade weak s = (up, s2)" by (cases "weak_upgrade weak s")
    ultimately show ?thesis
      using that Some infl_weak_upgrade [of weak s up s2] infl_eager [of ops h b s2 s1]
      by (auto simp: bind_eq_Some_conv split: if_splits)
  qed (use that in simp)
  from assms obtain live s1 where s1: "?lookup = Some (live, s1)"
    "(if live \<noteq> None then Some (live, s1) else do {
       (found, i) \<leftarrow> ix_find_match ops h t (inactive s1);
       let s = s1\<lparr>inactive := i\<rparr>;
       case found of
         None \<Rightarrow> Some (None, s)
       | Some (_, b) \<Rightarrow> do {
           (p, s) \<leftarrow> resurrect_slot h b (dec_inactive_pool_size_by 1 s);
           Some (Some p, s)
         }
     }) = Some (r, s')"
    by (auto simp: acquire_registered_for_hash_locked_def bind_eq_Some_conv)
  from s1(2) have "infl s' = infl s1"
    by (auto simp: bind_eq_Some_conv Let_def split: if_splits option.splits dest!: infl_resurrect)
  with lookup [OF s1(1)] show ?thesis by simp
qed

lemma infl_acquire: "acquire_for_hash_locked ops h t s = Some (r, s') \<Longrightarrow> infl s' = infl s"
  by (auto simp: acquire_for_hash_locked_def split: if_splits dest: infl_acquire_registered)

lemma infl_match_prefix: "match_prefix_locked_batch ops hs s = Some (ps, s') \<Longrightarrow> infl s' = infl s"
  by (induction hs arbitrary: s ps)
     (auto simp: bind_eq_Some_conv split: option.splits dest!: infl_acquire)

lemma infl_promote_pairs: "promote_pairs ps s = Some (r, s') \<Longrightarrow> infl s' = infl s"
proof (induction ps arbitrary: s r)
  case (Cons hb ps)
  then show ?case by (cases hb) (auto simp: bind_eq_Some_conv dest!: infl_resurrect)
qed simp

lemma infl_promote: "promote_inactive ops hs t scan s = Some (r, s') \<Longrightarrow> infl s' = infl s"
  by (auto simp: promote_inactive_def bind_eq_Some_conv Let_def split: if_splits list.splits option.splits
      dest!: infl_promote_pairs)

lemma infl_register_one:
  assumes "register_one ops cb k policy s = Some (p, a, s')"
  shows "infl s' = infl s"
proof -
  from assms obtain existing s1 where
    s1: "acquire_registered_for_hash_locked ops (cb_seq_hash cb) False s = Some (existing, s1)"
    by (auto simp: register_one_def Let_def bind_eq_Some_conv)
  with assms have "infl s' = infl s1"
    by (cases existing; cases policy)
       (auto simp: register_one_def new_primary_def new_duplicate_def new_inner_def Let_def bind_eq_Some_conv
         dest!: infl_set_state)
  with infl_acquire_registered [OF s1] show ?thesis by simp
qed

lemma infl_register: "register_completed_block ops cb k policy s = Some (p, s') \<Longrightarrow> infl s' = infl s"
  by (auto simp: register_completed_block_def bind_eq_Some_conv split: if_splits
      dest!: infl_register_one same_heap_guards(2) infl_same_heap)

lemma infl_register_loop: "register_loop ops items policy s = Some (ps, ad, s') \<Longrightarrow> infl s' = infl s"
proof (induction items arbitrary: s ps ad)
  case (Cons x items)
  then show ?case by (cases x) (auto simp: bind_eq_Some_conv dest!: infl_register_one)
qed simp

lemma infl_mark_presents [simp]:
  "infl (fold (\<lambda>(k, add). if add then mark_present k else id) xs s) = infl s"
  by (induction xs arbitrary: s) auto

lemma infl_register_blocks: "register_blocks ops cbs ks policy s = Some (r, s') \<Longrightarrow> infl s' = infl s"
  by (auto simp: register_blocks_def bind_eq_Some_conv Let_def split: if_splits dest!: infl_register_loop)

lemma infl_reset_slot: "reset_slot_locked b s = Some s' \<Longrightarrow> infl s' = infl s"
  by (rule infl_same_heap [OF same_heap_reset_slot])

lemma infl_release_primary:
  assumes "release_primary ops p s = Some s'"
  shows "infl s' = infl s"
proof -
  from assms obtain n slot where "inners s p = Some n" "index_slot s (in_block_id n) = Some slot"
    by (auto simp: release_primary_def bind_eq_Some_conv Let_def)
  with assms show ?thesis
    by (cases "slot_state slot")
       (auto simp: release_primary_def bind_eq_Some_conv Let_def split: if_splits dest!: infl_tenure infl_reset_slot)
qed

lemma infl_release_duplicate:
  assumes "release_duplicate p s = Some s'"
  shows "infl s' = infl s"
proof -
  from assms obtain n slot where "inners s p = Some n" "index_slot s (in_block_id n) = Some slot"
    by (auto simp: release_duplicate_def bind_eq_Some_conv Let_def)
  with assms show ?thesis
    by (cases "slot_state slot")
       (auto simp: release_duplicate_def bind_eq_Some_conv Let_def split: if_splits dest!: infl_reset_slot)
qed

lemma infl_inner_drop: "inner_drop ops p s = Some (k, s') \<Longrightarrow> infl s' = infl s"
  by (auto simp: inner_drop_def bind_eq_Some_conv split: if_splits dest!: infl_release_primary infl_release_duplicate)

end
