(* ===== verification/Block_Store_System.thy ===== *)
theory Block_Store_System
  imports Block_Store_Frame
begin

text \<open>
  A block store with its clients: the guards they hold, and the drops that are under way. A drop of
  the last reference is two steps, the decrement of the count and the drop of the inner value, and any
  other operation can run between them. The step relation has one rule per operation of the store's
  interface; reachable states satisfy the store invariant, with the callers' references counted from
  the guards, and the guards are exactly the mutable and staged slots.
\<close>

section \<open>State and steps\<close>

record ('h, 'i) kv_system =
  sys_store :: "('h, 'i) block_store"
  sys_mutables :: "mutable_block list"
  sys_completes :: "'h complete_block list"
  sys_immutables :: "nat list"
  sys_keepalives :: "nat list"
  sys_dying :: "nat list"

text \<open>
  \<open>sys_immutables\<close> are the pointers of the \<open>ImmutableBlock\<close> guards, one entry per guard.
  \<open>sys_dying\<close> are the inner values whose count has reached zero and whose drop has not run yet, and
  \<open>sys_keepalives\<close> the keepalive references such a drop has taken out and not yet dropped.
\<close>

definition new_system :: "('h, 'i) block_store \<Rightarrow> ('h, 'i) kv_system" where
  "new_system s = \<lparr>sys_store = s, sys_mutables = [], sys_completes = [], sys_immutables = [],
     sys_keepalives = [], sys_dying = []\<rparr>"

text \<open>Replace the guards of the blocks \<open>B\<close>.\<close>

definition swap_guards ::
  "block_id set \<Rightarrow> mutable_block list \<Rightarrow> 'h complete_block list \<Rightarrow> ('h, 'i) kv_system \<Rightarrow> ('h, 'i) kv_system" where
  "swap_guards B ms cs c = c\<lparr>
     sys_mutables := filter (\<lambda>m. mb_block_id m \<notin> B) (sys_mutables c) @ ms,
     sys_completes := filter (\<lambda>cb. cb_block_id cb \<notin> B) (sys_completes c) @ cs\<rparr>"

text \<open>The guards made from the inner values an operation returned.\<close>

definition take_guards :: "nat list \<Rightarrow> ('h, 'i) block_store \<Rightarrow> ('h, 'i) kv_system \<Rightarrow> ('h, 'i) kv_system" where
  "take_guards ps s c = c\<lparr>sys_store := fold immutable_from_inner ps s, sys_immutables := sys_immutables c @ ps\<rparr>"

definition count_is_zero :: "('h, 'i) block_store \<Rightarrow> nat \<Rightarrow> bool" where
  "count_is_zero s p = (case inners s p of None \<Rightarrow> False | Some n \<Rightarrow> in_strong n = 0)"

text \<open>After a decrement the thread that reached zero owes the drop of the inner value.\<close>

definition owe_drop :: "nat \<Rightarrow> ('h, 'i) kv_system \<Rightarrow> ('h, 'i) kv_system" where
  "owe_drop p c = (if count_is_zero (sys_store c) p then c\<lparr>sys_dying := p # sys_dying c\<rparr> else c)"

definition counters_ok :: "('h, 'i) block_store \<Rightarrow> bool" where
  "counters_ok s \<longleftrightarrow> (\<forall>b < length (slots s). gen_ok s b \<and> epoch_ok s b)"

inductive sys_step :: "('h, 'i) index_ops \<Rightarrow> ('h, 'i) kv_system \<Rightarrow> ('h, 'i) kv_system \<Rightarrow> bool" for ops where
  allocated: "allocate_atomic ops n (sys_store c) = Some (Some (ms, ev), s') \<Longrightarrow>
    sys_step ops c (swap_guards {} ms [] (c\<lparr>sys_store := s'\<rparr>))"
| refused: "allocate_atomic ops n (sys_store c) = Some (None, s') \<Longrightarrow> sys_step ops c (c\<lparr>sys_store := s'\<rparr>)"
| allocated_reset: "allocate_reset_blocks n (sys_store c) = Some (ms, s') \<Longrightarrow>
    sys_step ops c (swap_guards {} ms [] (c\<lparr>sys_store := s'\<rparr>))"
| drained: "drain_inactive_to_mutable ops (sys_store c) = Some ((ms, ev), s') \<Longrightarrow>
    sys_step ops c (swap_guards {} ms [] (c\<lparr>sys_store := s'\<rparr>))"
| tail: "inactive_tail_to_mutable ops m (sys_store c) = Some ((ms, ev), s') \<Longrightarrow>
    sys_step ops c (swap_guards {} ms [] (c\<lparr>sys_store := s'\<rparr>))"
| resized: "set_capacity ops cap (sys_store c) = Some (r, s') \<Longrightarrow> sys_step ops c (c\<lparr>sys_store := s'\<rparr>)"
| fenced: "set_allocation_ceiling f (sys_store c) = (r, s') \<Longrightarrow> sys_step ops c (c\<lparr>sys_store := s'\<rparr>)"
| staged: "mb \<in> set (sys_mutables c) \<Longrightarrow> stage_block h bsize mb (sys_store c) = Some (Inr cb, s') \<Longrightarrow>
    sys_step ops c (swap_guards {mb_block_id mb} [] [cb] (c\<lparr>sys_store := s'\<rparr>))"
| unstaged: "cb \<in> set (sys_completes c) \<Longrightarrow> reset_complete_block cb (sys_store c) = Some (mb, s') \<Longrightarrow>
    sys_step ops c (swap_guards {cb_block_id cb} [mb] [] (c\<lparr>sys_store := s'\<rparr>))"
| dropped_mutable: "mb \<in> set (sys_mutables c) \<Longrightarrow> release_mutable (mb_block_id mb) (sys_store c) = Some s' \<Longrightarrow>
    sys_step ops c (swap_guards {mb_block_id mb} [] [] (c\<lparr>sys_store := s'\<rparr>))"
| dropped_complete: "cb \<in> set (sys_completes c) \<Longrightarrow> release_staged (cb_block_id cb) (sys_store c) = Some s' \<Longrightarrow>
    sys_step ops c (swap_guards {cb_block_id cb} [] [] (c\<lparr>sys_store := s'\<rparr>))"
| registered_block: "cb \<in> set (sys_completes c) \<Longrightarrow>
    register_completed_block ops cb handle policy (sys_store c) = Some (p, s') \<Longrightarrow>
    sys_step ops c (swap_guards {cb_block_id cb} [] [] (take_guards [p] s' c))"
| registered_batch: "set cbs \<subseteq> set (sys_completes c) \<Longrightarrow> distinct cbs \<Longrightarrow>
    register_blocks ops cbs handles policy (sys_store c) = Some ((ps, rejected), s') \<Longrightarrow>
    sys_step ops c (swap_guards (cb_block_id ` set cbs) [] (map snd rejected) (take_guards ps s' c))"
| matched: "match_prefix_locked_batch ops hs (sys_store c) = Some (ps, s') \<Longrightarrow> sys_step ops c (take_guards ps s' c)"
| scanned: "scan_inactive_primaries ops hs touch (sys_store c) = Some (res, s') \<Longrightarrow>
    sys_step ops c (take_guards (map snd res) s' c)"
| matched_inactive: "match_inactive_primaries ops hs (sys_store c) = Some (res, s') \<Longrightarrow>
    sys_step ops c (take_guards (map snd res) s' c)"
| cloned: "p \<in> set (sys_immutables c) \<Longrightarrow> immutable_clone p (sys_store c) = Some s' \<Longrightarrow>
    sys_step ops c (c\<lparr>sys_store := s', sys_immutables := sys_immutables c @ [p]\<rparr>)"
| upgraded: "weak_block_upgrade ops handle weak (sys_store c) = Some (found, s') \<Longrightarrow>
    sys_step ops c (c\<lparr>sys_store := s', sys_immutables := sys_immutables c @ (case found of None \<Rightarrow> [] | Some p \<Rightarrow> [p])\<rparr>)"
| flagged: "p \<in> set (sys_immutables c) \<Longrightarrow> store_reset_on_release_inner p v (sys_store c) = Some s' \<Longrightarrow>
    sys_step ops c (c\<lparr>sys_store := s'\<rparr>)"
| dropped_immutable: "p \<in> set (sys_immutables c) \<Longrightarrow> arc_dec p (dec_inflight_immutable (sys_store c)) = Some s' \<Longrightarrow>
    sys_step ops c (owe_drop p (c\<lparr>sys_store := s', sys_immutables := remove1 p (sys_immutables c)\<rparr>))"
| dropped_keepalive: "p \<in> set (sys_keepalives c) \<Longrightarrow> arc_dec p (sys_store c) = Some s' \<Longrightarrow>
    sys_step ops c (owe_drop p (c\<lparr>sys_store := s', sys_keepalives := remove1 p (sys_keepalives c)\<rparr>))"
| dropped_inner: "p \<in> set (sys_dying c) \<Longrightarrow> inner_drop ops p (sys_store c) = Some (keepalive, s') \<Longrightarrow>
    sys_step ops c (c\<lparr>sys_store := s', sys_dying := remove1 p (sys_dying c),
      sys_keepalives := (case keepalive of None \<Rightarrow> [] | Some q \<Rightarrow> [q]) @ sys_keepalives c\<rparr>)"

text \<open>Reachable states; a slot whose generation or epoch counter is at its maximum ends the run.\<close>

inductive sys_reach :: "('h, 'i) index_ops \<Rightarrow> ('h, 'i) kv_system \<Rightarrow> ('h, 'i) kv_system \<Rightarrow> bool" for ops c0 where
  reach_init: "sys_reach ops c0 c0"
| reach_step: "sys_reach ops c0 c \<Longrightarrow> counters_ok (sys_store c) \<Longrightarrow> sys_step ops c c' \<Longrightarrow> sys_reach ops c0 c'"

section \<open>The invariant of the system\<close>

definition sys_refs :: "('h, 'i) kv_system \<Rightarrow> nat \<Rightarrow> nat" where
  "sys_refs c p = count_list (sys_immutables c) p + count_list (sys_keepalives c) p"

text \<open>The guards are exactly the mutable and staged slots, one guard per slot.\<close>

definition guards_ok :: "mutable_block list \<Rightarrow> 'h complete_block list \<Rightarrow> (block_id \<Rightarrow> 'h slot_state) \<Rightarrow> bool" where
  "guards_ok ms cs \<sigma> \<longleftrightarrow> distinct (map mb_block_id ms @ map cb_block_id cs)
     \<and> (\<forall>b. \<sigma> b = Mutable \<longleftrightarrow> b \<in> mb_block_id ` set ms)
     \<and> (\<forall>b h. \<sigma> b = Staged h \<longleftrightarrow> (\<exists>cb \<in> set cs. cb_block_id cb = b \<and> cb_seq_hash cb = h))"

definition sys_inv ::
  "('i \<Rightarrow> bool) \<Rightarrow> ('i \<Rightarrow> 'h \<rightharpoonup> block_id) \<Rightarrow> (nat \<Rightarrow> 'i \<Rightarrow> bool) \<Rightarrow> ('h, 'i) kv_system \<Rightarrow> bool" where
  "sys_inv iinv iabs room c \<longleftrightarrow>
     store_inv iinv iabs room (sys_refs c) 0 (sys_store c)
     \<and> guards_ok (sys_mutables c) (sys_completes c) (st (sys_store c))
     \<and> distinct (sys_dying c) \<and> set (sys_dying c) = dead_ptrs (sys_store c)
     \<and> infl (sys_store c) = int (length (sys_immutables c))"

lemma guards_okD:
  assumes "guards_ok ms cs \<sigma>"
  shows "distinct (map mb_block_id ms)" "distinct (map cb_block_id cs)"
    "m \<in> set ms \<Longrightarrow> \<sigma> (mb_block_id m) = Mutable" "cb \<in> set cs \<Longrightarrow> \<sigma> (cb_block_id cb) = Staged (cb_seq_hash cb)"
  using assms by (auto simp: guards_ok_def)

text \<open>Replacing the guards of some slots.\<close>

lemma guards_ok_swap:
  assumes ok: "guards_ok ms cs (st s)" and keep: "keeps_guards B s s'"
    and new: "distinct (map mb_block_id ms' @ map cb_block_id cs')" "mb_block_id ` set ms' \<union> cb_block_id ` set cs' \<subseteq> B"
      "\<And>b. b \<in> B \<Longrightarrow> st s' b = Mutable \<longleftrightarrow> b \<in> mb_block_id ` set ms'"
      "\<And>b h. b \<in> B \<Longrightarrow> st s' b = Staged h \<longleftrightarrow> (\<exists>cb \<in> set cs'. cb_block_id cb = b \<and> cb_seq_hash cb = h)"
  shows "guards_ok (filter (\<lambda>m. mb_block_id m \<notin> B) ms @ ms') (filter (\<lambda>cb. cb_block_id cb \<notin> B) cs @ cs') (st s')"
  unfolding guards_ok_def
proof (intro conjI allI)
  have "distinct (map mb_block_id (filter (\<lambda>m. mb_block_id m \<notin> B) ms))"
    "distinct (map cb_block_id (filter (\<lambda>cb. cb_block_id cb \<notin> B) cs))"
    using guards_okD(1,2) [OF ok] by (simp_all add: distinct_map_filter)
  moreover have "mb_block_id ` set ms \<inter> cb_block_id ` set cs = {}" using ok by (simp add: guards_ok_def)
  ultimately show "distinct (map mb_block_id (filter (\<lambda>m. mb_block_id m \<notin> B) ms @ ms')
      @ map cb_block_id (filter (\<lambda>cb. cb_block_id cb \<notin> B) cs @ cs'))"
    using new(1,2) by auto
next
  fix b
  have out: "st s' b = Mutable \<longleftrightarrow> st s b = Mutable" "st s' b = Staged h \<longleftrightarrow> st s b = Staged h" if "b \<notin> B" for h
    using keeps_guardsD [OF keep that] by (metis guarded_simps(1), metis guarded_simps(2))
  show "st s' b = Mutable \<longleftrightarrow> b \<in> mb_block_id ` set (filter (\<lambda>m. mb_block_id m \<notin> B) ms @ ms')"
  proof (cases "b \<in> B")
    case True with new(3) show ?thesis by auto
  next
    case False
    with out(1) ok new(2) show ?thesis by (auto simp: guards_ok_def)
  qed
  fix h
  show "st s' b = Staged h \<longleftrightarrow> (\<exists>cb \<in> set (filter (\<lambda>cb. cb_block_id cb \<notin> B) cs @ cs').
      cb_block_id cb = b \<and> cb_seq_hash cb = h)"
  proof (cases "b \<in> B")
    case True with new(4) show ?thesis by auto
  next
    case False
    with out(2) ok new(2) show ?thesis by (auto simp: guards_ok_def)
  qed
qed

lemma guards_ok_keep: "guards_ok ms cs (st s) \<Longrightarrow> keeps_guards {} s s' \<Longrightarrow> guards_ok ms cs (st s')"
  using guards_ok_swap [of ms cs s "{}" s' "[]" "[]"] by simp

text \<open>New mutable blocks come from slots that had no guard.\<close>

lemma guards_ok_alloc:
  assumes ok: "guards_ok ms cs (st s)" and keep: "keeps_guards (mb_block_id ` set ms') s s'"
    and new: "distinct (map mb_block_id ms')" "\<And>b. b \<in> mb_block_id ` set ms' \<Longrightarrow> \<not> guarded (st s b) \<and> st s' b = Mutable"
  shows "guards_ok (ms @ ms') cs (st s')"
proof -
  let ?B = "mb_block_id ` set ms'"
  have "mb_block_id m \<notin> ?B" if "m \<in> set ms" for m using guards_okD(3) [OF ok that] new(2) by force
  moreover have "cb_block_id cb \<notin> ?B" if "cb \<in> set cs" for cb using guards_okD(4) [OF ok that] new(2) by force
  ultimately have "filter (\<lambda>m. mb_block_id m \<notin> ?B) ms = ms" "filter (\<lambda>cb. cb_block_id cb \<notin> ?B) cs = cs"
    by (simp_all add: filter_id_conv)
  with guards_ok_swap [OF ok keep, of ms' "[]"] new show ?thesis by simp
qed

section \<open>Every step keeps the invariant\<close>

lemma sys_upd_simps [simp]:
  "sys_refs (c\<lparr>sys_store := s\<rparr>) = sys_refs c" "sys_refs (swap_guards B ms cs c) = sys_refs c"
  "sys_store (swap_guards B ms cs c) = sys_store c" "sys_dying (swap_guards B ms cs c) = sys_dying c"
  "sys_immutables (swap_guards B ms cs c) = sys_immutables c" "sys_keepalives (swap_guards B ms cs c) = sys_keepalives c"
  "sys_mutables (swap_guards B ms cs c) = filter (\<lambda>m. mb_block_id m \<notin> B) (sys_mutables c) @ ms"
  "sys_completes (swap_guards B ms cs c) = filter (\<lambda>cb. cb_block_id cb \<notin> B) (sys_completes c) @ cs"
  by (simp_all add: fun_eq_iff sys_refs_def swap_guards_def)

lemma swap_guards_none [simp]: "swap_guards {} [] [] c = c"
  by (simp add: swap_guards_def)

lemma take_guards_simps [simp]:
  "sys_refs (take_guards ps s c) = add_refs ps (sys_refs c)" "sys_store (take_guards ps s c) = fold immutable_from_inner ps s"
  "sys_dying (take_guards ps s c) = sys_dying c" "sys_mutables (take_guards ps s c) = sys_mutables c"
  "sys_completes (take_guards ps s c) = sys_completes c" "sys_immutables (take_guards ps s c) = sys_immutables c @ ps"
  by (simp_all add: fun_eq_iff sys_refs_def take_guards_def add_refs_def)

lemma immutable_from_inner_fields [simp]:
  "st (immutable_from_inner p s) = st s" "inners (immutable_from_inner p s) = inners s"
  "infl (immutable_from_inner p s) = infl s + 1"
  by (simp_all add: immutable_from_inner_def metrics_defs infl_def)

lemma fold_immutable_from_inner [simp]:
  "st (fold immutable_from_inner ps s) = st s" "inners (fold immutable_from_inner ps s) = inners s"
  "infl (fold immutable_from_inner ps s) = infl s + int (length ps)"
  by (induction ps arbitrary: s) simp_all

lemma count_list_remove1: "count_list (remove1 p xs) q = count_list xs q - of_bool (q = p)"
  by (induction xs) (auto simp: count_list_0_iff)

context inactive_index
begin

abbreviation SysI where "SysI \<equiv> sys_inv iinv iabs room"

lemma SI_inflight: "SI E dm (inc_inflight_immutable s) = SI E dm s" "SI E dm (dec_inflight_immutable s) = SI E dm s"
  unfolding SI_iff_MI mid_inv_book by (rule refl)+

lemma SI_fold_inflight: "SI E dm (fold immutable_from_inner ps s) = SI E dm s"
  by (induction ps arbitrary: s) (simp_all add: immutable_from_inner_def SI_inflight)

lemma sys_invD:
  assumes "SysI c"
  shows "SI (sys_refs c) 0 (sys_store c)" "guards_ok (sys_mutables c) (sys_completes c) (st (sys_store c))"
    "distinct (sys_dying c)" "set (sys_dying c) = dead_ptrs (sys_store c)"
    "infl (sys_store c) = int (length (sys_immutables c))"
  using assms by (simp_all add: sys_inv_def)

lemma sys_invI:
  assumes "SI (sys_refs c) 0 (sys_store c)" "guards_ok (sys_mutables c) (sys_completes c) (st (sys_store c))"
    "distinct (sys_dying c)" "set (sys_dying c) = dead_ptrs (sys_store c)"
    "infl (sys_store c) = int (length (sys_immutables c))"
  shows "SysI c"
  using assms by (simp add: sys_inv_def)

text \<open>Operations on the store and the guards of mutable and staged blocks.\<close>

lemma sys_swap:
  assumes inv: "SysI c" and SI: "SI (sys_refs c) 0 s'" and heap: "same_heap (sys_store c) s'"
    and guards: "guards_ok (filter (\<lambda>m. mb_block_id m \<notin> B) (sys_mutables c) @ ms)
      (filter (\<lambda>cb. cb_block_id cb \<notin> B) (sys_completes c) @ cs) (st s')"
  shows "SysI (swap_guards B ms cs (c\<lparr>sys_store := s'\<rparr>))"
proof -
  have "dead_ptrs s' = dead_ptrs (sys_store c)" using heap by (simp add: dead_ptrs_def same_heap_def)
  then show ?thesis
    using sys_invD(3-5) [OF inv] SI guards infl_same_heap [OF heap] by (intro sys_invI) simp_all
qed

lemma sys_store_step:
  assumes inv: "SysI c" and SI: "SI (sys_refs c) 0 s'" and heap: "same_heap (sys_store c) s'"
    and keep: "keeps_guards {} (sys_store c) s'"
  shows "SysI (c\<lparr>sys_store := s'\<rparr>)"
  using sys_swap [OF inv SI heap, of "{}" "[]" "[]"] guards_ok_keep [OF sys_invD(2) [OF inv] keep] by simp

lemma sys_alloc:
  assumes inv: "SysI c" and SI: "SI (sys_refs c) 0 s'" and heap: "same_heap (sys_store c) s'"
    and keep: "keeps_guards (mb_block_id ` set ms) (sys_store c) s'" and dist: "distinct (map mb_block_id ms)"
    and new: "\<And>b. b \<in> mb_block_id ` set ms \<Longrightarrow> \<not> guarded (st (sys_store c) b) \<and> st s' b = Mutable"
  shows "SysI (swap_guards {} ms [] (c\<lparr>sys_store := s'\<rparr>))"
  using sys_swap [OF inv SI heap, of "{}" ms "[]"] guards_ok_alloc [OF sys_invD(2) [OF inv] keep dist new] by simp

lemma sys_allocated:
  assumes inv: "SysI c" and ok: "counters_ok (sys_store c)"
    and op: "allocate_atomic ops n (sys_store c) = Some (Some (ms, ev), s')"
  shows "SysI (swap_guards {} ms [] (c\<lparr>sys_store := s'\<rparr>))"
proof (cases "n = 0")
  case True
  with op have "ms = []" "s' = sys_store c" by (simp_all add: allocate_atomic_def)
  with inv show ?thesis by (simp add: swap_guards_def)
next
  case False
  note SI = sys_invD(1) [OF inv]
  have "n \<le> eligible (sys_store c)"
  proof (rule ccontr)
    assume "\<not> n \<le> eligible (sys_store c)"
    with allocate_atomic_refuses [OF SI, of n] op show False by auto
  qed
  from allocate_atomic_commits [OF SI _ False this] ok op have
    SI': "SI (sys_refs c) 0 s'" and dist: "distinct (map mb_block_id ms)"
    and keep: "keeps_guards (mb_block_id ` set ms) (sys_store c) s'"
    and b: "\<forall>b \<in> mb_block_id ` set ms. st s' b = Mutable \<and>
      (st (sys_store c) b = Reset \<or> (\<exists>h \<in> set ev. inact_hash (st (sys_store c) b) = Some h))"
    by (auto simp: counters_ok_def)
  have "\<not> guarded (st (sys_store c) b) \<and> st s' b = Mutable" if "b \<in> mb_block_id ` set ms" for b
    using b [rule_format, OF that] guardedD [of "st (sys_store c) b"] by auto
  with sys_alloc [OF inv SI' same_heap_allocate_atomic [OF op] keep dist] show ?thesis by blast
qed

lemma sys_refused:
  assumes inv: "SysI c" and op: "allocate_atomic ops n (sys_store c) = Some (None, s')"
    and ok: "counters_ok (sys_store c)"
  shows "SysI (c\<lparr>sys_store := s'\<rparr>)"
proof -
  note SI = sys_invD(1) [OF inv]
  have n0: "n \<noteq> 0" using op by (cases "n = 0") (simp_all add: allocate_atomic_def)
  have "eligible (sys_store c) < n"
  proof (rule ccontr)
    assume "\<not> eligible (sys_store c) < n"
    with allocate_atomic_commits [OF SI _ n0] ok op show False by (auto simp: counters_ok_def)
  qed
  from allocate_atomic_refuses [OF SI this] op have "SI (sys_refs c) 0 s'" "slots s' = slots (sys_store c)" by auto
  then show ?thesis
    by (intro sys_store_step [OF inv _ same_heap_allocate_atomic [OF op]] keeps_guards_refl st_cong)
qed

lemma sys_allocated_reset:
  assumes inv: "SysI c" and ok: "counters_ok (sys_store c)" and op: "allocate_reset_blocks n (sys_store c) = Some (ms, s')"
  shows "SysI (swap_guards {} ms [] (c\<lparr>sys_store := s'\<rparr>))"
proof -
  let ?s = "sys_store c" and ?k = "min n (card (free (sys_store c)))"
  note SI = sys_invD(1) [OF inv]
  let ?ids = "take ?k (sorted_list_of_set (free ?s))"
  from allocate_reset_blocks_locked_step [OF SI, of ?k] ok op have
    ms: "map mb_block_id ms = ?ids" "only_slots (set ?ids) ?s s'" "\<forall>b \<in> set ?ids. st s' b = Mutable"
      "SI (sys_refs c) 0 s'"
    by (auto simp: allocate_reset_blocks_def counters_ok_def)
  have ids: "mb_block_id ` set ms = set ?ids" using arg_cong [OF ms(1), of set] by simp
  have "finite (free ?s)" unfolding SI_free(1) [OF SI] by simp
  then have "set ?ids \<subseteq> free ?s" using set_take_subset by fastforce
  then have reset: "st ?s b = Reset" if "b \<in> set ?ids" for b using that SI_free(1) [OF SI] by auto
  have keep: "keeps_guards (mb_block_id ` set ms) ?s s'"
    unfolding ids by (rule only_slots_keeps_guards [OF ms(2)]) simp
  have dist: "distinct (map mb_block_id ms)" by (simp add: ms(1))
  show ?thesis
  proof (rule sys_alloc [OF inv ms(4) same_heap_reset_blocks [OF op] keep dist])
    fix b assume "b \<in> mb_block_id ` set ms"
    then show "\<not> guarded (st ?s b) \<and> st s' b = Mutable" using reset ms(3) unfolding ids by simp
  qed
qed

lemma sys_drained:
  assumes inv: "SysI c" and ok: "counters_ok (sys_store c)"
    and op: "drain_inactive_to_mutable ops (sys_store c) = Some ((ms, ev), s')"
  shows "SysI (swap_guards {} ms [] (c\<lparr>sys_store := s'\<rparr>))"
proof -
  let ?s = "sys_store c"
  from drain_step [OF sys_invD(1) [OF inv]] ok op have
    SI': "SI (sys_refs c) 0 s'" and dist: "distinct (map mb_block_id ms)"
    and ids: "mb_block_id ` set ms = {b. b < effective_ceiling ?s \<and> inact_hash (st ?s b) \<noteq> None}"
    and st': "\<And>b. st s' b = (if inact_hash (st ?s b) = None then st ?s b
             else if b < effective_ceiling ?s then Mutable else Reset)"
    by (auto simp: counters_ok_def)
  have "keeps_guards (mb_block_id ` set ms) ?s s'"
    unfolding keeps_guards_def ids by (auto simp: st' dest: guardedD)
  moreover have "\<not> guarded (st ?s b) \<and> st s' b = Mutable" if "b \<in> mb_block_id ` set ms" for b
    using that guardedD [of "st ?s b"] unfolding ids by (auto simp: st')
  ultimately show ?thesis by (rule sys_alloc [OF inv SI' same_heap_drain [OF op] _ dist])
qed

lemma sys_tail:
  assumes inv: "SysI c" and ok: "counters_ok (sys_store c)"
    and op: "inactive_tail_to_mutable ops m (sys_store c) = Some ((ms, ev), s')"
  shows "SysI (swap_guards {} ms [] (c\<lparr>sys_store := s'\<rparr>))"
proof -
  let ?s = "sys_store c"
  from tail_step [OF sys_invD(1) [OF inv], of m] ok op have
    SI': "SI (sys_refs c) 0 s'" and dist: "distinct (map mb_block_id ms)"
    and ids: "mb_block_id ` set ms = {b. inact_hash (st ?s b) \<noteq> None \<and> st s' b = Mutable}"
    and ev: "evicted_to (effective_ceiling ?s) ?s s'"
    by (auto simp: counters_ok_def)
  have "keeps_guards (mb_block_id ` set ms) ?s s'" unfolding ids by (rule evicted_to_keeps_guards [OF ev])
  moreover have "\<not> guarded (st ?s b) \<and> st s' b = Mutable" if "b \<in> mb_block_id ` set ms" for b
    using that guardedD [of "st ?s b"] unfolding ids by auto
  ultimately show ?thesis by (rule sys_alloc [OF inv SI' same_heap_tail [OF op] _ dist])
qed

lemma sys_resized:
  assumes inv: "SysI c" and op: "set_capacity ops cap (sys_store c) = Some (r, s')"
  shows "SysI (c\<lparr>sys_store := s'\<rparr>)"
proof -
  let ?s = "sys_store c"
  note SI = sys_invD(1) [OF inv]
  consider "cap > store_total_blocks ?s" | "cap \<le> store_total_blocks ?s" "\<exists>b. st ?s b \<noteq> Reset \<and> cap \<le> b"
    | "cap \<le> store_total_blocks ?s" "\<And>b. st ?s b \<noteq> Reset \<Longrightarrow> b < cap" by (meson not_le)
  then have "SI (sys_refs c) 0 s' \<and> st s' = st ?s"
  proof cases
    case 1
    with set_capacity_refused(1) [OF SI, of cap] op SI show ?thesis by simp
  next
    case 2
    with set_capacity_refused(2) [OF SI, of cap] op SI show ?thesis by auto
  next
    case 3
    with set_capacity_accepted [OF SI, of cap] op show ?thesis by auto
  qed
  then show ?thesis by (intro sys_store_step [OF inv _ same_heap_set_capacity [OF op]] keeps_guards_refl) simp_all
qed

lemma sys_fenced:
  assumes inv: "SysI c" and op: "set_allocation_ceiling f (sys_store c) = (r, s')"
  shows "SysI (c\<lparr>sys_store := s'\<rparr>)"
proof -
  note SI = sys_invD(1) [OF inv] and step = set_allocation_ceiling_step [OF sys_invD(1) [OF inv], of f]
  have "SI (sys_refs c) 0 s' \<and> slots s' = slots (sys_store c)"
  proof (cases "case f of Some x \<Rightarrow> x \<le> capacity (sys_store c) | None \<Rightarrow> True")
    case True
    from step(2) [OF True] op show ?thesis by auto
  next
    case False
    with step(1) op SI show ?thesis by (auto split: option.splits)
  qed
  then show ?thesis by (intro sys_store_step [OF inv _ same_heap_ceiling [OF op]] keeps_guards_refl st_cong) simp_all
qed

text \<open>A guard replaced by another, or dropped.\<close>

lemma sys_guard_change:
  assumes inv: "SysI c" and SI: "SI (sys_refs c) 0 s'" and heap: "same_heap (sys_store c) s'"
    and st': "st s' = (st (sys_store c))(b := x)"
    and new: "(ms, cs) = (case x of Mutable \<Rightarrow> ([mb], []) | Staged h \<Rightarrow> ([], [cb]) | _ \<Rightarrow> ([], []))"
      "mb_block_id mb = b" "cb_block_id cb = b" "x = Staged (cb_seq_hash cb) \<or> \<not> (\<exists>h. x = Staged h)"
  shows "SysI (swap_guards {b} ms cs (c\<lparr>sys_store := s'\<rparr>))"
proof (rule sys_swap [OF inv SI heap], rule guards_ok_swap [OF sys_invD(2) [OF inv]])
  show "keeps_guards {b} (sys_store c) s'" by (simp add: keeps_guards_def st')
  show "distinct (map mb_block_id ms @ map cb_block_id cs)" "mb_block_id ` set ms \<union> cb_block_id ` set cs \<subseteq> {b}"
    using new by (cases x; simp)+
  fix b' assume "b' \<in> {b}"
  then show "st s' b' = Mutable \<longleftrightarrow> b' \<in> mb_block_id ` set ms"
    "st s' b' = Staged h \<longleftrightarrow> (\<exists>cb \<in> set cs. cb_block_id cb = b' \<and> cb_seq_hash cb = h)" for h
    using new by (cases x; simp add: st')+
qed

lemma sys_staged:
  assumes inv: "SysI c" and mb: "mb \<in> set (sys_mutables c)"
    and op: "stage_block h bsize mb (sys_store c) = Some (Inr cb, s')"
  shows "SysI (swap_guards {mb_block_id mb} [] [cb] (c\<lparr>sys_store := s'\<rparr>))"
proof -
  let ?b = "mb_block_id mb"
  from op have op': "transition_to_staged ?b h (sys_store c) = Some s'"
    and cb: "cb = \<lparr>cb_block_id = ?b, cb_block_size = mb_block_size mb, cb_seq_hash = h\<rparr>"
    by (auto simp: stage_block_def bind_eq_Some_conv split: if_splits)
  from transition_to_staged_step [OF sys_invD(1) [OF inv] guards_okD(3) [OF sys_invD(2) [OF inv] mb], of h] op'
  have "SI (sys_refs c) 0 s'" "st s' = (st (sys_store c))(?b := Staged h)" by auto
  then show ?thesis
    by (intro sys_guard_change [OF inv _ same_heap_guards(3) [OF op'], where x = "Staged h" and mb = mb and cb = cb]) (simp_all add: cb)
qed

lemma sys_unstaged:
  assumes inv: "SysI c" and cb: "cb \<in> set (sys_completes c)"
    and op: "reset_complete_block cb (sys_store c) = Some (mb, s')"
  shows "SysI (swap_guards {cb_block_id cb} [mb] [] (c\<lparr>sys_store := s'\<rparr>))"
proof -
  let ?b = "cb_block_id cb"
  from op have op': "transition_back_to_mutable ?b (sys_store c) = Some s'"
    and mb: "mb = \<lparr>mb_block_id = ?b, mb_block_size = cb_block_size cb\<rparr>"
    by (auto simp: reset_complete_block_def bind_eq_Some_conv)
  from transition_back_to_mutable_step [OF sys_invD(1) [OF inv] guards_okD(4) [OF sys_invD(2) [OF inv] cb]] op'
  have "SI (sys_refs c) 0 s'" "st s' = (st (sys_store c))(?b := Mutable)" by auto
  then show ?thesis
    by (intro sys_guard_change [OF inv _ same_heap_guards(4) [OF op'], where x = Mutable and mb = mb and cb = cb]) (simp_all add: mb)
qed

lemma sys_dropped_mutable:
  assumes inv: "SysI c" and mb: "mb \<in> set (sys_mutables c)" and op: "release_mutable (mb_block_id mb) (sys_store c) = Some s'"
  shows "SysI (swap_guards {mb_block_id mb} [] [] (c\<lparr>sys_store := s'\<rparr>))"
proof -
  let ?cb = "\<lparr>cb_block_id = mb_block_id mb, cb_block_size = 0, cb_seq_hash = undefined\<rparr>"
  from release_mutable_step [OF sys_invD(1) [OF inv] guards_okD(3) [OF sys_invD(2) [OF inv] mb]] op
  have "SI (sys_refs c) 0 s'" "st s' = (st (sys_store c))(mb_block_id mb := Reset)" by auto
  then show ?thesis
    by (intro sys_guard_change [OF inv _ same_heap_guards(1) [OF op], where x = Reset and mb = mb and cb = ?cb]) simp_all
qed

lemma sys_dropped_complete:
  assumes inv: "SysI c" and cb: "cb \<in> set (sys_completes c)" and op: "release_staged (cb_block_id cb) (sys_store c) = Some s'"
  shows "SysI (swap_guards {cb_block_id cb} [] [] (c\<lparr>sys_store := s'\<rparr>))"
proof -
  let ?mb = "\<lparr>mb_block_id = cb_block_id cb, mb_block_size = 0\<rparr>"
  from release_staged_step [OF sys_invD(1) [OF inv] guards_okD(4) [OF sys_invD(2) [OF inv] cb]] op
  have "SI (sys_refs c) 0 s'" "st s' = (st (sys_store c))(cb_block_id cb := Reset)" by auto
  then show ?thesis
    by (intro sys_guard_change [OF inv _ same_heap_guards(2) [OF op], where x = Reset and mb = ?mb and cb = cb]) simp_all
qed

text \<open>Operations that hand out references.\<close>

lemma sys_take:
  assumes inv: "SysI c" and SI: "SI (add_refs ps (sys_refs c)) 0 s'" and dead: "dead_ptrs s' = dead_ptrs (sys_store c)"
    and infl: "infl s' = infl (sys_store c)"
    and guards: "guards_ok (filter (\<lambda>m. mb_block_id m \<notin> B) (sys_mutables c) @ ms)
      (filter (\<lambda>cb. cb_block_id cb \<notin> B) (sys_completes c) @ cs) (st s')"
  shows "SysI (swap_guards B ms cs (take_guards ps s' c))"
proof -
  have "dead_ptrs (fold immutable_from_inner ps s') = dead_ptrs s'" by (rule dead_ptrs_cong) simp
  then show ?thesis
    using sys_invD(3-5) [OF inv] SI guards infl dead by (intro sys_invI) (simp_all add: SI_fold_inflight)
qed

lemma sys_lookup:
  assumes inv: "SysI c" and SI: "SI (add_refs ps (sys_refs c)) 0 s'" and kept: "inners_kept (sys_store c) s'"
    and keep: "keeps_guards {} (sys_store c) s'" and infl: "infl s' = infl (sys_store c)"
  shows "SysI (take_guards ps s' c)"
proof -
  have "dead_ptrs s' = dead_ptrs (sys_store c)" using kept by (simp add: inners_kept_def)
  then show ?thesis
    using sys_take [OF inv SI _ infl, of "{}" "[]" "[]"] guards_ok_keep [OF sys_invD(2) [OF inv] keep] by simp
qed

lemma sys_matched:
  assumes inv: "SysI c" and ok: "counters_ok (sys_store c)"
    and op: "match_prefix_locked_batch ops hs (sys_store c) = Some (ps, s')"
  shows "SysI (take_guards ps s' c)"
proof -
  have "dead_ok (sys_store c)" using ok by (intro dead_okI) (simp add: counters_ok_def)
  from match_prefix_step [OF sys_invD(1) [OF inv, unfolded SI_iff_MI] this, of hs] op show ?thesis
    by (intro sys_lookup [OF inv _ _ _ infl_match_prefix [OF op]]) (auto simp: SI_iff_MI)
qed

lemma sys_scanned:
  assumes inv: "SysI c" and op: "scan_inactive_primaries ops hs touch (sys_store c) = Some (res, s')"
  shows "SysI (take_guards (map snd res) s' c)"
proof -
  have infl: "infl s' = infl (sys_store c)" using op infl_promote by (auto simp: scan_inactive_primaries_def)
  from scan_step [OF sys_invD(1) [OF inv, unfolded SI_iff_MI], of hs touch] op show ?thesis
    by (intro sys_lookup [OF inv _ _ _ infl]) (auto simp: SI_iff_MI)
qed

lemma sys_matched_inactive:
  assumes inv: "SysI c" and op: "match_inactive_primaries ops hs (sys_store c) = Some (res, s')"
  shows "SysI (take_guards (map snd res) s' c)"
proof -
  note LI = sys_invD(1) [OF inv, unfolded SI_iff_MI]
  have infl: "infl s' = infl (sys_store c)" using op infl_promote by (auto simp: match_inactive_primaries_def)
  show ?thesis
  proof (cases "distinct hs \<and> (\<forall>h \<in> set hs. held_by_hash (sys_store c) h = None \<and> iabs (inactive (sys_store c)) h \<noteq> None)")
    case True
    with match_inactive_step [OF LI, of hs] op show ?thesis
      by (intro sys_lookup [OF inv _ _ _ infl]) (auto simp: SI_iff_MI)
  next
    case False
    from match_inactive_refuses [OF LI False] op inv show ?thesis by (simp add: take_guards_def)
  qed
qed

lemma sys_registered_block:
  assumes inv: "SysI c" and ok: "counters_ok (sys_store c)" and cb: "cb \<in> set (sys_completes c)"
    and op: "register_completed_block ops cb handle policy (sys_store c) = Some (p, s')"
  shows "SysI (swap_guards {cb_block_id cb} [] [] (take_guards [p] s' c))"
proof -
  have dead: "dead_ok (sys_store c)" using ok by (intro dead_okI) (simp add: counters_ok_def)
  from register_completed_step [OF sys_invD(1) [OF inv] dead guards_okD(4) [OF sys_invD(2) [OF inv] cb], of handle policy]
    op have r: "SI ((sys_refs c)(p := sys_refs c p + 1)) 0 s'" "keeps_guards {cb_block_id cb} (sys_store c) s'"
      "dead_ptrs s' = dead_ptrs (sys_store c)"
    and b: "\<not> guarded (st s' (cb_block_id cb))" by auto
  show ?thesis
  proof (rule sys_take [OF inv _ r(3) infl_register [OF op]])
    show "SI (add_refs [p] (sys_refs c)) 0 s'" using r(1) by simp
    show "guards_ok (filter (\<lambda>m. mb_block_id m \<notin> {cb_block_id cb}) (sys_mutables c) @ [])
      (filter (\<lambda>cb'. cb_block_id cb' \<notin> {cb_block_id cb}) (sys_completes c) @ []) (st s')"
      by (rule guards_ok_swap [OF sys_invD(2) [OF inv] r(2)]) (use b in auto)
  qed
qed

lemma sys_registered_batch:
  assumes inv: "SysI c" and ok: "counters_ok (sys_store c)" and cbs: "set cbs \<subseteq> set (sys_completes c)" "distinct cbs"
    and op: "register_blocks ops cbs handles policy (sys_store c) = Some ((ps, rejected), s')"
  shows "SysI (swap_guards (cb_block_id ` set cbs) [] (map snd rejected) (take_guards ps s' c))"
proof -
  let ?B = "cb_block_id ` set cbs"
  note guards = sys_invD(2) [OF inv]
  have dead: "dead_ok (sys_store c)" using ok by (intro dead_okI) (simp add: counters_ok_def)
  have "inj_on cb_block_id (set cbs)"
    using guards_okD(2) [OF guards] cbs(1) by (meson distinct_map inj_on_subset)
  then have dist: "distinct (map cb_block_id cbs)" using cbs(2) by (simp add: distinct_map)
  have staged: "\<forall>cb \<in> set cbs. st (sys_store c) (cb_block_id cb) = Staged (cb_seq_hash cb)"
    using guards_okD(4) [OF guards] cbs(1) by blast
  have handles: "list_all2 (\<lambda>cb handle. cb_seq_hash cb = handle_seq_hash handle) cbs handles"
    using op by (auto simp: register_blocks_def assert_that_def bind_eq_Some_conv split: if_splits)
  from register_blocks_step [OF sys_invD(1) [OF inv] dead dist staged handles, of policy] op obtain P where
    r: "SI (add_refs ps (sys_refs c)) 0 s'" "keeps_guards ?B (sys_store c) s'" "dead_ptrs s' = dead_ptrs (sys_store c)"
    and rej: "rejected = filter P (zip [0..<length cbs] cbs)"
    and at: "\<forall>i < length cbs. if (i, cbs ! i) \<in> set rejected
         then st s' (cb_block_id (cbs ! i)) = Staged (cb_seq_hash (cbs ! i))
         else \<not> guarded (st s' (cb_block_id (cbs ! i)))" by auto
  have sub: "(i, cb) \<in> set rejected \<Longrightarrow> i < length cbs \<and> cb = cbs ! i" for i cb
    by (auto simp: rej set_zip)
  have snd: "distinct (map cb_block_id (map snd rejected))"
  proof -
    have "map cb_block_id (map snd (zip [0..<length cbs] cbs)) = map cb_block_id cbs" by simp
    with dist have "distinct (map (cb_block_id \<circ> snd) (zip [0..<length cbs] cbs))" by (simp add: map_map [symmetric] del: map_map)
    from distinct_map_filter [OF this, of P] show ?thesis by (simp add: rej)
  qed
  have at': "st s' b = Staged h \<longleftrightarrow> (\<exists>cb \<in> set (map snd rejected). cb_block_id cb = b \<and> cb_seq_hash cb = h)"
    "st s' b \<noteq> Mutable" if b: "b \<in> ?B" for b h
  proof -
    from b obtain i where i: "i < length cbs" "b = cb_block_id (cbs ! i)" by (auto simp: in_set_conv_nth)
    have uniq: "j = i" if "(j, cb) \<in> set rejected" "cb_block_id cb = b" for j cb
      using sub [OF that(1)] that(2) i dist by (auto simp: distinct_conv_nth)
    from at i(1) have ati: "if (i, cbs ! i) \<in> set rejected then st s' b = Staged (cb_seq_hash (cbs ! i))
        else \<not> guarded (st s' b)" by (simp add: i(2))
    then show "st s' b \<noteq> Mutable" by (auto split: if_splits)
    show "st s' b = Staged h \<longleftrightarrow> (\<exists>cb \<in> set (map snd rejected). cb_block_id cb = b \<and> cb_seq_hash cb = h)"
    proof -
      have "(\<exists>cb \<in> set (map snd rejected). cb_block_id cb = b \<and> cb_seq_hash cb = h)
          \<longleftrightarrow> (i, cbs ! i) \<in> set rejected \<and> cb_seq_hash (cbs ! i) = h"
      proof
        assume "\<exists>cb \<in> set (map snd rejected). cb_block_id cb = b \<and> cb_seq_hash cb = h"
        then obtain j cb where j: "(j, cb) \<in> set rejected" "cb_block_id cb = b" "cb_seq_hash cb = h" by auto
        with uniq [OF j(1,2)] sub [OF j(1)] show "(i, cbs ! i) \<in> set rejected \<and> cb_seq_hash (cbs ! i) = h" by simp
      qed (use i(2) in force)
      then show ?thesis using ati by (cases "(i, cbs ! i) \<in> set rejected") auto
    qed
  qed
  have "?B \<supseteq> cb_block_id ` set (map snd rejected)" using sub by force
  with snd at' guards_ok_swap [OF guards r(2), of "[]" "map snd rejected"]
  have "guards_ok (filter (\<lambda>m. mb_block_id m \<notin> ?B) (sys_mutables c) @ [])
      (filter (\<lambda>cb. cb_block_id cb \<notin> ?B) (sys_completes c) @ map snd rejected) (st s')" by auto
  then show ?thesis by (rule sys_take [OF inv r(1,3) infl_register_blocks [OF op]])
qed

text \<open>Single references.\<close>

lemma sys_add_ref:
  assumes inv: "SysI c" and SI: "SI ((sys_refs c)(p := sys_refs c p + 1)) 0 s'" and kept: "inners_kept (sys_store c) s'"
    and keep: "keeps_guards {} (sys_store c) s'" and infl: "infl s' = infl (sys_store c)"
  shows "SysI (c\<lparr>sys_store := inc_inflight_immutable s', sys_immutables := sys_immutables c @ [p]\<rparr>)"
  using sys_lookup [OF inv _ kept keep infl, of "[p]"] SI by (simp add: take_guards_def immutable_from_inner_def)

lemma set_strong_kept:
  assumes "inners s p = Some n" "in_strong n \<noteq> 0" "c \<noteq> 0"
  shows "inners_kept s (set_strong p c s)"
  using assms by (auto simp: inners_kept_def dead_ptrs_def set_strong_lookup [OF assms(1)])

lemma sys_cloned:
  assumes inv: "SysI c" and op: "immutable_clone p (sys_store c) = Some s'"
  shows "SysI (c\<lparr>sys_store := s', sys_immutables := sys_immutables c @ [p]\<rparr>)"
proof -
  from op obtain n where n: "inners (sys_store c) p = Some n" "in_strong n \<noteq> 0"
    and s': "s' = set_strong p (in_strong n + 1) (inc_inflight_immutable (sys_store c))"
    by (auto simp: immutable_clone_def arc_clone_def bind_eq_Some_conv assert_that_def metrics_defs split: if_splits)
  have eq: "s' = inc_inflight_immutable (set_strong p (in_strong n + 1) (sys_store c))"
    by (simp add: s' set_strong_def metrics_defs)
  have "SI ((sys_refs c)(p := sys_refs c p + 1)) 0 (set_strong p (in_strong n + 1) (sys_store c))"
    using MI_add_ref [OF sys_invD(1) [OF inv, unfolded SI_iff_MI] n] by (simp add: SI_iff_MI)
  from sys_add_ref [OF inv this set_strong_kept [OF n]] show ?thesis
    by (simp add: eq keeps_guards_refl)
qed

lemma sys_upgraded:
  assumes inv: "SysI c" and ok: "counters_ok (sys_store c)"
    and op: "weak_block_upgrade ops handle weak (sys_store c) = Some (found, s')"
  shows "SysI (c\<lparr>sys_store := s', sys_immutables := sys_immutables c @ (case found of None \<Rightarrow> [] | Some p \<Rightarrow> [p])\<rparr>)"
proof (cases "live (sys_store c) weak")
  case True
  let ?s = "sys_store c"
  note LI = sys_invD(1) [OF inv, unfolded SI_iff_MI]
  from weak_upgrade_live [OF LI True] obtain n where n: "inners ?s weak = Some n"
    "weak_upgrade weak ?s = (Some weak, set_strong weak (in_strong n + 1) ?s)"
    "LI ((sys_refs c)(weak := sys_refs c weak + 1)) 0 (\<lambda>_. 0) (set_strong weak (in_strong n + 1) ?s)" by blast
  from True n(1) have "in_strong n \<noteq> 0" by (auto simp: live_def)
  from sys_add_ref [OF inv n(3) [folded SI_iff_MI] set_strong_kept [OF n(1) this]] op n(2) show ?thesis
    by (auto simp: weak_block_upgrade_def keeps_guards_refl)
next
  case False
  let ?s = "sys_store c" and ?h = "handle_seq_hash handle"
  note LI = sys_invD(1) [OF inv, unfolded SI_iff_MI]
  have dead: "dead_ok ?s" using ok by (intro dead_okI) (simp add: counters_ok_def)
  from op weak_upgrade_dead [OF False] obtain s1 where
    s1: "acquire_for_hash_locked ops ?h False ?s = Some (found, s1)"
      "s' = (if found \<noteq> None then inc_inflight_immutable s1 else s1)"
    by (auto simp: weak_block_upgrade_def bind_eq_Some_conv)
  have m: "match_prefix_locked_batch ops [?h] ?s = Some (case found of None \<Rightarrow> [] | Some p \<Rightarrow> [p], s1)"
    using s1(1) by (cases found) simp_all
  from sys_matched [OF inv ok m] s1(2) show ?thesis
    by (cases found) (simp_all add: take_guards_def immutable_from_inner_def)
qed

lemma sys_flagged:
  assumes inv: "SysI c" and op: "store_reset_on_release_inner p v (sys_store c) = Some s'"
  shows "SysI (c\<lparr>sys_store := s'\<rparr>)"
proof -
  let ?s = "sys_store c"
  from op have "s' = ?s \<or> (\<exists>b. set_reset_flag b v ?s = Some s')"
    by (auto simp: store_reset_on_release_inner_def bind_eq_Some_conv split: if_splits)
  then have eq: "slots_only ?s s'" "only_slots {} ?s s'" "st s' = st ?s" "same_heap ?s s'"
    by (auto simp: set_reset_flag_def slots_only_def only_slots_def frame_def split: if_splits)
  have "SI (sys_refs c) 0 s'"
    using MI_flags [OF sys_invD(1) [OF inv, unfolded SI_iff_MI] eq(1-3)] by (simp add: SI_iff_MI)
  then show ?thesis by (rule sys_store_step [OF inv _ eq(4) keeps_guards_refl [OF eq(3)]])
qed

text \<open>Dropping a reference, in its two steps.\<close>

lemma dead_ptrs_set_strong:
  assumes "inners s p = Some n"
  shows "dead_ptrs (set_strong p c s) = (if c = 0 then insert p (dead_ptrs s) else dead_ptrs s - {p})"
  using assms by (auto simp: dead_ptrs_def set_strong_lookup [OF assms])

lemma count_is_zero_iff: "count_is_zero s p \<longleftrightarrow> p \<in> dead_ptrs s"
  by (auto simp: count_is_zero_def dead_ptrs_def split: option.splits)

lemma arc_dec_dead:
  assumes SI: "SI E dm s" and p: "E p \<noteq> 0" and op: "arc_dec p s = Some s'"
  shows "SI (E(p := E p - 1)) dm s'" "p \<notin> dead_ptrs s" "st s' = st s" "infl s' = infl s"
    "dead_ptrs s' = (if count_is_zero s' p then insert p (dead_ptrs s) else dead_ptrs s)"
proof -
  from MI_drop_ref [OF SI [unfolded SI_iff_MI] p] op obtain n where
    n: "inners s p = Some n" "in_strong n \<noteq> 0" "s' = set_strong p (in_strong n - 1) s" "SI (E(p := E p - 1)) dm s'"
    by (auto simp: SI_iff_MI)
  show "SI (E(p := E p - 1)) dm s'" by (rule n(4))
  show nd: "p \<notin> dead_ptrs s" using n(1,2) by (simp add: dead_ptrs_def)
  show "st s' = st s" "infl s' = infl s" by (simp_all add: n(3))
  have "count_is_zero s' p \<longleftrightarrow> in_strong n - 1 = 0"
    by (simp add: count_is_zero_def n(3) set_strong_lookup [OF n(1)])
  then show "dead_ptrs s' = (if count_is_zero s' p then insert p (dead_ptrs s) else dead_ptrs s)"
    using dead_ptrs_set_strong [OF n(1), of "in_strong n - 1"] nd by (simp add: n(3))
qed

lemma sys_owe:
  assumes inv: "SysI c" and SI: "SI E 0 (sys_store c)" and p: "E p \<noteq> 0" and op: "arc_dec p s = Some s'"
    and s: "SI E 0 s" "st s = st (sys_store c)" "dead_ptrs s = dead_ptrs (sys_store c)"
    and c': "sys_store c' = s'" "sys_mutables c' = sys_mutables c" "sys_completes c' = sys_completes c"
      "sys_dying c' = sys_dying c" "sys_refs c' = E(p := E p - 1)" "infl s = int (length (sys_immutables c'))"
  shows "SysI (owe_drop p c')"
proof (rule sys_invI)
  note d = arc_dec_dead [OF s(1) p op]
  have same: "sys_store (owe_drop p c') = s'" "sys_refs (owe_drop p c') = E(p := E p - 1)"
    "sys_immutables (owe_drop p c') = sys_immutables c'" "sys_mutables (owe_drop p c') = sys_mutables c"
    "sys_completes (owe_drop p c') = sys_completes c"
    using c' by (simp_all add: owe_drop_def sys_refs_def fun_eq_iff)
  show "SI (sys_refs (owe_drop p c')) 0 (sys_store (owe_drop p c'))" unfolding same by (rule d(1))
  show "guards_ok (sys_mutables (owe_drop p c')) (sys_completes (owe_drop p c')) (st (sys_store (owe_drop p c')))"
    unfolding same d(3) s(2) by (rule sys_invD(2) [OF inv])
  show "distinct (sys_dying (owe_drop p c'))"
    using sys_invD(3,4) [OF inv] d(2) s(3) c'(4) by (simp add: owe_drop_def)
  show "set (sys_dying (owe_drop p c')) = dead_ptrs (sys_store (owe_drop p c'))"
    unfolding same(1) using d(5) sys_invD(4) [OF inv] s(3) c'(1,4) by (simp add: owe_drop_def)
  show "infl (sys_store (owe_drop p c')) = int (length (sys_immutables (owe_drop p c')))"
    unfolding same using c'(6) d(4) by simp
qed

lemma sys_dropped_immutable:
  assumes inv: "SysI c" and p: "p \<in> set (sys_immutables c)"
    and op: "arc_dec p (dec_inflight_immutable (sys_store c)) = Some s'"
  shows "SysI (owe_drop p (c\<lparr>sys_store := s', sys_immutables := remove1 p (sys_immutables c)\<rparr>))"
proof (rule sys_owe [OF inv sys_invD(1) [OF inv] _ op])
  let ?s = "dec_inflight_immutable (sys_store c)"
  have cnt: "count_list (sys_immutables c) p \<noteq> 0" using p by (simp add: count_list_0_iff)
  then show "sys_refs c p \<noteq> 0" by (simp add: sys_refs_def)
  show "SI (sys_refs c) 0 ?s" using sys_invD(1) [OF inv] by (simp add: SI_inflight)
  show "st ?s = st (sys_store c)" by (simp add: metrics_defs)
  show "dead_ptrs ?s = dead_ptrs (sys_store c)" by (rule dead_ptrs_cong) (simp add: metrics_defs)
  show "sys_refs (c\<lparr>sys_store := s', sys_immutables := remove1 p (sys_immutables c)\<rparr>)
      = (sys_refs c)(p := sys_refs c p - 1)"
    using cnt by (auto simp: sys_refs_def fun_eq_iff count_list_remove1)
  have "length (sys_immutables c) \<noteq> 0" using p by auto
  then show "infl ?s = int (length (sys_immutables (c\<lparr>sys_store := s', sys_immutables := remove1 p (sys_immutables c)\<rparr>)))"
    using sys_invD(5) [OF inv] p by (simp add: infl_def metrics_defs length_remove1 of_nat_diff Suc_le_eq)
qed simp_all

lemma sys_dropped_keepalive:
  assumes inv: "SysI c" and p: "p \<in> set (sys_keepalives c)" and op: "arc_dec p (sys_store c) = Some s'"
  shows "SysI (owe_drop p (c\<lparr>sys_store := s', sys_keepalives := remove1 p (sys_keepalives c)\<rparr>))"
proof (rule sys_owe [OF inv sys_invD(1) [OF inv] _ op sys_invD(1) [OF inv]])
  have cnt: "count_list (sys_keepalives c) p \<noteq> 0" using p by (simp add: count_list_0_iff)
  then show "sys_refs c p \<noteq> 0" by (simp add: sys_refs_def)
  show "sys_refs (c\<lparr>sys_store := s', sys_keepalives := remove1 p (sys_keepalives c)\<rparr>)
      = (sys_refs c)(p := sys_refs c p - 1)"
    using cnt by (auto simp: sys_refs_def fun_eq_iff count_list_remove1)
qed (use sys_invD(5) [OF inv] in simp_all)

lemma sys_dropped_inner:
  assumes inv: "SysI c" and ok: "counters_ok (sys_store c)" and p: "p \<in> set (sys_dying c)"
    and op: "inner_drop ops p (sys_store c) = Some (keepalive, s')"
  shows "SysI (c\<lparr>sys_store := s', sys_dying := remove1 p (sys_dying c),
      sys_keepalives := (case keepalive of None \<Rightarrow> [] | Some q \<Rightarrow> [q]) @ sys_keepalives c\<rparr>)" (is "SysI ?c")
proof (rule sys_invI)
  let ?s = "sys_store c"
  note SI = sys_invD(1) [OF inv]
  note arc = mid_invD(4) [OF SI [unfolded SI_iff_MI]]
  from p sys_invD(4) [OF inv] obtain n where n: "inners ?s p = Some n" "in_strong n = 0" by (auto simp: dead_ptrs_def)
  have ep: "sys_refs c p = 0" using arc_invD(4) [OF arc n(1)] n(2) by simp
  have "epoch_ok ?s (in_block_id n)" using ok arc_invD(2) [OF arc n(1)] by (simp add: counters_ok_def)
  from inner_drop_step [OF SI n this] op have
    s': "keepalive = in_keepalive n" "SI (ext_add keepalive ((sys_refs c)(p := 0))) 0 s'"
      "inners s' = (inners ?s)(p := None)"
      "st s' = (if slot_weak (st ?s (in_block_id n)) = Some p
         then (st ?s)(in_block_id n := if in_is_primary n then release_target ?s n else Reset) else st ?s)" by auto
  have "(sys_refs c)(p := 0) = sys_refs c" using ep by auto
  then have refs: "sys_refs ?c = ext_add keepalive ((sys_refs c)(p := 0))"
    by (auto simp: sys_refs_def fun_eq_iff ext_add_def split: option.splits)
  show "SI (sys_refs ?c) 0 (sys_store ?c)" unfolding refs using s'(2) by simp
  have "keeps_guards {} ?s s'"
  proof (cases "slot_weak (st ?s (in_block_id n)) = Some p")
    case True
    then have "\<not> guarded (st ?s (in_block_id n))" using guardedD [of "st ?s (in_block_id n)"] by auto
    with True s'(4) show ?thesis by (simp add: keeps_guards_def)
  qed (simp add: s'(4) keeps_guards_refl)
  then show "guards_ok (sys_mutables ?c) (sys_completes ?c) (st (sys_store ?c))"
    using guards_ok_keep [OF sys_invD(2) [OF inv]] by simp
  show "distinct (sys_dying ?c)" using sys_invD(3) [OF inv] by simp
  have "dead_ptrs s' = dead_ptrs ?s - {p}" by (auto simp: dead_ptrs_def s'(3))
  then show "set (sys_dying ?c) = dead_ptrs (sys_store ?c)"
    using sys_invD(3,4) [OF inv] by simp
  show "infl (sys_store ?c) = int (length (sys_immutables ?c))"
    using infl_inner_drop [OF op] sys_invD(5) [OF inv] by simp
qed

lemmas sys_steps = sys_allocated sys_refused sys_allocated_reset sys_drained sys_tail sys_resized sys_fenced sys_staged
  sys_unstaged sys_dropped_mutable sys_dropped_complete sys_registered_block sys_registered_batch sys_matched sys_scanned
  sys_matched_inactive sys_cloned sys_upgraded sys_flagged sys_dropped_immutable sys_dropped_keepalive sys_dropped_inner

lemma sys_step_inv: "sys_step ops c c' \<Longrightarrow> SysI c \<Longrightarrow> counters_ok (sys_store c) \<Longrightarrow> SysI c'"
  by (induction rule: sys_step.induct) (rule sys_steps; assumption)+

lemma sys_reach_inv: "sys_reach ops c0 c \<Longrightarrow> SysI c0 \<Longrightarrow> SysI c"
  by (induction rule: sys_reach.induct) (auto dest: sys_step_inv)

lemma new_system_inv: "SI (\<lambda>_. 0) 0 s \<Longrightarrow> dead_ptrs s = {} \<Longrightarrow> \<forall>b. \<not> guarded (st s b) \<Longrightarrow> infl s = 0 \<Longrightarrow> SysI (new_system s)"
proof (rule sys_invI)
  assume "SI (\<lambda>_. 0) 0 s" "\<forall>b. \<not> guarded (st s b)"
  moreover have "sys_refs (new_system s) = (\<lambda>_. 0)" by (simp add: sys_refs_def fun_eq_iff new_system_def)
  ultimately show "SI (sys_refs (new_system s)) 0 (sys_store (new_system s))"
    "guards_ok (sys_mutables (new_system s)) (sys_completes (new_system s)) (st (sys_store (new_system s)))"
    by (simp_all add: new_system_def guards_ok_def) (metis guarded_simps(1,2))
qed (simp_all add: new_system_def)

section \<open>What the invariant gives\<close>

text \<open>A guard of an immutable block pins its slot.\<close>

lemma sys_pinned:
  assumes inv: "SysI c" and p: "p \<in> set (sys_immutables c)"
  shows "\<exists>n. inners (sys_store c) p = Some n \<and> in_strong n \<noteq> 0
    \<and> st (sys_store c) (in_block_id n)
        = (if in_is_primary n then Primary else Duplicate) (in_seq_hash n) (in_handle n) p"
proof -
  note arc = mid_invD(4) [OF sys_invD(1) [OF inv, unfolded SI_iff_MI]]
  have "count_list (sys_immutables c) p \<noteq> 0" using p by (simp add: count_list_0_iff)
  then have E: "sys_refs c p \<noteq> 0" by (simp add: sys_refs_def)
  then obtain n where n: "inners (sys_store c) p = Some n" using arc_invD(6) [OF arc, of p] by fastforce
  have "in_strong n \<noteq> 0" using arc_invD(4) [OF arc n] E by simp
  with n arc_invD(3) [OF arc n] show ?thesis by (auto simp: inner_ok_def split: if_splits)
qed

text \<open>No operation a client can call panics.\<close>

lemma sys_guards_return:
  assumes inv: "SysI c" and ok: "counters_ok (sys_store c)"
  shows "mb \<in> set (sys_mutables c) \<Longrightarrow> release_mutable (mb_block_id mb) (sys_store c) \<noteq> None"
    "mb \<in> set (sys_mutables c) \<Longrightarrow> stage_block h bsize mb (sys_store c) \<noteq> None"
    "cb \<in> set (sys_completes c) \<Longrightarrow> release_staged (cb_block_id cb) (sys_store c) \<noteq> None"
    "cb \<in> set (sys_completes c) \<Longrightarrow> reset_complete_block cb (sys_store c) \<noteq> None"
    "cb \<in> set (sys_completes c) \<Longrightarrow> register_completed_block ops cb handle policy (sys_store c) \<noteq> None"
    "p \<in> set (sys_immutables c) \<Longrightarrow> immutable_clone p (sys_store c) \<noteq> None"
    "p \<in> set (sys_immutables c) \<Longrightarrow> arc_dec p (dec_inflight_immutable (sys_store c)) \<noteq> None"
    "p \<in> set (sys_dying c) \<Longrightarrow> inner_drop ops p (sys_store c) \<noteq> None"
proof -
  note SI = sys_invD(1) [OF inv] and G = guards_okD(3,4) [OF sys_invD(2) [OF inv]]
  have dead: "dead_ok (sys_store c)" using ok by (intro dead_okI) (simp add: counters_ok_def)
  show "release_mutable (mb_block_id mb) (sys_store c) \<noteq> None" "stage_block h bsize mb (sys_store c) \<noteq> None"
    if "mb \<in> set (sys_mutables c)"
    using release_mutable_step [OF SI G(1) [OF that]] transition_to_staged_step [OF SI G(1) [OF that], of h]
    by (auto simp: stage_block_def)
  show "release_staged (cb_block_id cb) (sys_store c) \<noteq> None" "reset_complete_block cb (sys_store c) \<noteq> None"
    "register_completed_block ops cb handle policy (sys_store c) \<noteq> None" if "cb \<in> set (sys_completes c)"
    using release_staged_step [OF SI G(2) [OF that]] transition_back_to_mutable_step [OF SI G(2) [OF that]]
      register_completed_step [OF SI dead G(2) [OF that], of handle policy]
    by (auto simp: reset_complete_block_def)
  show "immutable_clone p (sys_store c) \<noteq> None" "arc_dec p (dec_inflight_immutable (sys_store c)) \<noteq> None"
    if "p \<in> set (sys_immutables c)"
    using sys_pinned [OF inv that]
    by (auto simp: immutable_clone_def arc_clone_def arc_dec_def assert_that_def metrics_defs)
  show "inner_drop ops p (sys_store c) \<noteq> None" if "p \<in> set (sys_dying c)"
  proof -
    note arc = mid_invD(4) [OF SI [unfolded SI_iff_MI]]
    from that sys_invD(4) [OF inv] obtain n where n: "inners (sys_store c) p = Some n" "in_strong n = 0"
      by (auto simp: dead_ptrs_def)
    have "epoch_ok (sys_store c) (in_block_id n)" using ok arc_invD(2) [OF arc n(1)] by (simp add: counters_ok_def)
    from inner_drop_step [OF SI n this] show ?thesis by auto
  qed
qed

lemma sys_lookups_return:
  assumes inv: "SysI c" and ok: "counters_ok (sys_store c)"
  shows "allocate_atomic ops n (sys_store c) \<noteq> None" "match_prefix_locked_batch ops hs (sys_store c) \<noteq> None"
    "scan_inactive_primaries ops hs touch (sys_store c) \<noteq> None" "match_inactive_primaries ops hs (sys_store c) \<noteq> None"
    "weak_block_upgrade ops handle weak (sys_store c) \<noteq> None"
proof -
  note SI = sys_invD(1) [OF inv]
  note LI = SI [unfolded SI_iff_MI]
  have gens: "\<forall>b < length (slots (sys_store c)). gen_ok (sys_store c) b" using ok by (simp add: counters_ok_def)
  have dead: "dead_ok (sys_store c)" using ok by (intro dead_okI) (simp add: counters_ok_def)
  show "allocate_atomic ops n (sys_store c) \<noteq> None"
  proof (cases "n = 0")
    case True then show ?thesis by (simp add: allocate_atomic_def)
  next
    case False
    show ?thesis
    proof (cases "n \<le> eligible (sys_store c)")
      case True
      from allocate_atomic_commits [OF SI gens False True] show ?thesis by (elim exE conjE) simp
    next
      case False
      with allocate_atomic_refuses [OF SI, of n] show ?thesis by auto
    qed
  qed
  show "match_prefix_locked_batch ops hs (sys_store c) \<noteq> None" using match_prefix_step [OF LI dead, of hs] by auto
  show "scan_inactive_primaries ops hs touch (sys_store c) \<noteq> None" using scan_step [OF LI, of hs touch] by auto
  show "match_inactive_primaries ops hs (sys_store c) \<noteq> None"
    using match_inactive_step [OF LI, of hs] match_inactive_refuses [OF LI, of hs] by (metis option.distinct(1))
  show "weak_block_upgrade ops handle weak (sys_store c) \<noteq> None"
  proof (cases "live (sys_store c) weak")
    case True
    from weak_upgrade_live [OF LI True] show ?thesis by (auto simp: weak_block_upgrade_def)
  next
    case False
    from match_prefix_step [OF LI dead, of "[handle_seq_hash handle]"]
    have "acquire_for_hash_locked ops (handle_seq_hash handle) False (sys_store c) \<noteq> None"
      by (auto simp: bind_eq_Some_conv)
    then show ?thesis using weak_upgrade_dead [OF False] by (auto simp: weak_block_upgrade_def)
  qed
qed

text \<open>When no guard is left and no drop is under way, the heap is empty and every slot is reset,
  inactive or held: nothing has leaked.\<close>

lemma sys_quiet:
  assumes inv: "SysI c"
    and none: "sys_mutables c = []" "sys_completes c = []" "sys_immutables c = []" "sys_keepalives c = []" "sys_dying c = []"
  shows "inners (sys_store c) = Map.empty"
    "st (sys_store c) b = Reset \<or> inact_hash (st (sys_store c) b) \<noteq> None \<or> held_hash (st (sys_store c) b) \<noteq> None"
proof -
  let ?s = "sys_store c"
  note arc = mid_invD(4) [OF sys_invD(1) [OF inv, unfolded SI_iff_MI]]
  have E: "sys_refs c p = 0" for p by (simp add: sys_refs_def none)
  have live: "in_strong n \<noteq> 0" if "inners ?s p = Some n" for p n
    using that sys_invD(4) [OF inv] none(5) by (auto simp: dead_ptrs_def)
  have keeper: "\<exists>d m. inners ?s d = Some m \<and> in_keepalive m = Some p" if "inners ?s p = Some n" for p n
  proof -
    have "card (keepers (inners ?s) p) \<noteq> 0" using live [OF that] arc_invD(4) [OF arc that] E by simp
    then have "keepers (inners ?s) p \<noteq> {}" by auto
    then show ?thesis by (auto simp: keepers_def)
  qed
  have dup: "\<not> in_is_primary m \<and> (\<forall>d' m'. inners ?s d' = Some m' \<longrightarrow> in_keepalive m' \<noteq> Some d)"
    if "inners ?s d = Some m" "in_keepalive m = Some p" for d m p
  proof (intro conjI allI impI notI)
    have np: "\<not> in_is_primary m" using arc_invD(3) [OF arc that(1)] that(2) by (auto simp: inner_ok_def split: if_splits)
    then show False if "in_is_primary m" using that by simp
    fix d' m' assume d': "inners ?s d' = Some m'" "in_keepalive m' = Some d"
    from arc_invD(3) [OF arc d'(1)] d'(2) \<open>inners ?s d = Some m\<close> np show False
      by (auto simp: inner_ok_def split: if_splits)
  qed
  have "inners ?s p = None" for p
  proof (rule ccontr)
    assume "inners ?s p \<noteq> None"
    then obtain n where "inners ?s p = Some n" by auto
    from keeper [OF this] obtain d m where d: "inners ?s d = Some m" "in_keepalive m = Some p" by blast
    with keeper [OF d(1)] dup [OF d] show False by blast
  qed
  then show empty: "inners ?s = Map.empty" by auto
  have "slot_weak (st ?s b) = None" using arc_invD(5) [OF arc, of b] empty by (cases "slot_weak (st ?s b)") auto
  moreover have "\<not> guarded (st ?s b)"
    using sys_invD(2) [OF inv] none by (cases "st ?s b") (auto simp: guards_ok_def)
  ultimately show "st ?s b = Reset \<or> inact_hash (st ?s b) \<noteq> None \<or> held_hash (st ?s b) \<noteq> None"
    by (cases "st ?s b") auto
qed

end

end
