(* ===== verification/Block_Store_Properties.thy ===== *)
theory Block_Store_Properties
  imports Hashmap_Backend Block_Store_System
begin

text \<open>
  The properties of the block store, stated for every inactive index that keeps the contract of
  \<open>Inactive_Index\<close>. The witnesses run them on a store over the hash-map backend with the FIFO policy.
\<close>

section \<open>A store to run the properties on\<close>

definition demo_ops :: "(nat, (nat, nat fifo_reuse_policy) hashmap_backend) index_ops" where
  "demo_ops = hm_ops fifo_ops id"

definition demo_store :: "(nat, (nat, nat fifo_reuse_policy) hashmap_backend) block_store" where
  "demo_store = new_store 0 3 4 16 (hm_new fifo_new) False"

abbreviation demo_inv where
  "demo_inv \<equiv> store_inv (hm_inv fifo_inv fifo_abs) hm_abs hm_room"

lemma demo_index: "inactive_index demo_ops (hm_inv fifo_inv fifo_abs) hm_abs hm_room"
  unfolding demo_ops_def by (rule fifo_hm.inactive_index_axioms)

lemma hm_inv_new: "hm_inv fifo_inv fifo_abs (hm_new fifo_new)" "hm_abs (hm_new fifo_new) = Map.empty"
  by (simp_all add: hm_inv_def hm_new_def hm_abs_def fifo_inv_new fifo_abs_def fifo_queue_new)

lemma demo_store_inv: "demo_inv (\<lambda>_. 0) 0 demo_store"
  unfolding demo_store_def
  by (rule inactive_index.new_store_inv [OF demo_index]) (simp_all add: hm_inv_new hm_room_def)

lemma demo_store_facts:
  "length (slots demo_store) = 3" "capacity demo_store = 3" "store_total_blocks demo_store = 4"
  "free demo_store = {0, 1, 2}" "st demo_store b = Reset" "gen_ok demo_store b \<longleftrightarrow> generation (slots demo_store ! b) \<noteq> - 1"
  "b < 3 \<Longrightarrow> generation (slots demo_store ! b) = 0" "effective_ceiling demo_store = 3"
  by (auto simp: demo_store_def new_store_def st_def gen_ok_def new_slot_def effective_ceiling_def)

lemma demo_gens: "\<forall>b < length (slots demo_store). gen_ok demo_store b"
  by (simp add: demo_store_facts)

section \<open>Creation and allocation\<close>



text \<open>C3. \<open>allocate_atomic\<close> is all-or-nothing. It commits exactly when enough slots below the ceiling
  are reset or inactive; then it returns \<open>n\<close> different mutable blocks below the ceiling, the reset ones
  lowest id first, and the evicted hashes are exactly what left the index. Otherwise it returns no
  block and every slot and pool is as before.\<close>

theorem allocate_atomic_all_or_nothing:
  assumes "inactive_index ops iinv iabs room" and "store_inv iinv iabs room E dm s"
    and "\<forall>b < length (slots s). gen_ok s b" and "n \<noteq> 0"
  shows "if n \<le> eligible s then
      \<exists>blocks evicted s'. allocate_atomic ops n s = Some (Some (blocks, evicted), s')
        \<and> store_inv iinv iabs room E dm s' \<and> length blocks = n \<and> distinct (map mb_block_id blocks)
        \<and> take (min n (card (free s))) (map mb_block_id blocks) = take n (sorted_list_of_set (free s))
        \<and> (\<forall>b \<in> mb_block_id ` set blocks. b < effective_ceiling s \<and> st s' b = Mutable
             \<and> (st s b = Reset \<or> (\<exists>h \<in> set evicted. inact_hash (st s b) = Some h)))
        \<and> extracts (iabs (inactive s)) (zip evicted (map (the \<circ> iabs (inactive s)) evicted)) (iabs (inactive s'))
        \<and> active_by_hash s' = active_by_hash s \<and> held_by_hash s' = held_by_hash s
    else
      \<exists>s'. allocate_atomic ops n s = Some (None, s') \<and> store_inv iinv iabs room E dm s'
        \<and> slots s' = slots s \<and> free s' = free s \<and> fenced s' = fenced s
        \<and> iabs (inactive s') = iabs (inactive s)
        \<and> active_by_hash s' = active_by_hash s \<and> held_by_hash s' = held_by_hash s"
proof (cases "n \<le> eligible s")
  case True
  from inactive_index.allocate_atomic_commits [OF assms True] show ?thesis unfolding if_P [OF True] by blast
next
  case False
  then have "eligible s < n" by simp
  from inactive_index.allocate_atomic_refuses [OF assms(1,2) this] obtain s' where
    s': "allocate_atomic ops n s = Some (None, s')" "store_inv iinv iabs room E dm s'" "frame s s'"
      "slots s' = slots s" by blast
  with inactive_index.SI_same_slots [OF assms(1,2) s'(2,3) st_cong [OF s'(4)]] False show ?thesis by auto
qed

lemma demo_eligible: "eligible demo_store = 3"
  by (simp add: eligible_def demo_store_facts)

theorem allocate_atomic_all_or_nothing_witness:
  "\<exists>blocks evicted s'. allocate_atomic demo_ops 2 demo_store = Some (Some (blocks, evicted), s')
     \<and> take 2 (map mb_block_id blocks) = [0, 1] \<and> demo_inv (\<lambda>_. 0) 0 s'"
proof -
  have ids: "take (min 2 (card (free demo_store))) xs = take 2 xs" "take 2 (sorted_list_of_set (free demo_store)) = [0, 1]"
    for xs :: "nat list"
    unfolding demo_store_facts(4) by (simp_all add: sorted_list_of_set_insert_remove numeral_2_eq_2)
  have le: "(2 :: nat) \<le> eligible demo_store" by (simp add: demo_eligible)
  show ?thesis
    using allocate_atomic_all_or_nothing [OF demo_index demo_store_inv demo_gens, of 2, simplified]
    unfolding if_P [OF le] ids by blast
qed

end
