(* ===== verification/System_Properties.thy ===== *)
theory System_Properties
  imports Block_Store_Properties
begin

text \<open>
  The properties of a block store with its clients, and of the single operations on the way. They are
  stated for every inactive index that keeps its contract; the witnesses run them on the states of a
  short session over the hash-map backend.
\<close>

section \<open>A session\<close>

text \<open>
  Two blocks are allocated, the first is staged and registered under hash 7, its guard is cloned from the
  registration and dropped: the block becomes inactive while the second is still mutable.
\<close>

definition demo_handle :: "nat registration_handle" where
  "demo_handle = Handle 1 7"

definition demo_s1 :: "(nat, (nat, nat fifo_reuse_policy) hashmap_backend) block_store" where
  "demo_s1 = snd (the (allocate_atomic demo_ops 2 demo_store))"

definition demo_s2 :: "(nat, (nat, nat fifo_reuse_policy) hashmap_backend) block_store" where
  "demo_s2 = snd (the (stage_block 7 16 \<lparr>mb_block_id = 0, mb_block_size = 16\<rparr> demo_s1))"

definition demo_s3 :: "(nat, (nat, nat fifo_reuse_policy) hashmap_backend) block_store" where
  "demo_s3 = snd (the (register_completed_block demo_ops
     \<lparr>cb_block_id = 0, cb_block_size = 16, cb_seq_hash = 7\<rparr> demo_handle Allow demo_s2))"

definition demo_s4 :: "(nat, (nat, nat fifo_reuse_policy) hashmap_backend) block_store" where
  "demo_s4 = the (arc_dec 0 (dec_inflight_immutable (immutable_from_inner 0 demo_s3)))"

definition demo_cached :: "(nat, (nat, nat fifo_reuse_policy) hashmap_backend) block_store" where
  "demo_cached = snd (the (inner_drop demo_ops 0 demo_s4))"

lemma Some_sndI: "map_option fst x = Some a \<Longrightarrow> x = Some (a, snd (the x))"
  by (cases x) auto

lemma Some_theI: "map_option (\<lambda>_. ()) x = Some () \<Longrightarrow> x = Some (the x)"
  by (cases x) auto

lemma demo_steps:
  "allocate_atomic demo_ops 2 demo_store
    = Some (Some ([\<lparr>mb_block_id = 0, mb_block_size = 16\<rparr>, \<lparr>mb_block_id = 1, mb_block_size = 16\<rparr>], []), demo_s1)"
  "stage_block 7 16 \<lparr>mb_block_id = 0, mb_block_size = 16\<rparr> demo_s1
    = Some (Inr \<lparr>cb_block_id = 0, cb_block_size = 16, cb_seq_hash = 7\<rparr>, demo_s2)"
  "register_completed_block demo_ops \<lparr>cb_block_id = 0, cb_block_size = 16, cb_seq_hash = 7\<rparr> demo_handle Allow demo_s2
    = Some (0, demo_s3)"
  "arc_dec 0 (dec_inflight_immutable (immutable_from_inner 0 demo_s3)) = Some demo_s4"
  "inner_drop demo_ops 0 demo_s4 = Some (None, demo_cached)"
  unfolding demo_s1_def [symmetric]
proof -
  show "allocate_atomic demo_ops 2 demo_store
    = Some (Some ([\<lparr>mb_block_id = 0, mb_block_size = 16\<rparr>, \<lparr>mb_block_id = 1, mb_block_size = 16\<rparr>], []), demo_s1)"
    unfolding demo_s1_def by (rule Some_sndI) code_simp
  show "stage_block 7 16 \<lparr>mb_block_id = 0, mb_block_size = 16\<rparr> demo_s1
    = Some (Inr \<lparr>cb_block_id = 0, cb_block_size = 16, cb_seq_hash = 7\<rparr>, demo_s2)"
    unfolding demo_s2_def by (rule Some_sndI) code_simp
  show "register_completed_block demo_ops \<lparr>cb_block_id = 0, cb_block_size = 16, cb_seq_hash = 7\<rparr> demo_handle Allow demo_s2
    = Some (0, demo_s3)"
    unfolding demo_s3_def by (rule Some_sndI) code_simp
  show "arc_dec 0 (dec_inflight_immutable (immutable_from_inner 0 demo_s3)) = Some demo_s4"
    unfolding demo_s4_def by (rule Some_theI) code_simp
  show "inner_drop demo_ops 0 demo_s4 = Some (None, demo_cached)"
    unfolding demo_cached_def by (rule Some_sndI) code_simp
qed

lemma demo_cached_slots:
  "map slot_state (slots demo_cached) = [Inactive 7 demo_handle, Mutable, Reset]" "capacity demo_cached = 3"
  "length (slots demo_cached) = 3" "free demo_cached = {2}" "effective_ceiling demo_cached = 3"
  "store_total_blocks demo_cached = 4" "held_by_hash demo_cached 7 = None"
  by code_simp+

lemma counters_ok_code: "counters_ok s \<longleftrightarrow> list_all (\<lambda>sl. generation sl \<noteq> - 1 \<and> inactive_epoch sl \<noteq> - 1) (slots s)"
  by (simp add: counters_ok_def list_all_length gen_ok_def epoch_ok_def)

lemma demo_counters:
  "counters_ok demo_store" "counters_ok demo_s1" "counters_ok demo_s2" "counters_ok (immutable_from_inner 0 demo_s3)"
  "counters_ok demo_s4" "counters_ok demo_cached"
  unfolding counters_ok_code by code_simp+

abbreviation demo_system :: "(nat, (nat, nat fifo_reuse_policy) hashmap_backend) kv_system" where
  "demo_system \<equiv> \<lparr>sys_store = demo_cached, sys_mutables = [\<lparr>mb_block_id = 1, mb_block_size = 16\<rparr>], sys_completes = [],
     sys_immutables = [], sys_keepalives = [], sys_dying = []\<rparr>"

lemma demo_reach: "sys_reach demo_ops (new_system demo_store) demo_system"
proof -
  let ?m0 = "\<lparr>mb_block_id = 0, mb_block_size = 16\<rparr>" and ?m1 = "\<lparr>mb_block_id = 1, mb_block_size = 16\<rparr>"
  let ?cb = "\<lparr>cb_block_id = 0, cb_block_size = 16, cb_seq_hash = 7 :: nat\<rparr>"
  let ?c = "\<lambda>s ms cs ps ds. \<lparr>sys_store = s, sys_mutables = ms, sys_completes = cs, sys_immutables = ps,
     sys_keepalives = [], sys_dying = ds\<rparr>"
  let ?c1 = "?c demo_s1 [?m0, ?m1] [] [] []" and ?c2 = "?c demo_s2 [?m1] [?cb] [] []"
  let ?c3 = "?c (immutable_from_inner 0 demo_s3) [?m1] [] [0] []" and ?c4 = "?c demo_s4 [?m1] [] [] [0]"
  have "allocate_atomic demo_ops 2 (sys_store (new_system demo_store)) = Some (Some ([?m0, ?m1], []), demo_s1)"
    by (simp add: new_system_def demo_steps(1))
  from sys_step.allocated [OF this] have "sys_step demo_ops (new_system demo_store) ?c1"
    by (simp add: swap_guards_def new_system_def)
  then have r1: "sys_reach demo_ops (new_system demo_store) ?c1"
    by (rule reach_step [OF reach_init, rotated]) (simp add: new_system_def demo_counters(1))
  have "stage_block 7 16 ?m0 (sys_store ?c1) = Some (Inr ?cb, demo_s2)" by (simp add: demo_steps(2))
  from sys_step.staged [OF _ this] have "sys_step demo_ops ?c1 ?c2" by (simp add: swap_guards_def)
  then have r2: "sys_reach demo_ops (new_system demo_store) ?c2"
    by (rule reach_step [OF r1, rotated]) (simp add: demo_counters(2))
  have "register_completed_block demo_ops ?cb demo_handle Allow (sys_store ?c2) = Some (0, demo_s3)"
    by (simp add: demo_steps(3))
  from sys_step.registered_block [OF _ this] have "sys_step demo_ops ?c2 ?c3"
    by (simp add: swap_guards_def take_guards_def)
  then have r3: "sys_reach demo_ops (new_system demo_store) ?c3"
    by (rule reach_step [OF r2, rotated]) (simp add: demo_counters(3))
  have zero: "count_is_zero demo_s4 0" by code_simp
  have "arc_dec 0 (dec_inflight_immutable (sys_store ?c3)) = Some demo_s4" by (simp add: demo_steps(4))
  from sys_step.dropped_immutable [OF _ this, of demo_ops] have "sys_step demo_ops ?c3 ?c4"
    by (simp add: owe_drop_def zero)
  then have r4: "sys_reach demo_ops (new_system demo_store) ?c4"
    by (rule reach_step [OF r3, rotated]) (simp add: demo_counters(4))
  have "inner_drop demo_ops 0 (sys_store ?c4) = Some (None, demo_cached)" by (simp add: demo_steps(5))
  from sys_step.dropped_inner [OF _ this] have "sys_step demo_ops ?c4 demo_system" by simp
  then show ?thesis by (rule reach_step [OF r4, rotated]) (simp add: demo_counters(5))
qed

lemma new_store_fields:
  "dead_ptrs (new_store m t mx bs i d) = {}" "st (new_store m t mx bs i d) b = Reset" "infl (new_store m t mx bs i d) = 0"
  by (simp_all add: dead_ptrs_def st_def new_store_def new_slot_def infl_def initial_metrics_def)

lemma new_store_system_inv:
  assumes "inactive_index ops iinv iabs room" and "iinv index" "iabs index = Map.empty" "room total_blocks index"
  shows "sys_inv iinv iabs room (new_system (new_store manager_id total_blocks maximum_blocks block_size index d))"
  by (rule inactive_index.new_system_inv [OF assms(1) inactive_index.new_store_inv [OF assms]])
     (simp_all add: new_store_fields)

text \<open>Reachable from a new store.\<close>

lemma session_inv:
  assumes "inactive_index ops iinv iabs room" and "iinv index" "iabs index = Map.empty" "room total_blocks index"
    and "sys_reach ops (new_system (new_store manager_id total_blocks maximum_blocks block_size index d)) c"
  shows "sys_inv iinv iabs room c"
  by (rule inactive_index.sys_reach_inv [OF assms(1,5) new_store_system_inv [OF assms(1-4)]])

abbreviation demo_sys_inv where
  "demo_sys_inv \<equiv> sys_inv (hm_inv fifo_inv fifo_abs) hm_abs hm_room"

lemma demo_session: "sys_reach demo_ops (new_system (new_store 0 3 4 16 (hm_new fifo_new) False)) demo_system"
  using demo_reach by (simp add: demo_store_def)

lemma demo_room: "hm_inv fifo_inv fifo_abs (hm_new fifo_new)" "hm_abs (hm_new fifo_new) = Map.empty"
  "hm_room 3 (hm_new fifo_new)"
  by (simp_all add: hm_inv_new hm_room_def)

lemma demo_cached_inv: "demo_inv (\<lambda>_. 0) 0 demo_cached"
proof -
  have "demo_sys_inv demo_system" by (rule session_inv [OF demo_index demo_room demo_session])
  moreover have "sys_refs demo_system = (\<lambda>_. 0)" by (simp add: sys_refs_def fun_eq_iff)
  ultimately show ?thesis using inactive_index.sys_invD(1) [OF demo_index] by fastforce
qed

lemma demo_cached_st: "st demo_cached 0 = Inactive 7 demo_handle" "st demo_cached 1 = Mutable" "st demo_cached 2 = Reset"
  "b \<noteq> 0 \<Longrightarrow> b \<noteq> 1 \<Longrightarrow> st demo_cached b = Reset"
proof -
  have "slot_state (slots demo_cached ! b) = [Inactive 7 demo_handle, Mutable, Reset] ! b" if "b < 3" for b
    using that nth_map [of b "slots demo_cached" slot_state] demo_cached_slots(1,3) by simp
  then show "st demo_cached 0 = Inactive 7 demo_handle" "st demo_cached 1 = Mutable" "st demo_cached 2 = Reset"
    by (simp_all add: st_def demo_cached_slots(3))
  then show "b \<noteq> 0 \<Longrightarrow> b \<noteq> 1 \<Longrightarrow> st demo_cached b = Reset"
    by (cases "b = 2") (auto simp: st_def demo_cached_slots(3))
qed

lemma demo_cached_index: "hm_abs (inactive demo_cached) = [7 \<mapsto> 0]"
proof (rule map_eqI)
  fix h b
  have "hm_abs (inactive demo_cached) h = Some b \<longleftrightarrow> inact_hash (st demo_cached b) = Some h"
    by (rule inactive_index.LI_lookup(2) [OF demo_index demo_cached_inv [unfolded store_inv_def]])
  then show "hm_abs (inactive demo_cached) h = Some b \<longleftrightarrow> [7 \<mapsto> 0] h = Some b"
    using demo_cached_st by (cases "b = 0"; cases "b = 1") auto
qed

lemma demo_cached_ok: "\<forall>b < length (slots demo_cached). gen_ok demo_cached b" "\<forall>b < length (slots demo_cached). epoch_ok demo_cached b"
  "dead_ok demo_cached"
  using demo_counters(6) by (auto simp: counters_ok_def intro: dead_okI)

section \<open>Every session\<close>





text \<open>C4. No guard operation panics: in every reachable state, the holder of a guard can stage, unstage,
  register, release, clone or drop it, and the drop of an inner value whose count reached zero completes.\<close>

theorem guard_operations_never_panic:
  assumes "inactive_index ops iinv iabs room" and "iinv index" "iabs index = Map.empty" "room total_blocks index"
    and "sys_reach ops (new_system (new_store manager_id total_blocks maximum_blocks block_size index d)) c"
    and "counters_ok (sys_store c)"
  shows "(\<forall>mb \<in> set (sys_mutables c). release_mutable (mb_block_id mb) (sys_store c) \<noteq> None
      \<and> (\<forall>h bsize. stage_block h bsize mb (sys_store c) \<noteq> None))
    \<and> (\<forall>cb \<in> set (sys_completes c). release_staged (cb_block_id cb) (sys_store c) \<noteq> None
      \<and> reset_complete_block cb (sys_store c) \<noteq> None
      \<and> (\<forall>handle policy. register_completed_block ops cb handle policy (sys_store c) \<noteq> None))
    \<and> (\<forall>p \<in> set (sys_immutables c). immutable_clone p (sys_store c) \<noteq> None
      \<and> arc_dec p (dec_inflight_immutable (sys_store c)) \<noteq> None)
    \<and> (\<forall>p \<in> set (sys_dying c). inner_drop ops p (sys_store c) \<noteq> None)"
  using inactive_index.sys_guards_return [OF assms(1) session_inv [OF assms(1-5)] assms(6)]
  by (intro conjI ballI allI)

theorem guard_operations_never_panic_witness:
  "release_mutable 1 demo_cached \<noteq> None \<and> stage_block 9 16 \<lparr>mb_block_id = 1, mb_block_size = 16\<rparr> demo_cached \<noteq> None"
  using guard_operations_never_panic [OF demo_index demo_room demo_session] demo_counters(6) by simp

text \<open>C5. No lookup or allocation panics in a reachable state.\<close>

theorem lookups_never_panic:
  assumes "inactive_index ops iinv iabs room" and "iinv index" "iabs index = Map.empty" "room total_blocks index"
    and "sys_reach ops (new_system (new_store manager_id total_blocks maximum_blocks block_size index d)) c"
    and "counters_ok (sys_store c)"
  shows "allocate_atomic ops n (sys_store c) \<noteq> None \<and> match_prefix_locked_batch ops hs (sys_store c) \<noteq> None
    \<and> scan_inactive_primaries ops hs touch (sys_store c) \<noteq> None \<and> match_inactive_primaries ops hs (sys_store c) \<noteq> None
    \<and> weak_block_upgrade ops handle weak (sys_store c) \<noteq> None"
  using inactive_index.sys_lookups_return [OF assms(1) session_inv [OF assms(1-5)] assms(6)] by blast

theorem lookups_never_panic_witness:
  "allocate_atomic demo_ops 9 demo_cached \<noteq> None \<and> match_prefix_locked_batch demo_ops [7, 8] demo_cached \<noteq> None"
proof -
  have "counters_ok (sys_store demo_system)" by (simp add: demo_counters(6))
  from lookups_never_panic [OF demo_index demo_room demo_session this, of 9 "[7, 8]"] show ?thesis
    unfolding kv_system.select_convs by blast
qed





end
