(* ===== verification/Block_Store_Moves.thy ===== *)
theory Block_Store_Moves
  imports Block_Store_System
begin

text \<open>
  State changes shared by exact reclaim, lineage holds and rebinds: a slot without a live pointer takes
  a new state, possibly together with the held map, and a slot is given back to the free pool without
  touching the gauges.
\<close>

context inactive_index
begin

lemma move_slot_step:
  assumes inv: "MI X R E dr di dh dm dp s"
    and b: "b < capacity s" "slot_weak (st s b) = None" "slot_weak x = None"
    and pools: "pools_ok ((st s)(b := x)) (effective_ceiling s) (capacity s) R' (free s) (fenced s)"
    and idx: "index_ok ((st s)(b := x)) X' (iabs (inactive s))"
    and act: "\<And>h. inact_hash x = Some h \<Longrightarrow> active_by_hash s h = None"
    and held: "held_ok ((st s)(b := x)) m"
  shows "\<exists>s'. set_state b x (s\<lparr>held_by_hash := m\<rparr>) = Some s' \<and> only_slots {b} s s' \<and> st s' = (st s)(b := x)
    \<and> slots_only (s\<lparr>held_by_hash := m\<rparr>) s' \<and> (\<forall>c. gen_ok s' c = gen_ok s c)
    \<and> MI X' R' E (dr - of_bool (st s b = Reset) + of_bool (x = Reset))
        (di - of_bool (inact_hash (st s b) \<noteq> None) + of_bool (inact_hash x \<noteq> None))
        (dh - of_bool (held_hash (st s b) \<noteq> None) + of_bool (held_hash x \<noteq> None))
        (dm - of_bool (st s b = Mutable) + of_bool (x = Mutable))
        (\<lambda>i. unbook dp (handles_of (st s b)) i + hcount (handles_of x) i) s'"
proof -
  let ?s = "s\<lparr>held_by_hash := m\<rparr>"
  note ok = core_invD [OF mid_invD(1) [OF inv]]
  have len: "b < length (slots ?s)" using b(1) ok(1) by simp
  have st: "st ?s = st s" by (rule st_cong) simp
  from set_state_fields [OF len, of x] obtain s' where s': "set_state b x ?s = Some s'" "only_slots {b} ?s s'"
    "st s' = (st s)(b := x)" "slots_only ?s s'" "gen_ok s' b = gen_ok ?s b" unfolding st by blast
  note so = slots_onlyD [OF s'(4)]
  have os: "only_slots {b} s s'" using s'(2) by (simp add: only_slots_def frame_def)
  have "slot_weak y = None \<Longrightarrow> prim_hash y = None" for y :: "'a slot_state" by (cases y) simp_all
  note prim = this [OF b(2)] this [OF b(3)]
  have arc: "arc_inv E s'"
    by (rule arc_inv_slot [OF mid_invD(4) [OF inv] b(2,3) s'(3)]) (use so os in \<open>simp_all add: only_slots_def frame_def\<close>)
  have flags: "length (reset_on_release s') = length (reset_on_release s)" using so by simp
  have "MI X' R' E (dr - of_bool (st s b = Reset) + of_bool (x = Reset))
      (di - of_bool (inact_hash (st s b) \<noteq> None) + of_bool (inact_hash x \<noteq> None))
      (dh - of_bool (held_hash (st s b) \<noteq> None) + of_bool (held_hash x \<noteq> None))
      (dm - of_bool (st s b = Mutable) + of_bool (x = Mutable))
      (\<lambda>i. unbook dp (handles_of (st s b)) i + hcount (handles_of x) i) s'"
    by (rule MI_slot [OF inv only_slots_frame [OF os] s'(3) b(1) flags _ _ _ _ _ _ _ _ arc])
       (use so mid_invD(2,3) [OF inv] pools idx held active_ok_keep [OF ok(6) prim] act in \<open>auto\<close>)
  moreover have "gen_ok s' c = gen_ok s c" for c
    using os s'(5) by (cases "c = b") (simp_all add: only_slots_def gen_ok_def)
  ultimately show ?thesis using s'(1,3,4) os by blast
qed

text \<open>A slot given back to the free pool: its gauge is booked by the caller.\<close>

lemma give_back_step:
  assumes inv: "MI X R E dr di dh dm dp s"
    and b: "st s b \<noteq> Reset" "slot_weak (st s b) = None" "b \<in> X \<or> inact_hash (st s b) = None"
    and held: "held_ok ((st s)(b := Reset)) m"
  shows "\<exists>s1 s2. set_state b Reset (s\<lparr>held_by_hash := m\<rparr>) = Some s1 \<and> set_reset_flag b v s1 = Some s2
    \<and> only_slots {b} s (push_reset_id_locked b s2) \<and> st (push_reset_id_locked b s2) = (st s)(b := Reset)
    \<and> inactive (push_reset_id_locked b s2) = inactive s \<and> active_by_hash (push_reset_id_locked b s2) = active_by_hash s
    \<and> held_by_hash (push_reset_id_locked b s2) = m \<and> inners (push_reset_id_locked b s2) = inners s
    \<and> default_reset_on_release s1 = default_reset_on_release s
    \<and> (\<forall>c. gen_ok (push_reset_id_locked b s2) c = gen_ok s c)
    \<and> MI (X - {b}) R E (dr + 1) (di - of_bool (inact_hash (st s b) \<noteq> None))
        (dh - of_bool (held_hash (st s b) \<noteq> None)) (dm - of_bool (st s b = Mutable))
        (unbook dp (handles_of (st s b))) (push_reset_id_locked b s2)"
proof -
  note core = mid_invD(1) [OF inv]
  note ok = core_invD [OF core]
  have cap: "b < capacity s" by (rule ok(3) [OF b(1)])
  have R: "b \<notin> R" using core_bounds(3) [OF core, of b] b(1) by blast
  have idx: "index_ok ((st s)(b := Reset)) (X - {b}) (iabs (inactive s))"
  proof (cases "b \<in> X")
    case True then show ?thesis by (rule index_ok_leave [OF ok(5)]) simp
  next
    case False
    with b(3) index_ok_keep [OF ok(5), of b Reset] show ?thesis by simp
  qed
  from move_slot_step [OF inv cap b(2) _ pools_ok_upd(6) [OF ok(4) b(1) cap] idx _ held] b(1) obtain s1 where
    s1: "set_state b Reset (s\<lparr>held_by_hash := m\<rparr>) = Some s1" "only_slots {b} s s1" "st s1 = (st s)(b := Reset)"
      "slots_only (s\<lparr>held_by_hash := m\<rparr>) s1" "\<forall>c. gen_ok s1 c = gen_ok s c"
    and MI1: "MI (X - {b}) (insert b R) E (dr + 1) (di - of_bool (inact_hash (st s b) \<noteq> None))
        (dh - of_bool (held_hash (st s b) \<noteq> None)) (dm - of_bool (st s b = Mutable))
        (unbook dp (handles_of (st s b))) s1" by auto
  have "b < length (reset_on_release s1)" using cap ok(1,2) slots_onlyD [OF s1(4)] by simp
  from set_reset_flag_fields [OF this, of v] obtain s2 where
    s2: "set_reset_flag b v s1 = Some s2" "only_slots {} s1 s2" "st s2 = st s1" "slots_only s1 s2" "slots s2 = slots s1" by blast
  note push = push_reset_step [OF MI_flags [OF MI1 s2(4,2,3)], of b]
  have os: "only_slots {b} s (push_reset_id_locked b s2)"
    using only_slots_trans [OF only_slots_trans [OF s1(2) s2(2)] push(2)] by simp
  moreover have "st (push_reset_id_locked b s2) = (st s)(b := Reset)"
    by (simp add: push_reset_id_locked_def s2(3) s1(3))
  moreover have "default_reset_on_release s1 = default_reset_on_release s" using s1(2) by (simp add: only_slots_def frame_def)
  moreover have "gen_ok (push_reset_id_locked b s2) c = gen_ok s c" for c
    using s1(5) s2(5) by (simp add: gen_ok_def push_reset_id_locked_def)
  ultimately show ?thesis
    using s1(1) s2(1) push(1) R slots_onlyD [OF s1(4)] slots_onlyD [OF s2(4)]
    by (auto simp: push_reset_id_locked_def)
qed

end

end
