(* ===== verification/Exact_Reclaim.thy ===== *)
theory Exact_Reclaim
  imports Block_Store_Moves
begin

text \<open>
  Exact reclaim (\<open>pools/store/exact_reclaim.rs\<close>, \<open>pools/exact_reclaim.rs\<close>): a caller names complete
  inactive cache entries, later refreshes the names to a plan of inactive victims, and executes the plan
  in one transaction that reclaims every victim or changes nothing.
\<close>

section \<open>Names, plans and errors\<close>

record 'h exact_reclaim_entry_plan =
  ep_manager_id :: nat
  ep_leaf_hash :: 'h
  ep_leaf_block_id :: block_id
  ep_leaf_generation :: u64

record 'h fresh_exact_reclaim_plan =
  fp_manager_id :: nat
  fp_expected_reset_slots :: nat
  fp_victims :: "'h exact_inactive_victim list"

definition reclaimed_blocks :: "'h fresh_exact_reclaim_plan \<Rightarrow> nat" where
  "reclaimed_blocks plan = length (fp_victims plan)"

datatype exact_reclaim_name_error = UnsupportedBackend | StaleCandidate | NotCompleteInactiveEntry

datatype exact_reclaim_refresh_error =
    EmptyPlan
  | RefreshWrongManager
  | EntryUnavailable nat
  | SharedPhysicalSlot nat nat
  | IncompleteCombinedPlan
  | RefreshUnsupportedBackend

datatype exact_allocation_error =
    WrongManager nat nat
  | DuplicateVictim block_id
  | StaleVictim block_id
  | FencedVictim block_id
  | ActiveVictim block_id
  | ResetCapacityDrift nat nat
  | InsufficientCapacity nat nat
  | ZeroCountWithVictims nat
  | UnsupportedReclaimPlan
  | InvalidVictimOrder block_id block_id
  | IncompleteVictimSet block_id block_id
  | MissingVictimAncestor block_id block_id

datatype exact_reclaim_execute_error =
    ExecWrongManager | ExecResetCapacityDrift | ExecStalePlan | ExecInsufficientCapacity
  | ExecInvalidRequest | ExecUnsupportedBackend

definition execute_error_of :: "exact_allocation_error \<Rightarrow> exact_reclaim_execute_error" where
  "execute_error_of e = (case e of
     WrongManager _ _ \<Rightarrow> ExecWrongManager
   | ResetCapacityDrift _ _ \<Rightarrow> ExecResetCapacityDrift
   | InsufficientCapacity _ _ \<Rightarrow> ExecInsufficientCapacity
   | ZeroCountWithVictims _ \<Rightarrow> ExecInvalidRequest
   | UnsupportedReclaimPlan \<Rightarrow> ExecUnsupportedBackend
   | _ \<Rightarrow> ExecStalePlan)"

fun map_exact_reclaim_plan_error :: "exact_reclaim_plan_error \<Rightarrow> exact_allocation_error" where
  "map_exact_reclaim_plan_error Unsupported = UnsupportedReclaimPlan"
| "map_exact_reclaim_plan_error (MissingVictim b) = StaleVictim b"
| "map_exact_reclaim_plan_error (ParentBeforeChild parent child) = InvalidVictimOrder parent child"
| "map_exact_reclaim_plan_error (OmittedLiveChild parent child) = IncompleteVictimSet parent child"
| "map_exact_reclaim_plan_error (MissingRealAncestor child parent) = MissingVictimAncestor child parent"

definition map_exact_reclaim_refresh_error :: "exact_reclaim_plan_error \<Rightarrow> exact_reclaim_refresh_error" where
  "map_exact_reclaim_refresh_error e =
     (case e of Unsupported \<Rightarrow> RefreshUnsupportedBackend | _ \<Rightarrow> IncompleteCombinedPlan)"

section \<open>Naming and refreshing\<close>

text \<open>\<open>slots.get(id)\<close> with the hash check of the callers.\<close>

definition inactive_slot_with ::
  "('h, 'i) block_store \<Rightarrow> 'h \<Rightarrow> block_id \<Rightarrow> 'h block_slot option" where
  "inactive_slot_with s h b = do {
     slot \<leftarrow> index_slot s b;
     case slot_state slot of Inactive stored _ \<Rightarrow> (if stored = h then Some slot else None) | _ \<Rightarrow> None
   }"

definition name_complete_inactive_entry_by_hash ::
  "('h, 'i) index_ops \<Rightarrow> 'h \<Rightarrow> ('h, 'i) block_store \<Rightarrow> exact_reclaim_name_error + 'h exact_reclaim_entry_plan" where
  "name_complete_inactive_entry_by_hash ops h s =
     (if \<not> ix_supports_exact_reclaim ops (inactive s) then Inl UnsupportedBackend
      else case ix_exact_block_id ops (inactive s) h of
        None \<Rightarrow> Inl StaleCandidate
      | Some b \<Rightarrow>
        (case inactive_slot_with s h b of
           None \<Rightarrow> Inl StaleCandidate
         | Some slot \<Rightarrow>
             (if ix_complete_lineage ops (inactive s) h b = None then Inl NotCompleteInactiveEntry
              else Inr \<lparr>ep_manager_id = store_id s, ep_leaf_hash = h, ep_leaf_block_id = b,
                        ep_leaf_generation = generation slot\<rparr>)))"

text \<open>The blocks of one entry, leaf to root; \<open>seen\<close> is the map from physical slots to entry indexes.\<close>

fun collect_entry ::
  "('h, 'i) block_store \<Rightarrow> nat \<Rightarrow> ('h \<times> block_id) list \<Rightarrow> (block_id \<rightharpoonup> nat) \<Rightarrow> 'h exact_inactive_victim list
    \<Rightarrow> exact_reclaim_refresh_error + ((block_id \<rightharpoonup> nat) \<times> 'h exact_inactive_victim list)" where
  "collect_entry s entry [] seen victims = Inr (seen, victims)"
| "collect_entry s entry ((h, b) # blocks) seen victims =
     (case inactive_slot_with s h b of
        None \<Rightarrow> Inl IncompleteCombinedPlan
      | Some slot \<Rightarrow>
        (case seen b of
           Some first \<Rightarrow> Inl (SharedPhysicalSlot first entry)
         | None \<Rightarrow> collect_entry s entry blocks (seen(b \<mapsto> entry))
             (victims @ [\<lparr>victim_manager_id = store_id s, victim_block_id = b, victim_seq_hash = h,
                          victim_generation = generation slot, victim_inactive_epoch = inactive_epoch slot\<rparr>])))"

fun collect_entries ::
  "('h, 'i) index_ops \<Rightarrow> ('h, 'i) block_store \<Rightarrow> nat \<Rightarrow> 'h exact_reclaim_entry_plan list
    \<Rightarrow> (block_id \<rightharpoonup> nat) \<Rightarrow> 'h exact_inactive_victim list
    \<Rightarrow> exact_reclaim_refresh_error + 'h exact_inactive_victim list" where
  "collect_entries ops s entry [] seen victims = Inr victims"
| "collect_entries ops s entry (e # entries) seen victims =
     (case inactive_slot_with s (ep_leaf_hash e) (ep_leaf_block_id e) of
        None \<Rightarrow> Inl (EntryUnavailable entry)
      | Some leaf \<Rightarrow>
        (if generation leaf \<noteq> ep_leaf_generation e then Inl (EntryUnavailable entry)
         else case ix_complete_lineage ops (inactive s) (ep_leaf_hash e) (ep_leaf_block_id e) of
           None \<Rightarrow> Inl (EntryUnavailable entry)
         | Some source_blocks \<Rightarrow>
           (case collect_entry s entry (rev source_blocks) seen victims of
              Inl err \<Rightarrow> Inl err
            | Inr (seen', victims') \<Rightarrow> collect_entries ops s (entry + 1) entries seen' victims')))"

definition refresh_and_combine_exact_reclaim ::
  "('h, 'i) index_ops \<Rightarrow> 'h exact_reclaim_entry_plan list \<Rightarrow> ('h, 'i) block_store
    \<Rightarrow> exact_reclaim_refresh_error + 'h fresh_exact_reclaim_plan" where
  "refresh_and_combine_exact_reclaim ops entries s =
     (if entries = [] then Inl EmptyPlan
      else if \<not> ix_supports_exact_reclaim ops (inactive s) then Inl RefreshUnsupportedBackend
      else if list_ex (\<lambda>e. ep_manager_id e \<noteq> store_id s) entries then Inl RefreshWrongManager
      else case collect_entries ops s 0 entries Map.empty [] of
        Inl err \<Rightarrow> Inl err
      | Inr victims \<Rightarrow>
        (case ix_preflight_exact_reclaim ops (inactive s) victims of
           Inl err \<Rightarrow> Inl (map_exact_reclaim_refresh_error err)
         | Inr _ \<Rightarrow> Inr \<lparr>fp_manager_id = store_id s, fp_expected_reset_slots = card (free s), fp_victims = victims\<rparr>))"

section \<open>The transaction\<close>

text \<open>The checks on the victim identities, in the order of the code.\<close>

fun check_victim_ids ::
  "('h, 'i) block_store \<Rightarrow> 'h exact_inactive_victim list \<Rightarrow> block_id set \<Rightarrow> exact_allocation_error option" where
  "check_victim_ids s [] seen = None"
| "check_victim_ids s (v # vs) seen =
     (if victim_manager_id v \<noteq> store_id s then Some (WrongManager (store_id s) (victim_manager_id v))
      else if victim_block_id v \<in> seen then Some (DuplicateVictim (victim_block_id v))
      else check_victim_ids s vs (insert (victim_block_id v) seen))"

definition check_victim_slot ::
  "('h, 'i) block_store \<Rightarrow> 'h exact_inactive_victim \<Rightarrow> exact_allocation_error option" where
  "check_victim_slot s v =
     (let b = victim_block_id v in
      case index_slot s b of
        None \<Rightarrow> Some (StaleVictim b)
      | Some slot \<Rightarrow>
        (case slot_state slot of
           Inactive h _ \<Rightarrow>
             (if h = victim_seq_hash v \<and> generation slot = victim_generation v
                 \<and> inactive_epoch slot = victim_inactive_epoch v
              then (if effective_ceiling s \<le> b then Some (FencedVictim b) else None)
              else Some (StaleVictim b))
         | _ \<Rightarrow> Some (ActiveVictim b)))"

fun first_error :: "('a \<Rightarrow> 'e option) \<Rightarrow> 'a list \<Rightarrow> 'e option" where
  "first_error f [] = None"
| "first_error f (x # xs) = (case f x of None \<Rightarrow> first_error f xs | Some e \<Rightarrow> Some e)"

definition check_exact_reclaim ::
  "('h, 'i) index_ops \<Rightarrow> nat \<Rightarrow> nat \<Rightarrow> 'h exact_inactive_victim list \<Rightarrow> ('h, 'i) block_store
    \<Rightarrow> exact_allocation_error option" where
  "check_exact_reclaim ops n expected victims s =
     (if card (free s) \<noteq> expected then Some (ResetCapacityDrift expected (card (free s)))
      else if n = 0 \<and> victims \<noteq> [] then Some (ZeroCountWithVictims (length victims))
      else case check_victim_ids s victims {} of
        Some e \<Rightarrow> Some e
      | None \<Rightarrow>
        (if card (free s) + length victims < n
         then Some (InsufficientCapacity n (card (free s) + length victims))
         else case first_error (check_victim_slot s) victims of
           Some e \<Rightarrow> Some e
         | None \<Rightarrow>
           (case ix_preflight_exact_reclaim ops (inactive s) victims of
              Inl err \<Rightarrow> Some (map_exact_reclaim_plan_error err)
            | Inr _ \<Rightarrow> None)))"

text \<open>One preflighted victim becomes a reset slot.\<close>

definition reclaim_victim ::
  "('h, 'i) index_ops \<Rightarrow> 'h exact_inactive_victim \<Rightarrow> ('h, 'i) block_store
    \<Rightarrow> ('h registration_handle \<times> ('h, 'i) block_store) option" where
  "reclaim_victim ops v s =
     (let b = victim_block_id v in do {
        (hit, i) \<leftarrow> ix_take ops (victim_seq_hash v) b (inactive s);
        assert_that hit;
        let s = s\<lparr>inactive := i\<rparr>;
        handle \<leftarrow> take_inactive_handle s b;
        s \<leftarrow> set_state b Reset s;
        s \<leftarrow> set_reset_flag b (default_reset_on_release s) s;
        Some (handle, push_reset_id_locked b s)
      })"

fun reclaim_victims ::
  "('h, 'i) index_ops \<Rightarrow> 'h exact_inactive_victim list \<Rightarrow> ('h, 'i) block_store
    \<Rightarrow> ('h registration_handle list \<times> ('h, 'i) block_store) option" where
  "reclaim_victims ops [] s = Some ([], s)"
| "reclaim_victims ops (v # vs) s = do {
     (handle, s) \<leftarrow> reclaim_victim ops v s;
     (handles, s) \<leftarrow> reclaim_victims ops vs s;
     Some (handle # handles, s)
   }"

definition allocate_exact_reclaim ::
  "('h, 'i) index_ops \<Rightarrow> nat \<Rightarrow> nat \<Rightarrow> 'h exact_inactive_victim list \<Rightarrow> ('h, 'i) block_store
    \<Rightarrow> ((exact_allocation_error + (mutable_block list \<times> 'h list)) \<times> ('h, 'i) block_store) option" where
  "allocate_exact_reclaim ops n expected victims s =
     (case check_exact_reclaim ops n expected victims s of
        Some e \<Rightarrow> Some (Inl e, s)
      | None \<Rightarrow> do {
          (handles, s) \<leftarrow> reclaim_victims ops victims s;
          (blocks, s) \<leftarrow> allocate_reset_loop n s;
          let s = inc_reset_pool_size_by (int (length victims)) s;
          let s = dec_reset_pool_size_by (int n) s;
          let s = dec_inactive_pool_size_by (int (length victims)) s;
          let s = inc_inflight_mutable_by (int n) s;
          let s = inc_evictions (length victims) s;
          let s = inc_allocations n (min n expected) s;
          Some (Inr (blocks, map victim_seq_hash victims), fold mark_absent handles s)
        })"

section \<open>A rejected transaction changes nothing\<close>

lemma exact_reclaim_rejects:
  "check_exact_reclaim ops n expected victims s = Some e \<Longrightarrow>
    allocate_exact_reclaim ops n expected victims s = Some (Inl e, s)"
  by (simp add: allocate_exact_reclaim_def)

lemma first_error_None: "first_error f xs = None \<longleftrightarrow> (\<forall>x \<in> set xs. f x = None)"
  by (induction xs) (auto split: option.splits)

lemma check_victim_ids_None:
  "check_victim_ids s vs seen = None \<longleftrightarrow>
    (\<forall>v \<in> set vs. victim_manager_id v = store_id s \<and> victim_block_id v \<notin> seen) \<and> distinct (map victim_block_id vs)"
proof (induction vs arbitrary: seen)
  case (Cons v vs)
  show ?case by (cases "victim_manager_id v = store_id s \<and> victim_block_id v \<notin> seen") (auto simp: Cons.IH image_iff)
qed simp

lemma check_victim_slot_None:
  "check_victim_slot s v = None \<longleftrightarrow> victim_block_id v < length (slots s) \<and> victim_block_id v < effective_ceiling s
    \<and> (\<exists>k. st s (victim_block_id v) = Inactive (victim_seq_hash v) k)
    \<and> generation (slots s ! victim_block_id v) = victim_generation v
    \<and> inactive_epoch (slots s ! victim_block_id v) = victim_inactive_epoch v"
  by (cases "slot_state (slots s ! victim_block_id v)")
     (auto simp: check_victim_slot_def index_slot_def st_def Let_def not_le)

section \<open>A fresh plan passes the checks\<close>

definition fresh_victim :: "('h, 'i) block_store \<Rightarrow> 'h exact_inactive_victim \<Rightarrow> bool" where
  "fresh_victim s v \<longleftrightarrow> victim_manager_id v = store_id s \<and> victim_block_id v < length (slots s)
     \<and> (\<exists>k. st s (victim_block_id v) = Inactive (victim_seq_hash v) k)
     \<and> victim_generation v = generation (slots s ! victim_block_id v)
     \<and> victim_inactive_epoch v = inactive_epoch (slots s ! victim_block_id v)"

definition collected :: "('h, 'i) block_store \<Rightarrow> (block_id \<rightharpoonup> nat) \<Rightarrow> 'h exact_inactive_victim list \<Rightarrow> bool" where
  "collected s seen victims \<longleftrightarrow> distinct (map victim_block_id victims) \<and> dom seen = victim_block_id ` set victims
     \<and> (\<forall>v \<in> set victims. fresh_victim s v)"

lemma inactive_slot_with_Some:
  "inactive_slot_with s h b = Some slot \<longleftrightarrow> b < length (slots s) \<and> slot = slots s ! b \<and> (\<exists>k. st s b = Inactive h k)"
  by (cases "slot_state (slots s ! b)") (auto simp: inactive_slot_with_def index_slot_def st_def)

lemma collect_entry_collected:
  "collect_entry s entry blocks seen victims = Inr (seen', victims') \<Longrightarrow> collected s seen victims \<Longrightarrow> collected s seen' victims'"
proof (induction s entry blocks seen victims rule: collect_entry.induct)
  case (2 s entry h b blocks seen victims)
  from "2.prems"(1) obtain slot where slot: "inactive_slot_with s h b = Some slot" and b: "seen b = None"
    by (auto split: option.splits)
  let ?v = "\<lparr>victim_manager_id = store_id s, victim_block_id = b, victim_seq_hash = h,
     victim_generation = generation slot, victim_inactive_epoch = inactive_epoch slot\<rparr>"
  have "fresh_victim s ?v" using slot by (auto simp: inactive_slot_with_Some fresh_victim_def)
  moreover have "b \<notin> victim_block_id ` set victims" using b "2.prems"(2) by (auto simp: collected_def)
  ultimately have "collected s (seen(b \<mapsto> entry)) (victims @ [?v])" using "2.prems"(2) by (auto simp: collected_def)
  moreover have "collect_entry s entry blocks (seen(b \<mapsto> entry)) (victims @ [?v]) = Inr (seen', victims')"
    using "2.prems"(1) slot b by simp
  ultimately show ?case by (rule "2.IH" [OF slot b, rotated])
qed simp

lemma collect_entries_collected:
  "collect_entries ops s entry entries seen victims = Inr victims' \<Longrightarrow> collected s seen victims \<Longrightarrow> \<exists>seen'. collected s seen' victims'"
proof (induction ops s entry entries seen victims rule: collect_entries.induct)
  case (2 ops s entry e entries seen victims)
  from "2.prems"(1) obtain leaf source seen1 victims1 where
    leaf: "inactive_slot_with s (ep_leaf_hash e) (ep_leaf_block_id e) = Some leaf" "\<not> generation leaf \<noteq> ep_leaf_generation e"
    and source: "ix_complete_lineage ops (inactive s) (ep_leaf_hash e) (ep_leaf_block_id e) = Some source"
    and entry: "collect_entry s entry (rev source) seen victims = Inr (seen1, victims1)"
    by (auto split: option.splits if_splits sum.splits prod.splits)
  from "2.IH" [OF leaf source entry refl] "2.prems" leaf source entry collect_entry_collected [OF entry] show ?case by simp
qed auto

lemma refreshed_plan:
  assumes "refresh_and_combine_exact_reclaim ops entries s = Inr plan"
  shows "fp_manager_id plan = store_id s" "fp_expected_reset_slots plan = card (free s)"
    "distinct (map victim_block_id (fp_victims plan))" "\<forall>v \<in> set (fp_victims plan). fresh_victim s v"
    "ix_preflight_exact_reclaim ops (inactive s) (fp_victims plan) = Inr ()"
proof -
  from assms obtain victims where v: "collect_entries ops s 0 entries Map.empty [] = Inr victims"
    and plan: "plan = \<lparr>fp_manager_id = store_id s, fp_expected_reset_slots = card (free s), fp_victims = victims\<rparr>"
      "ix_preflight_exact_reclaim ops (inactive s) victims = Inr ()"
    by (auto simp: refresh_and_combine_exact_reclaim_def split: if_splits sum.splits)
  from collect_entries_collected [OF v] obtain seen where "collected s seen victims" by (auto simp: collected_def)
  with plan show "fp_manager_id plan = store_id s" "fp_expected_reset_slots plan = card (free s)"
    "distinct (map victim_block_id (fp_victims plan))" "\<forall>v \<in> set (fp_victims plan). fresh_victim s v"
    "ix_preflight_exact_reclaim ops (inactive s) (fp_victims plan) = Inr ()"
    by (auto simp: collected_def)
qed

lemma fresh_plan_accepted:
  assumes "refresh_and_combine_exact_reclaim ops entries s = Inr plan"
    and "0 < n" "n \<le> fp_expected_reset_slots plan + reclaimed_blocks plan"
    and "\<forall>v \<in> set (fp_victims plan). victim_block_id v < effective_ceiling s"
  shows "check_exact_reclaim ops n (fp_expected_reset_slots plan) (fp_victims plan) s = None"
proof -
  note plan = refreshed_plan [OF assms(1)]
  have "check_victim_ids s (fp_victims plan) {} = None"
    using plan(3,4) by (simp add: check_victim_ids_None fresh_victim_def)
  moreover have "first_error (check_victim_slot s) (fp_victims plan) = None"
    using plan(4) assms(4) by (auto simp: first_error_None check_victim_slot_None fresh_victim_def)
  ultimately show ?thesis
    using assms(2,3) plan(2,5) by (simp add: check_exact_reclaim_def reclaimed_blocks_def)
qed

section \<open>An accepted transaction commits\<close>

context inactive_index
begin

lemma take_hit:
  assumes inv: "MI X R E dr di dh dm dp s" and b: "st s b = Inactive h k" "b \<notin> X"
  shows "\<exists>i. ix_take ops h b (inactive s) = Some (True, i) \<and> iabs i = (iabs (inactive s))(h := None)
    \<and> MI (insert b X) R E dr di dh dm dp (s\<lparr>inactive := i\<rparr>)"
proof -
  note ok = core_invD [OF mid_invD(1) [OF inv]]
  have m: "iabs (inactive s) h = Some b" using index_okD(1) [OF ok(5)] b by simp
  from take_pair [OF mid_invD(2) [OF inv], of h b] m obtain i where
    i: "ix_take ops h b (inactive s) = Some (True, i)" "iinv i" "iabs i = (iabs (inactive s))(h := None)"
      "\<forall>n. room n (inactive s) \<longrightarrow> room n i" by auto
  have "extracts (iabs (inactive s)) [(h, b)] (iabs i)" by (simp add: extracts_Cons m i(3))
  from extract_step [OF inv this i(2,4)] i show ?thesis by auto
qed

lemma reclaim_victim_step:
  assumes inv: "MI {} {} E dr di dh dm dp s" and b: "st s (victim_block_id v) = Inactive (victim_seq_hash v) k"
  shows "\<exists>s'. reclaim_victim ops v s = Some (k, s') \<and> only_slots {victim_block_id v} s s'
    \<and> st s' = (st s)(victim_block_id v := Reset)
    \<and> iabs (inactive s') = (iabs (inactive s))(victim_seq_hash v := None)
    \<and> active_by_hash s' = active_by_hash s \<and> held_by_hash s' = held_by_hash s \<and> (\<forall>c. gen_ok s' c = gen_ok s c)
    \<and> MI {} {} E (dr + 1) (di - 1) dh dm (unbook dp [k]) s'"
proof -
  let ?b = "victim_block_id v" and ?h = "victim_seq_hash v"
  from take_hit [OF inv b] obtain i where i: "ix_take ops ?h ?b (inactive s) = Some (True, i)"
    "iabs i = (iabs (inactive s))(?h := None)" "MI {?b} {} E dr di dh dm dp (s\<lparr>inactive := i\<rparr>)" by auto
  let ?s = "s\<lparr>inactive := i\<rparr>"
  have st: "st ?s = st s" by (rule st_cong) simp
  have held: "held_ok ((st ?s)(?b := Reset)) (held_by_hash ?s)"
    using held_ok_keep [OF core_invD(7) [OF mid_invD(1) [OF i(3)]], of ?b Reset] by (simp add: st b)
  have same: "?s\<lparr>held_by_hash := held_by_hash ?s\<rparr> = ?s" by simp
  from give_back_step [OF i(3) _ _ _ held, of "default_reset_on_release s"] obtain s1 s2 where
    s2: "set_state ?b Reset ?s = Some s1" "set_reset_flag ?b (default_reset_on_release s) s1 = Some s2"
      "only_slots {?b} ?s (push_reset_id_locked ?b s2)" "st (push_reset_id_locked ?b s2) = (st s)(?b := Reset)"
      "inactive (push_reset_id_locked ?b s2) = i" "active_by_hash (push_reset_id_locked ?b s2) = active_by_hash s"
      "held_by_hash (push_reset_id_locked ?b s2) = held_by_hash s" "default_reset_on_release s1 = default_reset_on_release s"
      "\<forall>c. gen_ok (push_reset_id_locked ?b s2) c = gen_ok ?s c"
      "MI {} {} E (dr + 1) (di - 1) dh dm (unbook dp [k]) (push_reset_id_locked ?b s2)"
    unfolding same by (auto simp: st b)
  have "take_inactive_handle ?s ?b = Some k" by (rule take_inactive_handle_st) (simp add: st b)
  then have "reclaim_victim ops v s = Some (k, push_reset_id_locked ?b s2)"
    using i(1) s2(1,2,8) by (simp add: reclaim_victim_def assert_that_def Let_def)
  moreover have "only_slots {?b} s (push_reset_id_locked ?b s2)" using s2(3) by (simp add: only_slots_def frame_def)
  moreover have "gen_ok ?s c = gen_ok s c" for c by (simp add: gen_ok_def)
  ultimately show ?thesis using s2(4-7,9,10) i(2) by auto
qed

lemma reclaim_victims_step:
  assumes "MI {} {} E dr di dh dm dp s" "distinct (map victim_block_id vs)"
    "\<forall>v \<in> set vs. \<exists>k. st s (victim_block_id v) = Inactive (victim_seq_hash v) k"
  shows "\<exists>handles s'. reclaim_victims ops vs s = Some (handles, s') \<and> length handles = length vs
    \<and> only_slots (victim_block_id ` set vs) s s'
    \<and> (\<forall>b. st s' b = (if b \<in> victim_block_id ` set vs then Reset else st s b))
    \<and> iabs (inactive s') = iabs (inactive s) |` (- victim_seq_hash ` set vs)
    \<and> active_by_hash s' = active_by_hash s \<and> held_by_hash s' = held_by_hash s \<and> (\<forall>c. gen_ok s' c = gen_ok s c)
    \<and> MI {} {} E (dr + int (length vs)) (di - int (length vs)) dh dm (unbook dp handles) s'"
  using assms
proof (induction vs arbitrary: s dr di dp)
  case (Cons v vs)
  from Cons.prems(3) obtain k where k: "st s (victim_block_id v) = Inactive (victim_seq_hash v) k" by auto
  from reclaim_victim_step [OF Cons.prems(1) k] obtain s1 where
    s1: "reclaim_victim ops v s = Some (k, s1)" "only_slots {victim_block_id v} s s1"
      "st s1 = (st s)(victim_block_id v := Reset)"
      "iabs (inactive s1) = (iabs (inactive s))(victim_seq_hash v := None)"
      "active_by_hash s1 = active_by_hash s" "held_by_hash s1 = held_by_hash s" "\<forall>c. gen_ok s1 c = gen_ok s c"
      "MI {} {} E (dr + 1) (di - 1) dh dm (unbook dp [k]) s1" by blast
  have vs: "distinct (map victim_block_id vs)" "\<forall>w \<in> set vs. \<exists>k. st s1 (victim_block_id w) = Inactive (victim_seq_hash w) k"
    using Cons.prems(2,3) by (auto simp: s1(3)) (metis image_eqI)
  from Cons.IH [OF s1(8) vs] obtain handles s' where s': "reclaim_victims ops vs s1 = Some (handles, s')"
    "length handles = length vs" "only_slots (victim_block_id ` set vs) s1 s'"
    "\<forall>b. st s' b = (if b \<in> victim_block_id ` set vs then Reset else st s1 b)"
    "iabs (inactive s') = iabs (inactive s1) |` (- victim_seq_hash ` set vs)"
    "active_by_hash s' = active_by_hash s1" "held_by_hash s' = held_by_hash s1" "\<forall>c. gen_ok s' c = gen_ok s1 c"
    "MI {} {} E (dr + 1 + int (length vs)) (di - 1 - int (length vs)) dh dm (unbook (unbook dp [k]) handles) s'"
    by (elim exE conjE) (rule that)
  have "only_slots (victim_block_id ` set (v # vs)) s s'" using only_slots_trans [OF s1(2) s'(3)] by simp
  moreover have "iabs (inactive s') = iabs (inactive s) |` (- victim_seq_hash ` set (v # vs))"
    unfolding s'(5) s1(4) restrict_upd_restrict by simp
  moreover have "dr + int (length (v # vs)) = dr + 1 + int (length vs)" "di - int (length (v # vs)) = di - 1 - int (length vs)" by simp_all
  ultimately show ?case
    using s1(1,3,5,6,7) s'(1,2,4,6,7,8,9) by (intro exI [of _ "k # handles"] exI [of _ s']) (simp add: algebra_simps)
qed (auto simp: restrict_map_def)

theorem exact_reclaim_commits:
  assumes inv: "SI E dm s" and gens: "\<forall>b < length (slots s). gen_ok s b"
    and chk: "check_exact_reclaim ops n expected victims s = None"
  shows "\<exists>blocks s'. allocate_exact_reclaim ops n expected victims s = Some (Inr (blocks, map victim_seq_hash victims), s')
    \<and> SI E dm s' \<and> frame s s'
    \<and> map mb_block_id blocks = take n (sorted_list_of_set (free s \<union> victim_block_id ` set victims)) \<and> length blocks = n
    \<and> (\<forall>b. st s' b = (if b \<in> mb_block_id ` set blocks then Mutable
             else if b \<in> victim_block_id ` set victims then Reset else st s b))
    \<and> iabs (inactive s') = iabs (inactive s) |` (- victim_seq_hash ` set victims)
    \<and> active_by_hash s' = active_by_hash s \<and> held_by_hash s' = held_by_hash s"
proof -
  let ?V = "victim_block_id ` set victims"
  from chk have ids: "check_victim_ids s victims {} = None" and cap: "n \<le> card (free s) + length victims"
    and slots: "first_error (check_victim_slot s) victims = None"
    by (auto simp: check_exact_reclaim_def split: if_splits option.splits)
  have dist: "distinct (map victim_block_id victims)" using ids by (simp add: check_victim_ids_None)
  have vic: "\<forall>v \<in> set victims. \<exists>k. st s (victim_block_id v) = Inactive (victim_seq_hash v) k"
    and below: "\<forall>b \<in> ?V. b < effective_ceiling s"
    using slots by (auto simp: first_error_None check_victim_slot_None)
  note MI0 = inv [unfolded SI_iff_MI]
  from reclaim_victims_step [OF MI0 dist vic] obtain handles s1 where
    s1: "reclaim_victims ops victims s = Some (handles, s1)" "only_slots ?V s s1"
      "\<forall>b. st s1 b = (if b \<in> ?V then Reset else st s b)"
      "iabs (inactive s1) = iabs (inactive s) |` (- victim_seq_hash ` set victims)"
      "active_by_hash s1 = active_by_hash s" "held_by_hash s1 = held_by_hash s" "\<forall>c. gen_ok s1 c = gen_ok s c"
    and MI1: "MI {} {} E (int (length victims)) (- int (length victims)) 0 dm (unbook (\<lambda>_. 0) handles) s1"
    by (elim exE conjE) (rule that, assumption+, simp)
  note fr = only_slots_frame [OF s1(2)]
  have ceil: "effective_ceiling s1 = effective_ceiling s" using fr by (rule frame_ceiling)
  have free: "free s1 = free s \<union> ?V"
    using core_invD(4) [OF mid_invD(1) [OF MI0]] core_invD(4) [OF mid_invD(1) [OF MI1]] s1(3) below
    by (auto simp: pools_ok_def ceil)
  have "?V \<inter> free s = {}" using vic core_bounds(4) [OF mid_invD(1) [OF MI0]] by fastforce
  moreover have "card ?V = length victims" using distinct_card [OF dist] by simp
  ultimately have card: "card (free s1) = card (free s) + length victims"
    unfolding free using core_bounds(6) [OF mid_invD(1) [OF MI0]] by (subst card_Un_disjoint) auto
  let ?ids = "take n (sorted_list_of_set (free s \<union> ?V))"
  have "\<forall>b \<in> free s1. gen_ok s1 b"
    using gens s1(7) core_bounds(4) [OF mid_invD(1) [OF MI1]] core_invD(1) [OF mid_invD(1) [OF MI1]]
      effective_ceiling_le [of s1] fr by (fastforce simp: frame_def)
  moreover have "n \<le> card (free s1)" using cap card by simp
  ultimately obtain blocks s2 where
    s2: "allocate_reset_loop n s1 = Some (blocks, s2)" "map mb_block_id blocks = ?ids" "only_slots (set ?ids) s1 s2"
      "\<forall>b \<in> set ?ids. st s2 b = Mutable" "inactive s2 = inactive s1" "active_by_hash s2 = active_by_hash s1"
      "held_by_hash s2 = held_by_hash s1"
    and MI2: "MI {} {} E (int (length victims) - int n) (- int (length victims)) 0 (dm + int n) (unbook (\<lambda>_. 0) handles) s2"
    using allocate_reset_loop_step [OF MI1, of n] unfolding free
    by (elim impE allE exE conjE meta_impE) (assumption | rule that)+
  let ?m = "inc_allocations n (min n expected) (inc_evictions (length victims) (inc_inflight_mutable_by (int n)
    (dec_inactive_pool_size_by (int (length victims)) (dec_reset_pool_size_by (int n)
      (inc_reset_pool_size_by (int (length victims)) s2)))))"
  have "MI {} {} E 0 0 0 dm (unbook (\<lambda>_. 0) handles) ?m" using MI2 by (simp add: mid_inv_book)
  from MI_unbook [OF this] have SI: "SI E dm (fold mark_absent handles ?m)" by (simp add: SI_iff_MI)
  have ids: "mb_block_id ` set blocks = set ?ids" using arg_cong [OF s2(2), of set] by simp
  have st2: "st s2 b = (if b \<in> set ?ids then Mutable else st s1 b)" for b
    using s2(4) only_slots_st [OF s2(3), of b] by auto
  have len: "length blocks = n" using arg_cong [OF s2(2), of length] card cap unfolding free by simp
  have fields: "frame s2 ?m" "st ?m = st s2" "inactive ?m = inactive s2" "active_by_hash ?m = active_by_hash s2"
    "held_by_hash ?m = held_by_hash s2" by (simp_all add: metrics_defs frame_def)
  have "frame s (fold mark_absent handles ?m)"
    using frame_trans [OF fr frame_trans [OF only_slots_frame [OF s2(3)] fields(1)]] by simp
  with s1 s2 SI chk len show ?thesis
    unfolding allocate_exact_reclaim_def by (simp add: fields st2 ids Let_def)
qed

end

end
