(* ===== verification/Lineage_Hold.thy ===== *)
theory Lineage_Hold
  imports Block_Store_Moves
begin

text \<open>
  Exclusive ownership of a complete inactive lineage (\<open>pools/store/inactive_lineage_hold.rs\<close>): the
  blocks leave the index and become held, hidden from lookups; the hold then either restores all of
  them or commits, which restores the support blocks and releases the leaf.
\<close>

definition lineage_slot_ok :: "('h, 'i) block_store \<Rightarrow> 'h inactive_candidate \<Rightarrow> bool" where
  "lineage_slot_ok s cand =
     (case index_slot s (cand_block_id cand) of
        None \<Rightarrow> False
      | Some slot \<Rightarrow>
        (case slot_state slot of
           Inactive h _ \<Rightarrow> h = cand_seq_hash cand \<and> generation slot = cand_generation cand
             \<and> inactive_epoch slot = cand_inactive_epoch cand
         | _ \<Rightarrow> False))"

definition current_inactive_lineage ::
  "('h, 'i) index_ops \<Rightarrow> ('h, 'i) block_store \<Rightarrow> 'h inactive_candidate \<Rightarrow> ('h \<times> block_id) list option" where
  "current_inactive_lineage ops s cand =
     (if held_by_hash s (cand_seq_hash cand) \<noteq> None then None
      else if \<not> lineage_slot_ok s cand then None
      else case ix_complete_lineage ops (inactive s) (cand_seq_hash cand) (cand_block_id cand) of
        None \<Rightarrow> None
      | Some source_blocks \<Rightarrow>
        (if list_ex (\<lambda>(h, _). held_by_hash s h \<noteq> None) source_blocks then None else Some source_blocks))"

definition preflight_inactive_lineage_by_hash ::
  "('h, 'i) index_ops \<Rightarrow> 'h \<Rightarrow> ('h, 'i) block_store \<Rightarrow> ('h inactive_candidate \<times> ('h \<times> block_id) list) option" where
  "preflight_inactive_lineage_by_hash ops h s =
     (if held_by_hash s h \<noteq> None then None
      else do {
        b \<leftarrow> ix_exact_block_id ops (inactive s) h;
        slot \<leftarrow> index_slot s b;
        case slot_state slot of
          Inactive stored _ \<Rightarrow>
            (if stored \<noteq> h then None
             else do {
               features \<leftarrow> ix_advice ops (inactive s) h;
               let cand = \<lparr>cand_seq_hash = h, cand_block_id = b, cand_generation = generation slot,
                           cand_inactive_epoch = inactive_epoch slot, cand_features = features\<rparr>;
               blocks \<leftarrow> current_inactive_lineage ops s cand;
               Some (cand, blocks)
             })
        | _ \<Rightarrow> None
      })"

definition preflight_inactive_lineage ::
  "('h, 'i) index_ops \<Rightarrow> 'h inactive_candidate \<Rightarrow> ('h, 'i) block_store \<Rightarrow> ('h \<times> block_id) list option" where
  "preflight_inactive_lineage ops cand s = current_inactive_lineage ops s cand"

definition take_exact_inactive_handle ::
  "('h, 'i) block_store \<Rightarrow> 'h \<Rightarrow> block_id \<Rightarrow> 'h registration_handle option" where
  "take_exact_inactive_handle s h b = do {
     slot \<leftarrow> index_slot s b;
     case slot_state slot of Inactive stored handle \<Rightarrow> (if stored = h then Some handle else None) | _ \<Rightarrow> None
   }"

definition take_exact_held_handle ::
  "('h, 'i) block_store \<Rightarrow> 'h \<Rightarrow> block_id \<Rightarrow> 'h registration_handle option" where
  "take_exact_held_handle s h b = do {
     slot \<leftarrow> index_slot s b;
     case slot_state slot of Held stored handle \<Rightarrow> (if stored = h then Some handle else None) | _ \<Rightarrow> None
   }"

fun hold_blocks ::
  "('h \<times> block_id) list \<Rightarrow> ('h, 'i) block_store \<Rightarrow> ('h, 'i) block_store option" where
  "hold_blocks [] s = Some s"
| "hold_blocks ((h, b) # blocks) s = do {
     handle \<leftarrow> take_exact_inactive_handle s h b;
     assert_that (held_by_hash s h = None);
     s \<leftarrow> set_state b (Held h handle) (s\<lparr>held_by_hash := (held_by_hash s)(h \<mapsto> b)\<rparr>);
     hold_blocks blocks s
   }"

text \<open>The outer option is the panic, the inner one a refused claim.\<close>

definition try_hold_inactive_lineage_if_current ::
  "('h, 'i) index_ops \<Rightarrow> 'h inactive_candidate \<Rightarrow> ('h \<times> block_id) list option \<Rightarrow> ('h, 'i) block_store
    \<Rightarrow> (('h \<times> block_id) list option \<times> ('h, 'i) block_store) option" where
  "try_hold_inactive_lineage_if_current ops cand expected s =
     (case current_inactive_lineage ops s cand of
        None \<Rightarrow> Some (None, s)
      | Some source_blocks \<Rightarrow>
        (if expected \<noteq> None \<and> expected \<noteq> Some source_blocks then Some (None, s)
         else do {
           (extracted, i) \<leftarrow> ix_take_complete_lineage ops (cand_seq_hash cand) (cand_block_id cand) (inactive s);
           let s = s\<lparr>inactive := i\<rparr>;
           if extracted = None then Some (None, s)
           else do {
             s \<leftarrow> hold_blocks source_blocks s;
             let s = dec_inactive_pool_size_by (int (length source_blocks)) s;
             let s = inc_held_residency_by (int (length source_blocks)) s;
             Some (Some source_blocks, s)
           }
         }))"

definition try_hold_inactive_lineage ::
  "('h, 'i) index_ops \<Rightarrow> 'h inactive_candidate \<Rightarrow> ('h, 'i) block_store
    \<Rightarrow> (('h \<times> block_id) list option \<times> ('h, 'i) block_store) option" where
  "try_hold_inactive_lineage ops cand s = try_hold_inactive_lineage_if_current ops cand None s"

definition try_hold_prepared_inactive_lineage ::
  "('h, 'i) index_ops \<Rightarrow> 'h inactive_candidate \<Rightarrow> ('h \<times> block_id) list \<Rightarrow> ('h, 'i) block_store
    \<Rightarrow> (('h \<times> block_id) list option \<times> ('h, 'i) block_store) option" where
  "try_hold_prepared_inactive_lineage ops cand expected s =
     try_hold_inactive_lineage_if_current ops cand (Some expected) s"

definition has_newer_registered_copy ::
  "('h, 'i) index_ops \<Rightarrow> ('h, 'i) block_store \<Rightarrow> 'h \<Rightarrow> block_id \<Rightarrow> bool" where
  "has_newer_registered_copy ops s h held_block_id \<longleftrightarrow>
     (case active_by_hash s h of None \<Rightarrow> False | Some b \<Rightarrow> b \<noteq> held_block_id) \<or> ix_has ops (inactive s) h"

text \<open>Restore the support blocks; the result is the number restored and the handles of the discarded.\<close>

fun restore_support_blocks ::
  "('h, 'i) index_ops \<Rightarrow> ('h \<times> block_id) list \<Rightarrow> ('h, 'i) block_store
    \<Rightarrow> (nat \<times> 'h registration_handle list \<times> ('h, 'i) block_store) option" where
  "restore_support_blocks ops [] s = Some (0, [], s)"
| "restore_support_blocks ops ((h, b) # blocks) s = do {
     handle \<leftarrow> take_exact_held_handle s h b;
     assert_that (held_by_hash s h = Some b);
     let s = s\<lparr>held_by_hash := (held_by_hash s)(h := None)\<rparr>;
     if has_newer_registered_copy ops s h b then do {
       s \<leftarrow> set_state b Reset s;
       s \<leftarrow> set_reset_flag b (default_reset_on_release s) s;
       (restored, discarded, s) \<leftarrow> restore_support_blocks ops blocks (push_reset_id_locked b s);
       Some (restored, handle # discarded, s)
     } else do {
       s \<leftarrow> set_state b (Inactive h handle) s;
       i \<leftarrow> ix_insert ops h b (inactive s);
       (restored, discarded, s) \<leftarrow> restore_support_blocks ops blocks (s\<lparr>inactive := i\<rparr>);
       Some (restored + 1, discarded, s)
     }
   }"

definition restore_lineage_hold ::
  "('h, 'i) index_ops \<Rightarrow> ('h \<times> block_id) list \<Rightarrow> ('h, 'i) block_store \<Rightarrow> ('h, 'i) block_store option" where
  "restore_lineage_hold ops source_blocks s = do {
     (restored, discarded, s) \<leftarrow> restore_support_blocks ops source_blocks s;
     let s = inc_inactive_pool_size_by (int restored) s;
     let s = dec_held_residency_by (int (length source_blocks)) s;
     let s = inc_reset_pool_size_by (int (length discarded)) s;
     Some (fold mark_absent discarded s)
   }"

definition commit_lineage_hold ::
  "('h, 'i) index_ops \<Rightarrow> ('h \<times> block_id) list \<Rightarrow> ('h, 'i) block_store
    \<Rightarrow> ('h option \<times> ('h, 'i) block_store) option" where
  "commit_lineage_hold ops source_blocks s =
     (if source_blocks = [] then None
      else case last source_blocks of (victim_hash, victim_id) \<Rightarrow> do {
        let support = butlast source_blocks;
        (restored, discarded, s) \<leftarrow> restore_support_blocks ops support s;
        let victim_replaced = has_newer_registered_copy ops s victim_hash victim_id;
        victim_handle \<leftarrow> take_exact_held_handle s victim_hash victim_id;
        assert_that (held_by_hash s victim_hash = Some victim_id);
        let s = s\<lparr>held_by_hash := (held_by_hash s)(victim_hash := None)\<rparr>;
        s \<leftarrow> set_state victim_id Reset s;
        s \<leftarrow> set_reset_flag victim_id (default_reset_on_release s) s;
        let s = push_reset_id_locked victim_id s;
        let s = inc_inactive_pool_size_by (int restored) s;
        let s = dec_held_residency_by (int (length support + 1)) s;
        let s = inc_reset_pool_size_by (int (length discarded + 1)) s;
        let s = inc_evictions 1 s;
        let s = fold mark_absent discarded s;
        let s = mark_absent victim_handle s;
        Some (if victim_replaced then None else Some victim_hash, s)
      })"

text \<open>\<open>StoreInactiveLineageHold\<close>: dropping a hold that was not committed restores it.\<close>

definition commit_victim_release ::
  "('h, 'i) index_ops \<Rightarrow> ('h \<times> block_id) list \<Rightarrow> ('h, 'i) block_store
    \<Rightarrow> ('h option \<times> ('h, 'i) block_store) option" where
  "commit_victim_release ops source_blocks s = commit_lineage_hold ops source_blocks s"

definition drop_lineage_hold ::
  "('h, 'i) index_ops \<Rightarrow> ('h \<times> block_id) list \<Rightarrow> ('h, 'i) block_store \<Rightarrow> ('h, 'i) block_store option" where
  "drop_lineage_hold ops source_blocks s =
     (if source_blocks = [] then Some s else restore_lineage_hold ops source_blocks s)"

section \<open>Claiming\<close>

text \<open>The blocks of a list, in their inactive or held state.\<close>

definition inactive_blocks :: "('h, 'i) block_store \<Rightarrow> ('h \<times> block_id) list \<Rightarrow> bool" where
  "inactive_blocks s blocks \<longleftrightarrow> (\<forall>(h, b) \<in> set blocks. \<exists>k. st s b = Inactive h k)"

definition held_blocks :: "('h, 'i) block_store \<Rightarrow> ('h \<times> block_id) list \<Rightarrow> bool" where
  "held_blocks s blocks \<longleftrightarrow> (\<forall>(h, b) \<in> set blocks. \<exists>k. st s b = Held h k)"

text \<open>The state of the blocks of a hold, as a function of their state when they were claimed.\<close>

fun held_state :: "'h slot_state \<Rightarrow> 'h slot_state" where
  "held_state (Inactive h k) = Held h k"
| "held_state x = x"

definition released_state :: "('h, 'i) block_store \<Rightarrow> 'h slot_state \<Rightarrow> 'h slot_state" where
  "released_state s x = (case x of Held h k \<Rightarrow> (if registered s h then Reset else Inactive h k) | _ \<Rightarrow> x)"

lemma take_exact_handles:
  "st s b = Inactive h k \<Longrightarrow> take_exact_inactive_handle s h b = Some k"
  "st s b = Held h k \<Longrightarrow> take_exact_held_handle s h b = Some k"
  by (auto simp: take_exact_inactive_handle_def take_exact_held_handle_def index_slot_def st_def split: if_splits)

lemma unbook_one: "(\<lambda>i. unbook dp [k] i + of_bool (handle_id k = i)) = dp"
  by (simp add: unbook_def)

lemma blocks_upd:
  assumes "st s' = (st s)(b := x)" "b \<notin> snd ` set blocks"
  shows "inactive_blocks s' blocks = inactive_blocks s blocks" "held_blocks s' blocks = held_blocks s blocks"
proof -
  have "st s' (snd hb) = st s (snd hb)" if "hb \<in> set blocks" for hb using assms that by auto
  then show "inactive_blocks s' blocks = inactive_blocks s blocks" "held_blocks s' blocks = held_blocks s blocks"
    unfolding inactive_blocks_def held_blocks_def by (auto split: prod.splits)
qed

lemma registered_upd:
  assumes "st s' = (st s)(b := x)" "prim_hash (st s b) = None" "inact_hash (st s b) = None"
  shows "registered s' h \<longleftrightarrow> registered s h \<or> prim_hash x = Some h \<or> inact_hash x = Some h"
proof
  assume "registered s' h"
  then obtain c where "prim_hash (st s' c) = Some h \<or> inact_hash (st s' c) = Some h" by (auto simp: registered_def)
  then show "registered s h \<or> prim_hash x = Some h \<or> inact_hash x = Some h"
    unfolding assms(1) by (cases "c = b") (auto simp: registered_def)
next
  assume R: "registered s h \<or> prim_hash x = Some h \<or> inact_hash x = Some h"
  show "registered s' h"
  proof (cases "registered s h")
    case True
    then obtain c where c: "prim_hash (st s c) = Some h \<or> inact_hash (st s c) = Some h" by (auto simp: registered_def)
    with assms(2,3) have "c \<noteq> b" by auto
    with c show ?thesis unfolding registered_def assms(1) by (intro exI [of _ c]) simp
  next
    case False
    with R show ?thesis unfolding registered_def assms(1) by (intro exI [of _ b]) simp
  qed
qed

context inactive_index
begin

lemma hold_blocks_step:
  assumes "MI X R E dr di dh dm dp s" "distinct (map fst blocks)" "distinct (map snd blocks)"
    "inactive_blocks s blocks" "snd ` set blocks \<subseteq> X" "\<forall>(h, b) \<in> set blocks. held_by_hash s h = None"
  shows "\<exists>s'. hold_blocks blocks s = Some s' \<and> only_slots (snd ` set blocks) s s'
    \<and> (\<forall>b. st s' b = (if b \<in> snd ` set blocks then held_state (st s b) else st s b))
    \<and> inactive s' = inactive s \<and> active_by_hash s' = active_by_hash s
    \<and> MI (X - snd ` set blocks) R E dr (di - int (length blocks)) (dh + int (length blocks)) dm dp s'"
  using assms
proof (induction blocks arbitrary: X s di dh)
  case (Cons hb blocks)
  obtain h b where hb: "hb = (h, b)" by (cases hb)
  from Cons.prems(4) hb obtain k where k: "st s b = Inactive h k" by (auto simp: inactive_blocks_def)
  note inv = Cons.prems(1) and ok = core_invD [OF mid_invD(1) [OF Cons.prems(1)]]
  have b: "b \<in> X" "held_by_hash s h = None" "b < capacity s"
    using Cons.prems(5,6) hb ok(3) [of b] k by auto
  have pools: "pools_ok ((st s)(b := Held h k)) (effective_ceiling s) (capacity s) R (free s) (fenced s)"
    by (rule pools_ok_upd(1) [OF ok(4)]) (simp_all add: k)
  have idx: "index_ok ((st s)(b := Held h k)) (X - {b}) (iabs (inactive s))"
    by (rule index_ok_leave [OF ok(5) b(1)]) simp
  have held: "held_ok ((st s)(b := Held h k)) ((held_by_hash s)(h \<mapsto> b))"
    by (rule held_ok_add [OF ok(7) _ b(2)]) (simp_all add: k)
  from move_slot_step [OF inv b(3) _ _ pools idx _ held] obtain s1 where
    s1: "set_state b (Held h k) (s\<lparr>held_by_hash := (held_by_hash s)(h \<mapsto> b)\<rparr>) = Some s1" "only_slots {b} s s1"
      "st s1 = (st s)(b := Held h k)" "slots_only (s\<lparr>held_by_hash := (held_by_hash s)(h \<mapsto> b)\<rparr>) s1"
    and MI1: "MI (X - {b}) R E dr (di - 1) (dh + 1) dm dp s1"
    by (auto simp: k unbook_one)
  note so = slots_onlyD [OF s1(4)]
  have notin: "b \<notin> snd ` set blocks" "h \<notin> fst ` set blocks" using Cons.prems(2,3) by (simp_all add: hb)
  have ib: "inactive_blocks s1 blocks"
    using blocks_upd(1) [OF s1(3) notin(1)] Cons.prems(4) by (simp add: hb inactive_blocks_def)
  have sub: "snd ` set blocks \<subseteq> X - {b}" using Cons.prems(5) notin(1) by (auto simp: hb)
  have hn: "\<forall>(h, b) \<in> set blocks. held_by_hash s1 h = None"
  proof (intro ballI, clarify)
    fix h' b' assume x: "(h', b') \<in> set blocks"
    then have "h' \<noteq> h" using notin(2) by force
    with Cons.prems(6) x show "held_by_hash s1 h' = None" by (auto simp: hb so)
  qed
  from Cons.IH [OF MI1 _ _ ib sub hn] Cons.prems(2,3) obtain s' where
    s': "hold_blocks blocks s1 = Some s'" "only_slots (snd ` set blocks) s1 s'"
      "\<forall>b. st s' b = (if b \<in> snd ` set blocks then held_state (st s1 b) else st s1 b)"
      "inactive s' = inactive s1" "active_by_hash s' = active_by_hash s1"
      "MI (X - {b} - snd ` set blocks) R E dr (di - 1 - int (length blocks)) (dh + 1 + int (length blocks)) dm dp s'"
    by auto
  have "only_slots (snd ` set (hb # blocks)) s s'" using only_slots_trans [OF s1(2) s'(2)] by (simp add: hb)
  moreover have "X - {b} - snd ` set blocks = X - snd ` set (hb # blocks)" by (auto simp: hb)
  ultimately show ?case
    using notin(1) s1(1) s' so take_exact_handles(1) [OF k] b(2)
    by (intro exI [of _ s']) (auto simp: hb s1(3) k assert_that_def algebra_simps)
qed simp

lemma current_lineage:
  assumes inv: "SI E dm s" and cur: "current_inactive_lineage ops s cand = Some blocks"
  shows "blocks \<noteq> []" "last blocks = (cand_seq_hash cand, cand_block_id cand)" "distinct (map fst blocks)"
    "distinct (map snd blocks)" "inactive_blocks s blocks" "\<forall>(h, b) \<in> set blocks. held_by_hash s h = None"
    "\<exists>i. ix_take_complete_lineage ops (cand_seq_hash cand) (cand_block_id cand) (inactive s) = Some (Some blocks, i)
      \<and> extracts (iabs (inactive s)) blocks (iabs i) \<and> MI (snd ` set blocks) {} E 0 0 0 dm (\<lambda>_. 0) (s\<lparr>inactive := i\<rparr>)"
proof -
  note MI = inv [unfolded SI_iff_MI]
  from cur have lin: "ix_complete_lineage ops (inactive s) (cand_seq_hash cand) (cand_block_id cand) = Some blocks"
    and held: "\<not> list_ex (\<lambda>(h, _). held_by_hash s h \<noteq> None) blocks"
    by (auto simp: current_inactive_lineage_def split: if_splits option.splits)
  from complete_lineage [OF mid_invD(2) [OF MI] lin] obtain i where
    i: "blocks \<noteq> []" "last blocks = (cand_seq_hash cand, cand_block_id cand)"
      "ix_take_complete_lineage ops (cand_seq_hash cand) (cand_block_id cand) (inactive s) = Some (Some blocks, i)"
      "iinv i" "extracts (iabs (inactive s)) blocks (iabs i)" "\<forall>n. room n (inactive s) \<longrightarrow> room n i" by blast
  from i(1,2) show "blocks \<noteq> []" "last blocks = (cand_seq_hash cand, cand_block_id cand)" .
  from i(5) show "distinct (map fst blocks)" by (simp add: extracts_def)
  note ex = extracted_slots [OF MI i(5)]
  show "distinct (map snd blocks)" by (rule ex(1))
  show "inactive_blocks s blocks" using ex(2) by (auto simp: inactive_blocks_def)
  show "\<forall>(h, b) \<in> set blocks. held_by_hash s h = None" using held by (auto simp: list_ex_iff)
  from extract_step [OF MI i(5,4,6)] i(3,5) show "\<exists>i. ix_take_complete_lineage ops (cand_seq_hash cand)
      (cand_block_id cand) (inactive s) = Some (Some blocks, i) \<and> extracts (iabs (inactive s)) blocks (iabs i)
      \<and> MI (snd ` set blocks) {} E 0 0 0 dm (\<lambda>_. 0) (s\<lparr>inactive := i\<rparr>)" by auto
qed

lemma hold_step:
  assumes inv: "SI E dm s" and cur: "current_inactive_lineage ops s cand = Some blocks"
    and expected: "expected = None \<or> expected = Some blocks"
  shows "\<exists>s'. try_hold_inactive_lineage_if_current ops cand expected s = Some (Some blocks, s') \<and> SI E dm s' \<and> frame s s'
    \<and> (\<forall>b. st s' b = (if b \<in> snd ` set blocks then held_state (st s b) else st s b))
    \<and> held_blocks s' blocks \<and> extracts (iabs (inactive s)) blocks (iabs (inactive s'))
    \<and> active_by_hash s' = active_by_hash s"
proof -
  note lin = current_lineage [OF inv cur]
  from lin(7) obtain i where i: "ix_take_complete_lineage ops (cand_seq_hash cand) (cand_block_id cand) (inactive s) = Some (Some blocks, i)"
    "extracts (iabs (inactive s)) blocks (iabs i)" "MI (snd ` set blocks) {} E 0 0 0 dm (\<lambda>_. 0) (s\<lparr>inactive := i\<rparr>)" by blast
  let ?s = "s\<lparr>inactive := i\<rparr>"
  have st: "st ?s = st s" by (rule st_cong) simp
  have "inactive_blocks ?s blocks" "\<forall>(h, b) \<in> set blocks. held_by_hash ?s h = None"
    using lin(5,6) by (auto simp: inactive_blocks_def st)
  from hold_blocks_step [OF i(3) lin(3,4) this(1) subset_refl this(2)] obtain s1 where
    s1: "hold_blocks blocks ?s = Some s1" "only_slots (snd ` set blocks) ?s s1"
      "\<forall>b. st s1 b = (if b \<in> snd ` set blocks then held_state (st s b) else st s b)"
      "inactive s1 = i" "active_by_hash s1 = active_by_hash s"
    and MI1: "MI {} {} E 0 (- int (length blocks)) (int (length blocks)) dm (\<lambda>_. 0) s1"
    unfolding st by auto
  let ?s' = "inc_held_residency_by (int (length blocks)) (dec_inactive_pool_size_by (int (length blocks)) s1)"
  have "SI E dm ?s'" using MI1 by (simp add: SI_iff_MI mid_inv_book)
  moreover have "frame s ?s'" using s1(2) by (simp add: only_slots_def frame_def metrics_defs)
  moreover have "st ?s' = st s1" "inactive ?s' = inactive s1" "active_by_hash ?s' = active_by_hash s1"
    by (simp_all add: metrics_defs)
  moreover have "try_hold_inactive_lineage_if_current ops cand expected s = Some (Some blocks, ?s')"
    using cur expected i(1) s1(1) by (auto simp: try_hold_inactive_lineage_if_current_def)
  moreover have "held_blocks s1 blocks" using lin(5) s1(3) by (force simp: held_blocks_def inactive_blocks_def)
  ultimately show ?thesis using s1(3-5) i(2) by (intro exI [of _ ?s']) (simp add: held_blocks_def)
qed

section \<open>Releasing\<close>

lemma newer_copy:
  assumes inv: "MI {} R E dr di dh dm dp s" and b: "st s b = Held h k" and m: "s1 = s\<lparr>held_by_hash := m\<rparr>"
  shows "has_newer_registered_copy ops s1 h b \<longleftrightarrow> registered s h"
proof -
  note ok = core_invD [OF mid_invD(1) [OF inv]]
  have act: "active_by_hash s h = Some b' \<longleftrightarrow> prim_hash (st s b') = Some h" for b' using ok(6) by (simp add: active_ok_def)
  have ina: "iabs (inactive s) h = Some b' \<longleftrightarrow> inact_hash (st s b') = Some h" for b' using ok(5) by (simp add: index_ok_def)
  have "has_newer_registered_copy ops s1 h b \<longleftrightarrow> (\<exists>b'. active_by_hash s h = Some b' \<and> b' \<noteq> b) \<or> h \<in> dom (iabs (inactive s))"
    using has [OF mid_invD(2) [OF inv], of h] by (auto simp: has_newer_registered_copy_def m split: option.splits)
  moreover have "active_by_hash s h \<noteq> Some b" unfolding act by (simp add: b)
  moreover have "registered s h \<longleftrightarrow> (\<exists>b'. active_by_hash s h = Some b') \<or> (\<exists>b'. iabs (inactive s) h = Some b')"
    unfolding registered_def act ina by blast
  ultimately show ?thesis by (metis domD domI)
qed

lemma release_discard:
  assumes inv: "MI {} R E dr di dh dm dp s" and b: "st s b = Held h k"
  shows "\<exists>s1 s2. set_state b Reset (s\<lparr>held_by_hash := (held_by_hash s)(h := None)\<rparr>) = Some s1
    \<and> set_reset_flag b (default_reset_on_release s1) s1 = Some s2 \<and> only_slots {b} s (push_reset_id_locked b s2)
    \<and> st (push_reset_id_locked b s2) = (st s)(b := Reset) \<and> inactive (push_reset_id_locked b s2) = inactive s
    \<and> active_by_hash (push_reset_id_locked b s2) = active_by_hash s
    \<and> MI {} R E (dr + 1) di (dh - 1) dm (unbook dp [k]) (push_reset_id_locked b s2)"
proof -
  note ok = core_invD [OF mid_invD(1) [OF inv]]
  have "held_ok ((st s)(b := Reset)) ((held_by_hash s)(h := None))" by (rule held_ok_remove [OF ok(7)]) (simp_all add: b)
  from give_back_step [OF inv _ _ _ this, of "default_reset_on_release s"] b show ?thesis by (auto simp: b)
qed

lemma release_restore:
  assumes inv: "MI {} R E dr di dh dm dp s" and b: "st s b = Held h k" and new: "\<not> registered s h"
  shows "\<exists>s1 i. set_state b (Inactive h k) (s\<lparr>held_by_hash := (held_by_hash s)(h := None)\<rparr>) = Some s1
    \<and> ix_insert ops h b (inactive s1) = Some i \<and> only_slots {b} s (s1\<lparr>inactive := i\<rparr>)
    \<and> st (s1\<lparr>inactive := i\<rparr>) = (st s)(b := Inactive h k) \<and> iabs i = (iabs (inactive s))(h \<mapsto> b)
    \<and> active_by_hash s1 = active_by_hash s \<and> MI {} R E dr (di + 1) (dh - 1) dm dp (s1\<lparr>inactive := i\<rparr>)"
proof -
  note ok = core_invD [OF mid_invD(1) [OF inv]]
  have cap: "b < capacity s" using ok(3) [of b] b by simp
  have pools: "pools_ok ((st s)(b := Inactive h k)) (effective_ceiling s) (capacity s) R (free s) (fenced s)"
    by (rule pools_ok_upd(1) [OF ok(4)]) (simp_all add: b)
  have none: "inact_hash (st s b') \<noteq> Some h" "prim_hash (st s b') \<noteq> Some h" for b' using new by (auto simp: registered_def)
  have idx: "index_ok ((st s)(b := Inactive h k)) {b} (iabs (inactive s))"
    using index_ok_enter [OF ok(5), of b h "Inactive h k"] none by (simp add: b)
  have held: "held_ok ((st s)(b := Inactive h k)) ((held_by_hash s)(h := None))"
    by (rule held_ok_remove [OF ok(7)]) (simp_all add: b)
  have act: "active_by_hash s h = None" using ok(6) none(2) unfolding active_ok_def by (metis option.exhaust)
  from move_slot_step [OF inv cap _ _ pools idx _ held] act obtain s1 where
    s1: "set_state b (Inactive h k) (s\<lparr>held_by_hash := (held_by_hash s)(h := None)\<rparr>) = Some s1" "only_slots {b} s s1"
      "st s1 = (st s)(b := Inactive h k)" "slots_only (s\<lparr>held_by_hash := (held_by_hash s)(h := None)\<rparr>) s1"
    and MI1: "MI {b} R E dr (di + 1) (dh - 1) dm dp s1" by (auto simp: b unbook_one)
  note so = slots_onlyD [OF s1(4)]
  from insert_step [OF MI1, of b h k] obtain i where
    i: "ix_insert ops h b (inactive s1) = Some i" "iabs i = (iabs (inactive s1))(h \<mapsto> b)"
      "MI {} R E dr (di + 1) (dh - 1) dm dp (s1\<lparr>inactive := i\<rparr>)" by (auto simp: s1(3))
  have "only_slots {b} s (s1\<lparr>inactive := i\<rparr>)" using s1(2) by (simp add: only_slots_def frame_def)
  moreover have "st (s1\<lparr>inactive := i\<rparr>) = st s1" by (rule st_cong) simp
  ultimately show ?thesis using s1(1,3) i so by auto
qed

text \<open>The blocks of a hold, released one after the other.\<close>

lemma restore_support_step:
  assumes "MI {} R E dr di dh dm dp s" "distinct (map fst blocks)" "distinct (map snd blocks)" "held_blocks s blocks"
  shows "\<exists>restored discarded s'. restore_support_blocks ops blocks s = Some (restored, discarded, s')
    \<and> restored + length discarded = length blocks \<and> only_slots (snd ` set blocks) s s'
    \<and> (\<forall>b. st s' b = (if b \<in> snd ` set blocks then released_state s (st s b) else st s b))
    \<and> iabs (inactive s') = iabs (inactive s) ++ map_of (filter (\<lambda>(h, b). \<not> registered s h) blocks)
    \<and> active_by_hash s' = active_by_hash s
    \<and> MI {} R E (dr + int (length discarded)) (di + int restored) (dh - int (length blocks)) dm (unbook dp discarded) s'"
  using assms
proof (induction blocks arbitrary: s dr di dh dp)
  case (Cons hb blocks)
  obtain h b where hb: "hb = (h, b)" by (cases hb)
  from Cons.prems(4) hb obtain k where k: "st s b = Held h k" by (auto simp: held_blocks_def)
  note inv = Cons.prems(1) and ok = core_invD [OF mid_invD(1) [OF Cons.prems(1)]]
  let ?s0 = "s\<lparr>held_by_hash := (held_by_hash s)(h := None)\<rparr>"
  have pre: "take_exact_held_handle s h b = Some k" "held_by_hash s h = Some b"
    using take_exact_handles(2) [OF k] ok(7) k by (auto simp: held_ok_def)
  have newer: "has_newer_registered_copy ops ?s0 h b \<longleftrightarrow> registered s h" by (rule newer_copy [OF inv k refl])
  have notin: "b \<notin> snd ` set blocks" "h \<notin> fst ` set blocks" using Cons.prems(2,3) by (simp_all add: hb)
  show ?case
  proof (cases "registered s h")
    case True
    from release_discard [OF inv k] obtain s1 s2 where s2:
      "set_state b Reset ?s0 = Some s1" "set_reset_flag b (default_reset_on_release s1) s1 = Some s2"
      "only_slots {b} s (push_reset_id_locked b s2)" "st (push_reset_id_locked b s2) = (st s)(b := Reset)"
      "inactive (push_reset_id_locked b s2) = inactive s" "active_by_hash (push_reset_id_locked b s2) = active_by_hash s"
      "MI {} R E (dr + 1) di (dh - 1) dm (unbook dp [k]) (push_reset_id_locked b s2)" by blast
    let ?t = "push_reset_id_locked b s2"
    have reg: "registered ?t h' = registered s h'" for h' using registered_upd [OF s2(4)] k by simp
    have "held_blocks ?t blocks" using blocks_upd(2) [OF s2(4) notin(1)] Cons.prems(4) by (simp add: hb held_blocks_def)
    from Cons.IH [OF s2(7) _ _ this] Cons.prems(2,3) obtain restored discarded s' where s':
      "restore_support_blocks ops blocks ?t = Some (restored, discarded, s')" "restored + length discarded = length blocks"
      "only_slots (snd ` set blocks) ?t s'"
      "\<forall>b. st s' b = (if b \<in> snd ` set blocks then released_state ?t (st ?t b) else st ?t b)"
      "iabs (inactive s') = iabs (inactive s) ++ map_of (filter (\<lambda>(h, b). \<not> registered s h) blocks)"
      "active_by_hash s' = active_by_hash s"
      "MI {} R E (dr + 1 + int (length discarded)) (di + int restored) (dh - 1 - int (length blocks)) dm
        (unbook (unbook dp [k]) discarded) s'"
      unfolding reg s2(5,6) by auto
    have os: "only_slots (snd ` set (hb # blocks)) s s'" using only_slots_trans [OF s2(3) s'(3)] by (simp add: hb)
    have rel: "released_state ?t = released_state s" by (rule ext) (simp add: released_state_def reg split: slot_state.split)
    have rb: "released_state s (st s b) = Reset" by (simp add: k released_state_def True)
    have states: "st s' c = (if c \<in> snd ` set (hb # blocks) then released_state s (st s c) else st s c)" for c
      using s'(4) [rule_format, of c] notin(1) by (auto simp: hb s2(4) rb rel)
    have run: "restore_support_blocks ops (hb # blocks) s = Some (restored, k # discarded, s')"
      using s2(1,2) s'(1) pre newer True by (simp add: hb assert_that_def)
    have MI': "MI {} R E (dr + int (length (k # discarded))) (di + int restored) (dh - int (length (hb # blocks))) dm
        (unbook dp (k # discarded)) s'" using s'(7) by (simp add: algebra_simps)
    have iab: "iabs (inactive s') = iabs (inactive s) ++ map_of (filter (\<lambda>(h, b). \<not> registered s h) (hb # blocks))"
      using s'(5) True by (simp add: hb)
    show ?thesis
      by (intro exI [of _ restored] exI [of _ "k # discarded"] exI [of _ s'] conjI allI)
         (fact run iab os states MI' | simp add: s'(2,6) hb)+
  next
    case False
    from release_restore [OF inv k False] obtain s1 i where s1:
      "set_state b (Inactive h k) ?s0 = Some s1" "ix_insert ops h b (inactive s1) = Some i"
      "only_slots {b} s (s1\<lparr>inactive := i\<rparr>)" "st (s1\<lparr>inactive := i\<rparr>) = (st s)(b := Inactive h k)"
      "iabs i = (iabs (inactive s))(h \<mapsto> b)" "active_by_hash s1 = active_by_hash s"
      "MI {} R E dr (di + 1) (dh - 1) dm dp (s1\<lparr>inactive := i\<rparr>)" by blast
    let ?t = "s1\<lparr>inactive := i\<rparr>"
    have reg: "registered ?t h' \<longleftrightarrow> registered s h' \<or> h' = h" for h' using registered_upd [OF s1(4)] k by auto
    have same: "filter (\<lambda>(h, b). \<not> registered ?t h) blocks = filter (\<lambda>(h, b). \<not> registered s h) blocks"
      by (rule filter_cong [OF refl]) (use notin(2) in \<open>force simp: reg\<close>)
    have "held_blocks ?t blocks" using blocks_upd(2) [OF s1(4) notin(1)] Cons.prems(4) by (simp add: hb held_blocks_def)
    from Cons.IH [OF s1(7) _ _ this] Cons.prems(2,3) obtain restored discarded s' where s':
      "restore_support_blocks ops blocks ?t = Some (restored, discarded, s')" "restored + length discarded = length blocks"
      "only_slots (snd ` set blocks) ?t s'"
      "\<forall>b. st s' b = (if b \<in> snd ` set blocks then released_state ?t (st ?t b) else st ?t b)"
      "iabs (inactive s') = iabs i ++ map_of (filter (\<lambda>(h, b). \<not> registered s h) blocks)"
      "active_by_hash s' = active_by_hash s1"
      "MI {} R E (dr + int (length discarded)) (di + 1 + int restored) (dh - 1 - int (length blocks)) dm (unbook dp discarded) s'"
      unfolding same by auto
    have rel: "released_state ?t (st s b') = released_state s (st s b')" if "b' \<in> snd ` set blocks" for b'
    proof -
      from that obtain h' where h': "(h', b') \<in> set blocks" by force
      with Cons.prems(4) obtain k' where "st s b' = Held h' k'" by (auto simp: held_blocks_def)
      moreover have "h' \<noteq> h" using h' notin(2) by force
      ultimately show ?thesis by (simp add: released_state_def reg)
    qed
    have os: "only_slots (snd ` set (hb # blocks)) s s'" using only_slots_trans [OF s1(3) s'(3)] by (simp add: hb)
    have iab: "iabs (inactive s') = iabs (inactive s) ++ map_of (filter (\<lambda>(h, b). \<not> registered s h) (hb # blocks))"
    proof -
      have "map_of (filter (\<lambda>(h, b). \<not> registered s h) blocks) h = None"
        using notin(2) by (auto simp: map_of_eq_None_iff)
      then show ?thesis unfolding s'(5) s1(5) using False by (auto simp: hb map_add_def fun_eq_iff split: option.splits)
    qed
    have st1: "st s1 = (st s)(b := Inactive h k)" using s1(4) by simp
    have rb: "released_state s (st s b) = Inactive h k" by (simp add: k released_state_def False)
    have states: "st s' c = (if c \<in> snd ` set (hb # blocks) then released_state s (st s c) else st s c)" for c
      using s'(4) [rule_format, of c] rel [of c] notin(1) by (auto simp: hb st1 rb)
    have run: "restore_support_blocks ops (hb # blocks) s = Some (restored + 1, discarded, s')"
      using s1(1,2) s'(1) pre newer False by (simp add: hb assert_that_def)
    have MI': "MI {} R E (dr + int (length discarded)) (di + int (restored + 1)) (dh - int (length (hb # blocks))) dm
        (unbook dp discarded) s'" using s'(7) by (simp add: algebra_simps)
    show ?thesis
      by (intro exI [of _ "restored + 1"] exI [of _ discarded] exI [of _ s'] conjI allI)
         (fact run iab os states MI' | simp add: s'(2,6) s1(6) hb)+
  qed
qed simp

lemma registered_maps:
  assumes inv: "MI {} R E dr di dh dm dp s"
  shows "registered s h \<longleftrightarrow> active_by_hash s h \<noteq> None \<or> iabs (inactive s) h \<noteq> None"
proof -
  note ok = core_invD [OF mid_invD(1) [OF inv]]
  have act: "active_by_hash s h = Some b' \<longleftrightarrow> prim_hash (st s b') = Some h" for b' using ok(6) by (simp add: active_ok_def)
  have ina: "iabs (inactive s) h = Some b' \<longleftrightarrow> inact_hash (st s b') = Some h" for b' using ok(5) by (simp add: index_ok_def)
  show ?thesis unfolding registered_def not_None_eq act ina by blast
qed

lemma restore_step:
  assumes inv: "SI E dm s" and blocks: "distinct (map fst blocks)" "distinct (map snd blocks)" "held_blocks s blocks"
  shows "\<exists>s'. restore_lineage_hold ops blocks s = Some s' \<and> SI E dm s' \<and> frame s s'
    \<and> (\<forall>b. st s' b = (if b \<in> snd ` set blocks then released_state s (st s b) else st s b))
    \<and> iabs (inactive s') = iabs (inactive s) ++ map_of (filter (\<lambda>(h, b). \<not> registered s h) blocks)
    \<and> active_by_hash s' = active_by_hash s"
proof -
  from restore_support_step [OF inv [unfolded SI_iff_MI] blocks] obtain restored discarded s1 where
    s1: "restore_support_blocks ops blocks s = Some (restored, discarded, s1)" "only_slots (snd ` set blocks) s s1"
      "\<forall>b. st s1 b = (if b \<in> snd ` set blocks then released_state s (st s b) else st s b)"
      "iabs (inactive s1) = iabs (inactive s) ++ map_of (filter (\<lambda>(h, b). \<not> registered s h) blocks)"
      "active_by_hash s1 = active_by_hash s"
    and MI1: "MI {} {} E (int (length discarded)) (int restored) (- int (length blocks)) dm (unbook (\<lambda>_. 0) discarded) s1"
    by (elim exE conjE) (rule that, assumption+, simp)
  let ?m = "inc_reset_pool_size_by (int (length discarded)) (dec_held_residency_by (int (length blocks))
    (inc_inactive_pool_size_by (int restored) s1))"
  have "MI {} {} E 0 0 0 dm (unbook (\<lambda>_. 0) discarded) ?m" using MI1 by (simp add: mid_inv_book)
  from MI_unbook [OF this] have "SI E dm (fold mark_absent discarded ?m)" by (simp add: SI_iff_MI)
  moreover have "frame s (fold mark_absent discarded ?m)"
    using only_slots_frame [OF s1(2)] by (simp add: metrics_defs)
  moreover have "inactive ?m = inactive s1" "active_by_hash ?m = active_by_hash s1" by (simp_all add: metrics_defs)
  ultimately show ?thesis using s1(1,3-5) by (simp add: restore_lineage_hold_def Let_def)
qed

text \<open>A claimed hash is not registered.\<close>

lemma claimed_unregistered:
  assumes inv: "SI E dm s" "SI E dm s1" and ex: "extracts (iabs (inactive s)) blocks (iabs (inactive s1))"
    and act: "active_by_hash s1 = active_by_hash s" and h: "(h, b) \<in> set blocks"
  shows "\<not> registered s1 h"
proof -
  note MI0 = inv(1) [unfolded SI_iff_MI] and MI1 = inv(2) [unfolded SI_iff_MI]
  have "iabs (inactive s) h = Some b" "iabs (inactive s1) h = None" using extracts_entries [OF ex h] by simp_all
  then have "inact_hash (st s b) = Some h" using LI_lookup(2) [OF MI0] by simp
  then have "active_by_hash s h = None"
    using core_invD(6) [OF mid_invD(1) [OF MI0]] unfolding active_ok_def by (metis option.exhaust)
  with \<open>iabs (inactive s1) h = None\<close> show ?thesis by (simp add: registered_maps [OF MI1] act)
qed

text \<open>A claim that is dropped leaves every slot and the index as they were.\<close>

lemma hold_then_drop:
  assumes inv: "SI E dm s" and cur: "current_inactive_lineage ops s cand = Some blocks"
  shows "\<exists>s1 s2. try_hold_inactive_lineage ops cand s = Some (Some blocks, s1) \<and> SI E dm s1
    \<and> (\<forall>(h, b) \<in> set blocks. held_by_hash s1 h = Some b \<and> \<not> visible s1 h)
    \<and> drop_lineage_hold ops blocks s1 = Some s2 \<and> SI E dm s2
    \<and> st s2 = st s \<and> iabs (inactive s2) = iabs (inactive s) \<and> active_by_hash s2 = active_by_hash s"
proof -
  note lin = current_lineage [OF inv cur]
  from hold_step [OF inv cur, of None] obtain s1 where
    s1: "try_hold_inactive_lineage ops cand s = Some (Some blocks, s1)" "SI E dm s1"
      "\<forall>b. st s1 b = (if b \<in> snd ` set blocks then held_state (st s b) else st s b)" "held_blocks s1 blocks"
      "extracts (iabs (inactive s)) blocks (iabs (inactive s1))" "active_by_hash s1 = active_by_hash s"
    by (auto simp: try_hold_inactive_lineage_def)
  note MI0 = inv [unfolded SI_iff_MI] and MI1 = s1(2) [unfolded SI_iff_MI]
  note unreg = claimed_unregistered [OF inv s1(2,5,6)]
  have all: "filter (\<lambda>(h, b). \<not> registered s1 h) blocks = blocks" using unreg by (auto intro: filter_True)
  from restore_step [OF s1(2) lin(3,4) s1(4)] obtain s2 where
    s2: "restore_lineage_hold ops blocks s1 = Some s2" "SI E dm s2"
      "\<forall>b. st s2 b = (if b \<in> snd ` set blocks then released_state s1 (st s1 b) else st s1 b)"
      "iabs (inactive s2) = iabs (inactive s1) ++ map_of blocks" "active_by_hash s2 = active_by_hash s1"
    unfolding all by blast
  have "st s2 b = st s b" for b
  proof (cases "b \<in> snd ` set blocks")
    case True
    then obtain h where h: "(h, b) \<in> set blocks" by force
    with lin(5) obtain k where "st s b = Inactive h k" by (auto simp: inactive_blocks_def)
    with True unreg [OF h] s1(3) s2(3) show ?thesis by (simp add: released_state_def)
  next
    case False
    with s1(3) s2(3) show ?thesis by simp
  qed
  moreover have "iabs (inactive s2) h = iabs (inactive s) h" for h
  proof (cases "h \<in> fst ` set blocks")
    case True
    then obtain b where b: "(h, b) \<in> set blocks" by force
    then have "map_of blocks h = Some b" using lin(3) by simp
    with extracts_entries [OF s1(5) b] show ?thesis by (simp add: s2(4) map_add_def)
  next
    case False
    then have "map_of blocks h = None" by (simp add: map_of_eq_None_iff)
    with False extracts_lookup [OF s1(5), of h] show ?thesis by (simp add: s2(4) map_add_def)
  qed
  moreover have "held_by_hash s1 h = Some b \<and> \<not> visible s1 h" if "(h, b) \<in> set blocks" for h b
    using s1(4) that LI_lookup(3) [OF MI1, of h b] by (auto simp: held_blocks_def visible_def)
  moreover have "drop_lineage_hold ops blocks s1 = Some s2" using s2(1) lin(1) by (simp add: drop_lineage_hold_def)
  ultimately show ?thesis using s1(1,2,6) s2(2,5) by (intro exI [of _ s1] exI [of _ s2]) auto
qed

lemma commit_step:
  assumes inv: "SI E dm s" and blocks: "distinct (map fst blocks)" "distinct (map snd blocks)" "held_blocks s blocks"
    "blocks \<noteq> []" "last blocks = (h, b)"
  shows "\<exists>s'. commit_victim_release ops blocks s = Some (if registered s h then None else Some h, s') \<and> SI E dm s'
    \<and> frame s s' \<and> (\<forall>c. st s' c = (if c = b then Reset
         else if c \<in> snd ` set blocks then released_state s (st s c) else st s c))"
proof -
  let ?sup = "butlast blocks"
  have bl: "blocks = ?sup @ [(h, b)]" using append_butlast_last_id [OF blocks(4)] blocks(5) by simp
  have d: "distinct (map fst ?sup)" "distinct (map snd ?sup)" "h \<notin> fst ` set ?sup" "b \<notin> snd ` set ?sup"
    using blocks(1,2) by (subst (asm) (1 2) bl; simp)+
  have set: "set blocks = insert (h, b) (set ?sup)" by (subst bl) auto
  have hs: "held_blocks s ?sup" using blocks(3) unfolding held_blocks_def set by blast
  obtain k where k: "st s b = Held h k" using blocks(3) unfolding held_blocks_def set by auto
  from restore_support_step [OF inv [unfolded SI_iff_MI] d(1,2) hs] obtain restored discarded s1 where
    s1: "restore_support_blocks ops ?sup s = Some (restored, discarded, s1)" "only_slots (snd ` set ?sup) s s1"
      "\<forall>c. st s1 c = (if c \<in> snd ` set ?sup then released_state s (st s c) else st s c)"
      "iabs (inactive s1) = iabs (inactive s) ++ map_of (filter (\<lambda>(h, b). \<not> registered s h) ?sup)"
      "active_by_hash s1 = active_by_hash s"
    and MI1: "MI {} {} E (int (length discarded)) (int restored) (- int (length ?sup)) dm (unbook (\<lambda>_. 0) discarded) s1"
    by (elim exE conjE) (rule that, assumption+, simp)
  have k1: "st s1 b = Held h k" using s1(3) d(4) k by simp
  have "map_of (filter (\<lambda>(h, b). \<not> registered s h) ?sup) h = None" using d(3) by (auto simp: map_of_eq_None_iff)
  then have reg: "registered s1 h = registered s h"
    by (simp add: registered_maps [OF MI1] registered_maps [OF inv [unfolded SI_iff_MI]] s1(4,5) map_add_def)
  have newer: "has_newer_registered_copy ops s1 h b = registered s h"
    using newer_copy [OF MI1 k1, of s1 "held_by_hash s1"] reg by simp
  have held: "held_by_hash s1 h = Some b" using core_invD(7) [OF mid_invD(1) [OF MI1]] k1 by (simp add: held_ok_def)
  from release_discard [OF MI1 k1] obtain s2 s3 where s3:
    "set_state b Reset (s1\<lparr>held_by_hash := (held_by_hash s1)(h := None)\<rparr>) = Some s2"
    "set_reset_flag b (default_reset_on_release s2) s2 = Some s3" "only_slots {b} s1 (push_reset_id_locked b s3)"
    "st (push_reset_id_locked b s3) = (st s1)(b := Reset)"
    "MI {} {} E (int (length discarded) + 1) (int restored) (- int (length ?sup) - 1) dm
      (unbook (unbook (\<lambda>_. 0) discarded) [k]) (push_reset_id_locked b s3)" by blast
  let ?m = "inc_evictions 1 (inc_reset_pool_size_by (int (length discarded + 1)) (dec_held_residency_by (int (length ?sup + 1))
    (inc_inactive_pool_size_by (int restored) (push_reset_id_locked b s3))))"
  have "MI {} {} E 0 0 0 dm (unbook (\<lambda>_. 0) (discarded @ [k])) ?m"
  proof -
    have "int (length discarded) + 1 = 1 + int (length discarded)" "- int (length ?sup) - 1 = - 1 - int (length ?sup)" by simp_all
    from s3(5) [unfolded this] show ?thesis by (simp add: mid_inv_book)
  qed
  from MI_unbook [OF this] have SI: "SI E dm (mark_absent k (fold mark_absent discarded ?m))" by (simp add: SI_iff_MI)
  have fr: "frame s (mark_absent k (fold mark_absent discarded ?m))"
    using frame_trans [OF only_slots_frame [OF s1(2)] only_slots_frame [OF s3(3)]]
    using fold_mark_absent_fields(10) [of s "discarded @ [k]" ?m] by (simp add: metrics_defs)
  have states: "st (mark_absent k (fold mark_absent discarded ?m)) = (st s1)(b := Reset)"
    using fold_mark_absent_fields(2) [of "discarded @ [k]" ?m] s3(4) by (simp add: metrics_defs)
  have run: "commit_victim_release ops blocks s
      = Some (if registered s h then None else Some h, mark_absent k (fold mark_absent discarded ?m))"
    using s1(1) s3(1,2) held newer take_exact_handles(2) [OF k1] blocks(4,5)
    by (simp add: commit_victim_release_def commit_lineage_hold_def assert_that_def Let_def del: length_butlast)
  have "st (mark_absent k (fold mark_absent discarded ?m)) c = (if c = b then Reset
      else if c \<in> snd ` set blocks then released_state s (st s c) else st s c)" for c
    unfolding states set using s1(3) [rule_format, of c] by simp
  with run SI fr show ?thesis by blast
qed

lemma hold_then_commit:
  assumes inv: "SI E dm s" and cur: "current_inactive_lineage ops s cand = Some blocks"
  shows "\<exists>s1 s2. try_hold_prepared_inactive_lineage ops cand blocks s = Some (Some blocks, s1)
    \<and> commit_victim_release ops blocks s1 = Some (Some (cand_seq_hash cand), s2) \<and> SI E dm s2
    \<and> st s2 = (st s)(cand_block_id cand := Reset)"
proof -
  note lin = current_lineage [OF inv cur]
  from hold_step [OF inv cur, of "Some blocks"] obtain s1 where
    s1: "try_hold_prepared_inactive_lineage ops cand blocks s = Some (Some blocks, s1)" "SI E dm s1"
      "\<forall>b. st s1 b = (if b \<in> snd ` set blocks then held_state (st s b) else st s b)" "held_blocks s1 blocks"
      "extracts (iabs (inactive s)) blocks (iabs (inactive s1))" "active_by_hash s1 = active_by_hash s"
    by (auto simp: try_hold_prepared_inactive_lineage_def)
  note unreg = claimed_unregistered [OF inv s1(2,5,6)]
  have leaf: "(cand_seq_hash cand, cand_block_id cand) \<in> set blocks" using last_in_set [OF lin(1)] lin(2) by simp
  from commit_step [OF s1(2) lin(3,4) s1(4) lin(1,2)] unreg [OF leaf] obtain s2 where
    s2: "commit_victim_release ops blocks s1 = Some (Some (cand_seq_hash cand), s2)" "SI E dm s2"
      "\<forall>c. st s2 c = (if c = cand_block_id cand then Reset
         else if c \<in> snd ` set blocks then released_state s1 (st s1 c) else st s1 c)" by auto
  have "st s2 c = ((st s)(cand_block_id cand := Reset)) c" for c
  proof (cases "c \<in> snd ` set blocks")
    case True
    then obtain h where h: "(h, c) \<in> set blocks" by force
    with lin(5) obtain k where "st s c = Inactive h k" by (auto simp: inactive_blocks_def)
    with True unreg [OF h] s1(3) s2(3) show ?thesis by (simp add: released_state_def)
  next
    case False
    with s1(3) s2(3) show ?thesis by simp
  qed
  with s1(1) s2(1,2) show ?thesis by blast
qed

end

end
