(* ===== verification/Rebind.thy ===== *)
theory Rebind
  imports Block_Store_Moves
begin

text \<open>
  Moving a registered block to another physical slot (\<open>pools/store/rebind.rs\<close>): a plan reserves a
  reset slot as its destination, the data is copied, and the commit moves the registration, keeps the
  plan for a retry, or gives the destination back.
\<close>

datatype rebind_prepare_error =
    OutOfRange block_id
  | NotInactive block_id
  | NotLive block_id
  | NoDestination

record 'h rebind_plan =
  rb_seq_hash :: 'h
  rb_src :: block_id
  rb_dst :: block_id
  rb_src_generation :: u64
  rb_handle :: "'h registration_handle"
  rb_source_inner :: "nat option"
  rb_armed :: bool

datatype 'h rebind_outcome =
    Moved 'h block_id block_id
  | Busy "'h rebind_plan"
  | Stale
  | RebindFenced

definition release_reserved_destination ::
  "block_id \<Rightarrow> ('h, 'i) block_store \<Rightarrow> ('h, 'i) block_store option" where
  "release_reserved_destination dst s = do {
     s \<leftarrow> set_reset_flag dst (default_reset_on_release s) s;
     s \<leftarrow> set_state dst Reset s;
     Some (inc_reset_pool_size_by 1 (push_reset_id_locked dst s))
   }"

text \<open>The reservation shared by the two prepare operations.\<close>

definition reserve_destination ::
  "'h \<Rightarrow> 'h registration_handle \<Rightarrow> block_id \<Rightarrow> nat option \<Rightarrow> ('h, 'i) block_store
    \<Rightarrow> ((rebind_prepare_error + 'h rebind_plan) \<times> ('h, 'i) block_store) option" where
  "reserve_destination h handle src source_inner s =
     (case pop_first_free s of
        None \<Rightarrow> Some (Inl NoDestination, s)
      | Some (dst, s) \<Rightarrow> do {
          slot \<leftarrow> index_slot s src;
          (_, s) \<leftarrow> allocate_mutable_slot dst s;
          Some (Inr \<lparr>rb_seq_hash = h, rb_src = src, rb_dst = dst, rb_src_generation = generation slot,
                     rb_handle = handle, rb_source_inner = source_inner, rb_armed = True\<rparr>,
                dec_reset_pool_size_by 1 s)
        })"

definition prepare_rebind ::
  "block_id \<Rightarrow> ('h, 'i) block_store \<Rightarrow> ((rebind_prepare_error + 'h rebind_plan) \<times> ('h, 'i) block_store) option" where
  "prepare_rebind src s =
     (if capacity s \<le> src then Some (Inl (OutOfRange src), s)
      else do {
        slot \<leftarrow> index_slot s src;
        case slot_state slot of
          Inactive h handle \<Rightarrow> reserve_destination h handle src None s
        | _ \<Rightarrow> Some (Inl (NotInactive src), s)
      })"

text \<open>The guard is the pointer of an \<open>ImmutableBlock\<close>.\<close>

definition prepare_live_rebind ::
  "nat \<Rightarrow> ('h, 'i) block_store \<Rightarrow> ((rebind_prepare_error + 'h rebind_plan) \<times> ('h, 'i) block_store) option" where
  "prepare_live_rebind p s = do {
     n \<leftarrow> inners s p;
     let src = in_block_id n;
     if capacity s \<le> src then Some (Inl (NotLive src), s)
     else do {
       slot \<leftarrow> index_slot s src;
       case slot_state slot of
         Primary h handle weak \<Rightarrow>
           (if weak = p then reserve_destination h handle src (Some p) s else Some (Inl (NotLive src), s))
       | Duplicate h handle weak \<Rightarrow>
           (if weak = p then reserve_destination h handle src (Some p) s else Some (Inl (NotLive src), s))
       | _ \<Rightarrow> Some (Inl (NotLive src), s)
     }
   }"

fun upgrade_slots ::
  "'h block_slot list \<Rightarrow> ('h, 'i) block_store \<Rightarrow> nat list \<times> ('h, 'i) block_store" where
  "upgrade_slots [] s = ([], s)"
| "upgrade_slots (slot # rest) s =
     (case slot_weak (slot_state slot) of
        None \<Rightarrow> upgrade_slots rest s
      | Some p \<Rightarrow>
        (case weak_upgrade p s of
           (None, s) \<Rightarrow> upgrade_slots rest s
         | (Some q, s) \<Rightarrow>
             (let (ps, s) = upgrade_slots rest (immutable_from_inner q s) in (q # ps, s))))"

definition live_blocks_from ::
  "block_id \<Rightarrow> ('h, 'i) block_store \<Rightarrow> (nat list \<times> ('h, 'i) block_store) option" where
  "live_blocks_from first s =
     (if capacity s \<le> first then Some ([], s)
      else do {
        sl \<leftarrow> slots_to_capacity s;
        Some (upgrade_slots (drop first sl) s)
      })"

text \<open>\<open>Arc::ptr_eq\<close> of handles is equality of their ids.\<close>

definition inactive_identity :: "'h rebind_plan \<Rightarrow> 'h block_slot \<Rightarrow> bool" where
  "inactive_identity plan slot =
     (case slot_state slot of
        Inactive h handle \<Rightarrow> h = rb_seq_hash plan \<and> generation slot = rb_src_generation plan
          \<and> handle_id handle = handle_id (rb_handle plan)
      | _ \<Rightarrow> False)"

definition same_active_tenure :: "'h rebind_plan \<Rightarrow> 'h block_slot \<Rightarrow> bool" where
  "same_active_tenure plan slot =
     (case slot_state slot of
        Primary h _ _ \<Rightarrow> h = rb_seq_hash plan \<and> generation slot = rb_src_generation plan
      | Duplicate h _ _ \<Rightarrow> h = rb_seq_hash plan \<and> generation slot = rb_src_generation plan
      | Held h _ \<Rightarrow> h = rb_seq_hash plan \<and> generation slot = rb_src_generation plan
      | _ \<Rightarrow> False)"

text \<open>The move of an inactive registration, common to both commits.\<close>

definition move_inactive ::
  "('h, 'i) index_ops \<Rightarrow> 'h rebind_plan \<Rightarrow> ('h, 'i) block_store
    \<Rightarrow> ('h rebind_outcome \<times> ('h, 'i) block_store) option" where
  "move_inactive ops plan s =
     (let src = rb_src plan; dst = rb_dst plan; h = rb_seq_hash plan in do {
        (rebound, i) \<leftarrow> ix_rebind ops h src dst (inactive s);
        let s = s\<lparr>inactive := i\<rparr>;
        if \<not> rebound then do {
          s \<leftarrow> release_reserved_destination dst s;
          Some (Stale, s)
        } else do {
          reset_on_release \<leftarrow> index_reset_flag s src;
          s \<leftarrow> set_inactive_tenure_state_locked dst h (rb_handle plan) s;
          s \<leftarrow> set_reset_flag dst reset_on_release s;
          s \<leftarrow> set_reset_flag src (default_reset_on_release s) s;
          s \<leftarrow> reset_slot_locked src s;
          Some (Moved h src dst, s)
        }
      })"

definition commit_rebind ::
  "('h, 'i) index_ops \<Rightarrow> 'h rebind_plan \<Rightarrow> ('h, 'i) block_store
    \<Rightarrow> ('h rebind_outcome \<times> ('h, 'i) block_store) option" where
  "commit_rebind ops plan s = do {
     dst_slot \<leftarrow> index_slot s (rb_dst plan);
     assert_that (slot_state dst_slot = Mutable);
     if effective_ceiling s \<le> rb_dst plan then do {
       s \<leftarrow> release_reserved_destination (rb_dst plan) s;
       Some (RebindFenced, s)
     } else do {
       src_slot \<leftarrow> index_slot s (rb_src plan);
       if inactive_identity plan src_slot then move_inactive ops plan s
       else if same_active_tenure plan src_slot then Some (Busy plan, s)
       else do {
         s \<leftarrow> release_reserved_destination (rb_dst plan) s;
         Some (Stale, s)
       }
     }
   }"

text \<open>The live source of the plan: its pointer, and whether it is the primary.\<close>

definition active_source :: "'h rebind_plan \<Rightarrow> 'h block_slot \<Rightarrow> (bool \<times> nat \<times> 'h registration_handle) option" where
  "active_source plan slot =
     (let same = (\<lambda>h handle weak. h = rb_seq_hash plan \<and> generation slot = rb_src_generation plan
            \<and> handle_id handle = handle_id (rb_handle plan)
            \<and> (rb_source_inner plan = None \<or> rb_source_inner plan = Some weak)) in
      case slot_state slot of
        Primary h handle weak \<Rightarrow> (if same h handle weak then Some (True, weak, handle) else None)
      | Duplicate h handle weak \<Rightarrow> (if same h handle weak then Some (False, weak, handle) else None)
      | _ \<Rightarrow> None)"

definition set_block_id :: "nat \<Rightarrow> block_id \<Rightarrow> ('h, 'i) block_store \<Rightarrow> ('h, 'i) block_store" where
  "set_block_id p b = inners_update (\<lambda>m. m(p := map_option (in_block_id_update (\<lambda>_. b)) (m p)))"

text \<open>
  \<open>commit_live\<close>. The reference the upgrade takes is dropped at the end of the call, after the unlock:
  it is one more \<open>drop_arc\<close>.
\<close>

definition commit_live ::
  "('h, 'i) index_ops \<Rightarrow> 'h rebind_plan \<Rightarrow> ('h, 'i) block_store
    \<Rightarrow> ('h rebind_outcome \<times> ('h, 'i) block_store) option" where
  "commit_live ops plan s =
     (let src = rb_src plan; dst = rb_dst plan; h = rb_seq_hash plan in do {
        dst_slot \<leftarrow> index_slot s dst;
        assert_that (slot_state dst_slot = Mutable);
        if effective_ceiling s \<le> dst then do {
          s \<leftarrow> release_reserved_destination dst s;
          Some (RebindFenced, s)
        } else do {
          src_slot \<leftarrow> index_slot s src;
          if inactive_identity plan src_slot then move_inactive ops plan s
          else case active_source plan src_slot of
            None \<Rightarrow> do {
              s \<leftarrow> release_reserved_destination dst s;
              Some (Stale, s)
            }
          | Some (is_primary, weak, handle) \<Rightarrow>
            (case weak_upgrade weak s of
               (None, s) \<Rightarrow> Some (Busy plan, s)
             | (Some live_inner, s) \<Rightarrow> do {
                 s \<leftarrow> set_state dst (if is_primary then Primary h handle weak else Duplicate h handle weak) s;
                 reset_on_release \<leftarrow> index_reset_flag s src;
                 s \<leftarrow> set_reset_flag dst reset_on_release s;
                 s \<leftarrow> set_reset_flag src (default_reset_on_release s) s;
                 let s = (if is_primary then active_by_hash_update (\<lambda>m. m(h \<mapsto> dst)) s else s);
                 s \<leftarrow> reset_slot_locked src s;
                 s \<leftarrow> drop_arc ops live_inner (set_block_id live_inner dst s);
                 Some (Moved h src dst, s)
               })
        }
      })"

definition drop_rebind_plan ::
  "'h rebind_plan \<Rightarrow> ('h, 'i) block_store \<Rightarrow> ('h, 'i) block_store option" where
  "drop_rebind_plan plan s =
     (if rb_armed plan then do {
        dst_slot \<leftarrow> index_slot s (rb_dst plan);
        assert_that (slot_state dst_slot = Mutable);
        release_reserved_destination (rb_dst plan) s
      } else Some s)"

section \<open>Reserving and giving back\<close>

context inactive_index
begin

text \<open>A reservation is not counted as an in-flight mutable block: the gauge offset grows by one.\<close>

lemma reserve_step:
  assumes inv: "SI E dm s" and ne: "free s \<noteq> {}" and gens: "\<forall>b < length (slots s). gen_ok s b"
    and src: "src < length (slots s)"
  shows "\<exists>s'. reserve_destination h handle src p s = Some (Inr \<lparr>rb_seq_hash = h, rb_src = src, rb_dst = Min (free s),
      rb_src_generation = generation (slots s ! src), rb_handle = handle, rb_source_inner = p, rb_armed = True\<rparr>, s')
    \<and> SI E (dm + 1) s' \<and> frame s s' \<and> st s' = (st s)(Min (free s) := Mutable) \<and> Min (free s) \<in> free s
    \<and> inactive s' = inactive s \<and> active_by_hash s' = active_by_hash s \<and> held_by_hash s' = held_by_hash s"
proof -
  let ?d = "Min (free s)"
  from pop_first_free_step [OF inv [unfolded SI_iff_MI] ne] have
    pop: "pop_first_free s = Some (?d, s\<lparr>free := free s - {?d}\<rparr>)" "?d \<in> free s"
    and MI0: "MI {} {?d} E 0 0 0 dm (\<lambda>_. 0) (s\<lparr>free := free s - {?d}\<rparr>)" by auto
  let ?s = "s\<lparr>free := free s - {?d}\<rparr>"
  have "?d < length (slots s)"
    using core_bounds(2) [OF mid_invD(1) [OF MI0], of ?d] by simp
  then have "gen_ok ?s ?d" using gens by (simp add: gen_ok_def)
  from allocate_reset_step [OF MI0 _ this] obtain s1 where
    s1: "allocate_mutable_slot ?d ?s = Some (slot_block_size (slots ?s ! ?d), s1)" "only_slots {?d} ?s s1"
      "st s1 = (st ?s)(?d := Mutable)" "slots_only ?s s1" and MI1: "MI {} {} E (- 1) 0 0 (dm + 1) (\<lambda>_. 0) s1" by auto
  have "SI E (dm + 1) (dec_reset_pool_size_by 1 s1)" using MI1 by (simp add: SI_iff_MI mid_inv_book)
  moreover have "frame s (dec_reset_pool_size_by 1 s1)" using s1(2) by (simp add: only_slots_def frame_def metrics_defs)
  moreover have "st ?s = st s" by (rule st_cong) simp
  moreover have "index_slot ?s src = Some (slots s ! src)" using src by (simp add: index_slot_def)
  ultimately show ?thesis
    using pop s1(1,3) slots_onlyD [OF s1(4)] by (simp add: reserve_destination_def) (simp add: metrics_defs)
qed

lemma release_reserved_eq:
  "release_reserved_destination dst s = do { s \<leftarrow> set_reset_flag dst (default_reset_on_release s) s; reset_slot_locked dst s }"
  by (simp add: release_reserved_destination_def reset_slot_locked_def)

lemma release_reserved_step:
  assumes inv: "SI E dm s" and d: "st s dst = Mutable"
  shows "\<exists>s'. release_reserved_destination dst s = Some s' \<and> SI E (dm - 1) s' \<and> frame s s' \<and> st s' = (st s)(dst := Reset)
    \<and> inactive s' = inactive s \<and> active_by_hash s' = active_by_hash s \<and> held_by_hash s' = held_by_hash s"
proof -
  note MI = inv [unfolded SI_iff_MI]
  note ok = core_invD [OF mid_invD(1) [OF MI]]
  have "dst < length (reset_on_release s)" using ok(1-3) d by (metis less_le_trans slot_state.distinct(1))
  from set_reset_flag_fields [OF this, of "default_reset_on_release s"] obtain s1 where
    s1: "set_reset_flag dst (default_reset_on_release s) s = Some s1" "only_slots {} s s1" "st s1 = st s" "slots_only s s1" by blast
  from reset_slot_step [OF MI_flags [OF MI s1(4,2,3)], of dst] d obtain s2 where
    s2: "reset_slot_locked dst s1 = Some s2" "only_slots {dst} s1 s2" "st s2 = (st s)(dst := Reset)"
      "inactive s2 = inactive s1" "active_by_hash s2 = active_by_hash s1" "held_by_hash s2 = held_by_hash s1"
    and MI2: "MI {} {} E 0 0 0 (dm - 1) (\<lambda>_. 0) s2" by (auto simp: s1(3))
  have "frame s s2" using frame_trans [OF only_slots_frame [OF s1(2)] only_slots_frame [OF s2(2)]] .
  with s1(1) s2 MI2 slots_onlyD [OF s1(4)] show ?thesis by (simp add: release_reserved_eq SI_iff_MI)
qed

text \<open>A plan that is prepared and dropped gives its destination back.\<close>

lemma prepare_then_drop:
  assumes inv: "SI E dm s" and gens: "\<forall>b < length (slots s). gen_ok s b"
    and src: "st s src = Inactive h k" and ne: "free s \<noteq> {}"
  shows "\<exists>plan s1 s2. prepare_rebind src s = Some (Inr plan, s1) \<and> SI E (dm + 1) s1
    \<and> rb_dst plan \<in> free s \<and> st s1 = (st s)(rb_dst plan := Mutable) \<and> rb_seq_hash plan = h \<and> rb_src plan = src
    \<and> drop_rebind_plan plan s1 = Some s2 \<and> SI E dm s2 \<and> st s2 = st s \<and> inactive s2 = inactive s"
proof -
  note MI = inv [unfolded SI_iff_MI]
  note ok = core_invD [OF mid_invD(1) [OF MI]]
  have cap: "src < capacity s" "src < length (slots s)" using ok(1) ok(3) [of src] src by auto
  from reserve_step [OF inv ne gens cap(2), of h k None] obtain plan s1 where
    s1: "reserve_destination h k src None s = Some (Inr plan, s1)" "SI E (dm + 1) s1" "st s1 = (st s)(rb_dst plan := Mutable)"
      "rb_dst plan \<in> free s" "inactive s1 = inactive s" "rb_seq_hash plan = h" "rb_src plan = src" "rb_armed plan"
    by auto
  have d: "st s1 (rb_dst plan) = Mutable" by (simp add: s1(3))
  from release_reserved_step [OF s1(2) d] obtain s2 where
    s2: "release_reserved_destination (rb_dst plan) s1 = Some s2" "SI E dm s2" "st s2 = (st s1)(rb_dst plan := Reset)"
      "inactive s2 = inactive s1" by auto
  have reset: "st s (rb_dst plan) = Reset" using core_bounds(4) [OF mid_invD(1) [OF MI] s1(4)] by simp
  have "index_slot s1 (rb_dst plan) = Some (slots s1 ! rb_dst plan)" "slot_state (slots s1 ! rb_dst plan) = Mutable"
    using d by (auto simp: index_slot_def st_def split: if_splits)
  then have "drop_rebind_plan plan s1 = Some s2" using s1(8) s2(1) by (simp add: drop_rebind_plan_def assert_that_def)
  moreover have "prepare_rebind src s = Some (Inr plan, s1)"
    using cap src s1(1) by (simp add: prepare_rebind_def index_slot_def st_def)
  moreover have "st s2 = st s" by (rule ext) (simp add: s2(3) s1(3) reset)
  ultimately show ?thesis using s1(2-7) s2(2,4) by auto
qed

text \<open>A commit of a plan whose destination is now above the ceiling gives the destination back.\<close>

lemma commit_fenced:
  assumes inv: "SI E dm s" and d: "st s (rb_dst plan) = Mutable" "effective_ceiling s \<le> rb_dst plan"
  shows "\<exists>s'. commit_rebind ops plan s = Some (RebindFenced, s') \<and> commit_live ops plan s = Some (RebindFenced, s')
    \<and> SI E (dm - 1) s' \<and> st s' = (st s)(rb_dst plan := Reset) \<and> inactive s' = inactive s"
proof -
  have "index_slot s (rb_dst plan) = Some (slots s ! rb_dst plan)" "slot_state (slots s ! rb_dst plan) = Mutable"
    using d by (auto simp: index_slot_def st_def split: if_splits)
  with release_reserved_step [OF inv d(1)] d(2) show ?thesis
    by (auto simp: commit_rebind_def commit_live_def assert_that_def Let_def)
qed

section \<open>Moving an inactive registration\<close>

lemma index_ok_rebind:
  assumes ok: "index_ok \<sigma> {} m" and src: "inact_hash (\<sigma> src) = Some h" and dst: "inact_hash (\<sigma> dst) = None"
  shows "index_ok (\<sigma>(dst := Inactive h k, src := Reset)) {} (m(h \<mapsto> dst))"
proof -
  have m: "m h' = Some b \<longleftrightarrow> inact_hash (\<sigma> b) = Some h'" for h' b using ok by (simp add: index_ok_def)
  have uniq: "inact_hash (\<sigma> b) = Some h' \<Longrightarrow> inact_hash (\<sigma> b') = Some h' \<Longrightarrow> b = b'" for h' b b'
    using m by (metis option.inject)
  have ne: "src \<noteq> dst" using src dst by auto
  show ?thesis unfolding index_ok_def
    using m uniq src dst ne by (auto split: if_splits)
qed

lemma move_state:
  assumes inv: "SI E dm s" and d: "st s dst = Mutable" and src: "st s src = Inactive h k" and id: "handle_id k' = handle_id k"
    and e: "epoch_ok s dst"
  shows "\<exists>s'. move_inactive ops \<lparr>rb_seq_hash = h, rb_src = src, rb_dst = dst, rb_src_generation = g, rb_handle = k',
      rb_source_inner = p, rb_armed = a\<rparr> s = Some (Moved h src dst, s')
    \<and> SI E (dm - 1) s' \<and> st s' = (st s)(dst := Inactive h k', src := Reset)
    \<and> iabs (inactive s') = (iabs (inactive s))(h \<mapsto> dst) \<and> reset_on_release s' ! dst = reset_on_release s ! src"
proof -
  note MI = inv [unfolded SI_iff_MI]
  note ok = core_invD [OF mid_invD(1) [OF MI]]
  have ne: "src \<noteq> dst" using src d by auto
  have cap: "src < capacity s" "dst < capacity s" using ok(3) [of src] ok(3) [of dst] src d by auto
  have len: "src < length (slots s)" "dst < length (slots s)" using cap ok(1) by auto
  have "iabs (inactive s) h = Some src" using LI_lookup(2) [OF MI] src by simp
  moreover have "dst \<notin> ran (iabs (inactive s))" using LI_lookup(2) [OF MI] d by (auto simp: ran_def)
  ultimately obtain i where i: "ix_rebind ops h src dst (inactive s) = Some (True, i)" "iinv i"
    "iabs i = (iabs (inactive s))(h \<mapsto> dst)" "\<forall>n. room n (inactive s) \<longrightarrow> room n i"
    using rebind [OF mid_invD(2) [OF MI], of dst h src] by auto
  define s1 where "s1 = slots_update (\<lambda>sl. sl[dst := (sl ! dst)\<lparr>inactive_epoch := inactive_epoch (sl ! dst) + 1,
      slot_state := Inactive h k'\<rparr>]) (s\<lparr>inactive := i\<rparr>)"
  define s2 where "s2 = reset_on_release_update (\<lambda>fs. fs[dst := reset_on_release s ! src, src := default_reset_on_release s]) s1"
  define s3 where "s3 = slots_update (\<lambda>sl. sl[src := (sl ! src)\<lparr>slot_state := Reset\<rparr>]) s2"
  define s' where "s' = inc_reset_pool_size_by 1 (push_reset_id_locked src s3)"
  note defs = s1_def s2_def s3_def
  have st1: "st s1 = (st s)(dst := Inactive h k')" using len by (auto simp: fun_eq_iff st_def s1_def)
  have st3: "st s3 = (st s)(dst := Inactive h k', src := Reset)" using len by (auto simp: fun_eq_iff st_def defs)
  have ceil: "effective_ceiling s3 = effective_ceiling s" by (simp add: defs effective_ceiling_def split: option.split)
  have pools: "pools_ok (st s3) (effective_ceiling s) (capacity s) {src} (free s) (fenced s)"
    unfolding st3 using pools_ok_upd(6) [OF pools_ok_upd(1) [OF ok(4)], of dst "Inactive h k'" src] cap src d ne by simp
  have act: "active_by_hash s h = None"
  proof -
    have "inact_hash (st s src) = Some h" by (simp add: src)
    then show ?thesis using ok(6) unfolding active_ok_def by (metis option.exhaust)
  qed
  have arc1: "arc_inv E s1"
    by (rule arc_inv_slot [OF mid_invD(4) [OF MI] _ _ st1]) (simp_all add: d s1_def)
  have st31: "st s3 = (st s1)(src := Reset)" by (simp add: st1 st3)
  have same: "inners s3 = inners s1" "next_ptr s3 = next_ptr s1" "length (slots s1) \<le> length (slots s3)"
    "capacity s3 = capacity s1" "metrics s3 = metrics s1" "presence s3 = presence s1" "capacity s1 = capacity s"
    by (simp_all add: defs)
  have arc3: "arc_inv E s3"
    by (rule arc_inv_slot [OF arc1 _ _ st31 same(1-3)]) (use ne in \<open>simp_all add: st1 src\<close>)
  have same1: "capacity s1 = capacity s" "metrics s1 = metrics s" "presence s1 = presence s" by (simp_all add: s1_def)
  have acct1: "acct 0 1 0 (dm - 1) (\<lambda>j. of_bool (handle_id k' = j)) s1"
    using acct_slot [OF mid_invD(5) [OF MI] cap(2) st1 same1] d by simp
  have acct3: "acct 1 0 0 (dm - 1) (\<lambda>_. 0) s3"
    using acct_slot [OF acct1 _ st31 same(4-6)] cap(1) src ne id by (simp add: st1 same(7))
  have "core_inv iabs {} {src} s3"
  proof (rule core_invI)
    show "capacity s3 \<le> length (slots s3)" "length (reset_on_release s3) = length (slots s3)"
      using ok(1,2) by (simp_all add: defs)
    show "b < capacity s3" if "st s3 b \<noteq> Reset" for b
      using that ok(3) [of b] cap unfolding st3 by (auto simp: defs split: if_splits)
    show "pools_ok (st s3) (effective_ceiling s3) (capacity s3) {src} (free s3) (fenced s3)"
      unfolding ceil using pools by (simp add: defs)
    have "inactive s3 = i" by (simp add: defs)
    then show "index_ok (st s3) {} (iabs (inactive s3))"
      unfolding st3 using index_ok_rebind [OF ok(5), of src h dst k'] i(3) src d by simp
    have "active_ok ((st s)(dst := Inactive h k')) (active_by_hash s)"
      by (rule active_ok_keep [OF ok(6)]) (use d act in \<open>simp_all\<close>)
    from active_ok_keep [OF this, of src Reset] show "active_ok (st s3) (active_by_hash s3)"
      unfolding st3 using src ne by (simp add: defs)
    have "held_ok ((st s)(dst := Inactive h k')) (held_by_hash s)"
      by (rule held_ok_keep [OF ok(7)]) (use d in \<open>simp_all\<close>)
    from held_ok_keep [OF this, of src Reset] show "held_ok (st s3) (held_by_hash s3)"
      unfolding st3 using src ne by (simp add: defs)
  qed
  moreover have "iinv (inactive s3)" "room (length (slots s3)) (inactive s3)"
    using i(2,4) mid_invD(3) [OF MI] by (simp_all add: defs)
  ultimately have "MI {} {src} E 1 0 0 (dm - 1) (\<lambda>_. 0) s3" by (rule mid_invI [OF _ _ _ arc3 acct3])
  from push_reset_step(1) [OF this, of src] have SI: "SI E (dm - 1) s'" by (simp add: s'_def SI_iff_MI mid_inv_book)
  have "st s' = st s3" "inactive s' = inactive s3" "reset_on_release s' = reset_on_release s3"
    by (simp_all add: s'_def metrics_defs push_reset_id_locked_def)
  moreover have "inactive s3 = i" "reset_on_release s3 ! dst = reset_on_release s ! src"
    using ne len ok(2) by (simp_all add: defs)
  moreover have "move_inactive ops \<lparr>rb_seq_hash = h, rb_src = src, rb_dst = dst, rb_src_generation = g, rb_handle = k',
      rb_source_inner = p, rb_armed = a\<rparr> s = Some (Moved h src dst, s')"
    using i(1) len ok(2) e
    by (simp add: move_inactive_def set_inactive_tenure_state_locked_def index_slot_def index_reset_flag_def
      set_reset_flag_def reset_slot_locked_def set_state_def epoch_ok_def assert_that_def Let_def) (simp add: s'_def defs comp_def)
  ultimately show ?thesis using SI st3 i(3) by auto
qed

lemma commit_moves:
  assumes inv: "SI E dm s" and d: "st s (rb_dst plan) = Mutable" "rb_dst plan < effective_ceiling s" "epoch_ok s (rb_dst plan)"
    and src: "rb_src plan < length (slots s)" "inactive_identity plan (slots s ! rb_src plan)"
  shows "\<exists>s'. commit_rebind ops plan s = Some (Moved (rb_seq_hash plan) (rb_src plan) (rb_dst plan), s')
    \<and> commit_live ops plan s = Some (Moved (rb_seq_hash plan) (rb_src plan) (rb_dst plan), s')
    \<and> SI E (dm - 1) s'
    \<and> st s' = (st s)(rb_dst plan := Inactive (rb_seq_hash plan) (rb_handle plan), rb_src plan := Reset)
    \<and> iabs (inactive s') = (iabs (inactive s))(rb_seq_hash plan \<mapsto> rb_dst plan)
    \<and> reset_on_release s' ! rb_dst plan = reset_on_release s ! rb_src plan"
proof -
  from src obtain k where k: "st s (rb_src plan) = Inactive (rb_seq_hash plan) k" "handle_id (rb_handle plan) = handle_id k"
    by (auto simp: inactive_identity_def st_def split: slot_state.splits)
  have eq: "plan = \<lparr>rb_seq_hash = rb_seq_hash plan, rb_src = rb_src plan, rb_dst = rb_dst plan,
      rb_src_generation = rb_src_generation plan, rb_handle = rb_handle plan, rb_source_inner = rb_source_inner plan,
      rb_armed = rb_armed plan\<rparr>" by simp
  from move_state [OF inv d(1) k(1,2) d(3), of "rb_src_generation plan" "rb_source_inner plan" "rb_armed plan"]
  obtain s' where s': "move_inactive ops plan s = Some (Moved (rb_seq_hash plan) (rb_src plan) (rb_dst plan), s')"
    "SI E (dm - 1) s'" "st s' = (st s)(rb_dst plan := Inactive (rb_seq_hash plan) (rb_handle plan), rb_src plan := Reset)"
    "iabs (inactive s') = (iabs (inactive s))(rb_seq_hash plan \<mapsto> rb_dst plan)"
    "reset_on_release s' ! rb_dst plan = reset_on_release s ! rb_src plan"
    unfolding eq [symmetric] by blast
  have "index_slot s (rb_dst plan) = Some (slots s ! rb_dst plan)" "slot_state (slots s ! rb_dst plan) = Mutable"
    "index_slot s (rb_src plan) = Some (slots s ! rb_src plan)"
    using d(1) src(1) by (auto simp: index_slot_def st_def split: if_splits)
  then have "commit_rebind ops plan s = move_inactive ops plan s" "commit_live ops plan s = move_inactive ops plan s"
    using d(2) src(2) by (simp_all add: commit_rebind_def commit_live_def assert_that_def Let_def)
  with s' show ?thesis by auto
qed

end

end
