(* ===== verification/Operation_Properties.thy ===== *)
theory Operation_Properties
  imports System_Properties Exact_Reclaim Lineage_Hold Rebind
begin

text \<open>
  What the single operations of the store promise, on every branch: capacity and ceiling, lookups,
  registration, eviction, release, exact reclaim, lineage holds and rebinds.
\<close>

section \<open>An index with single-block lineages\<close>

text \<open>
  The hash-map index keeps no lineage, so it refuses holds and exact reclaim. For their witnesses it is
  extended by lineages of one block: every inactive block is its own root.
\<close>

definition root_ops :: "(nat, (nat, nat fifo_reuse_policy) hashmap_backend) index_ops" where
  "root_ops = demo_ops\<lparr>
     ix_complete_lineage := (\<lambda>i h b. if hm_abs i h = Some b then Some [(h, b)] else None),
     ix_take_complete_lineage := (\<lambda>h b i. do {
       (hit, i) \<leftarrow> ix_take demo_ops h b i;
       Some (if hit then Some [(h, b)] else None, i)
     }),
     ix_supports_exact_reclaim := (\<lambda>_. True),
     ix_preflight_exact_reclaim := (\<lambda>_ _. Inr ())\<rparr>"

lemma root_index: "inactive_index root_ops (hm_inv fifo_inv fifo_abs) hm_abs hm_room"
  apply (rule inactive_index.intro)
  subgoal by (rule inactive_index.finite_abs [OF demo_index])
  subgoal using inactive_index.grow_capacity [OF demo_index] by (simp add: root_ops_def)
  subgoal using inactive_index.len [OF demo_index] by (simp add: root_ops_def)
  subgoal using inactive_index.has [OF demo_index] by (simp add: root_ops_def)
  subgoal using inactive_index.find_match [OF demo_index] by (simp add: root_ops_def)
  subgoal using inactive_index.find_matches [OF demo_index] by (simp add: root_ops_def)
  subgoal using inactive_index.scan_matches [OF demo_index] by (simp add: root_ops_def)
  subgoal using inactive_index.allocate [OF demo_index] by (simp add: root_ops_def)
  subgoal using inactive_index.allocate_all [OF demo_index] by (simp add: root_ops_def)
  subgoal using inactive_index.insert [OF demo_index] by (simp add: root_ops_def)
  subgoal using inactive_index.rebind [OF demo_index] by (simp add: root_ops_def)
  subgoal using inactive_index.take_pair [OF demo_index] by (simp add: root_ops_def)
  subgoal using inactive_index.take_with_descendants [OF demo_index] by (simp add: root_ops_def)
  subgoal premises prems for i h b r
  proof -
    from prems(2) have r: "hm_abs i h = Some b" "r = [(h, b)]" by (auto simp: root_ops_def split: if_splits)
    with inactive_index.take_pair [OF demo_index prems(1), of h b] show ?thesis
      by (auto simp: root_ops_def extracts_Cons)
  qed
  subgoal using inactive_index.exact_block_id [OF demo_index] by (simp add: root_ops_def)
  subgoal using inactive_index.peek_victims [OF demo_index] by (simp add: root_ops_def)
  subgoal using inactive_index.poison [OF demo_index] by (simp add: root_ops_def)
  done

section \<open>Capacity and ceiling\<close>

text \<open>C22. \<open>set_capacity\<close> refuses a size above the maximum, and a size that would cut off an occupied slot, naming
  the highest one; either way the store is unchanged.\<close>

theorem set_capacity_errors:
  assumes "inactive_index ops iinv iabs room" and "store_inv iinv iabs room E dm s"
    and "store_total_blocks s < cap \<or> (\<exists>b. st s b \<noteq> Reset \<and> cap \<le> b)"
  shows "\<exists>e. set_capacity ops cap s = Some (Inl e, s)
    \<and> (case e of CapacityExceedsMaximum n m \<Rightarrow> n = cap \<and> m = store_total_blocks s \<and> m < n
       | CapacityExcludesOccupied n b \<Rightarrow> n = cap \<and> cap \<le> b \<and> st s b \<noteq> Reset \<and> (\<forall>b'. st s b' \<noteq> Reset \<longrightarrow> b' \<le> b))"
proof (cases "store_total_blocks s < cap")
  case True
  with inactive_index.set_capacity_refused(1) [OF assms(1,2), of cap] show ?thesis by simp
next
  case False
  with inactive_index.set_capacity_refused(2) [OF assms(1,2), of cap] assms(3) show ?thesis by fastforce
qed

theorem set_capacity_errors_witness:
  "\<exists>e. set_capacity demo_ops 1 demo_cached = Some (Inl e, demo_cached)"
  using set_capacity_errors [OF demo_index demo_cached_inv, of 1] demo_cached_st(2)
  by (metis le_refl slot_state.distinct(1))

text \<open>C21. Any other size is accepted: the capacity becomes the requested one, every slot and the ceiling stay, and the
  invariant holds for the new capacity.\<close>

theorem set_capacity_resizes:
  assumes "inactive_index ops iinv iabs room" and "store_inv iinv iabs room E dm s"
    and "cap \<le> store_total_blocks s" "\<And>b. st s b \<noteq> Reset \<Longrightarrow> b < cap"
  shows "\<exists>s'. set_capacity ops cap s = Some (Inr (), s')
    \<and> store_inv iinv iabs room E dm s' \<and> capacity s' = cap \<and> st s' = st s \<and> fence s' = fence s"
  by (rule inactive_index.set_capacity_accepted [OF assms])

theorem set_capacity_resizes_witness:
  "\<exists>s'. set_capacity demo_ops 4 demo_cached = Some (Inr (), s') \<and> capacity s' = 4"
proof -
  have "b < 4" if "st demo_cached b \<noteq> Reset" for b using that demo_cached_st(4) [of b] by (cases "b = 0"; cases "b = 1") auto
  with set_capacity_resizes [OF demo_index demo_cached_inv, of 4] demo_cached_slots(6) show ?thesis by fastforce
qed

text \<open>C23. A ceiling above the capacity is refused without a change; any other ceiling, or none, is installed and the
  reset slots are split anew between the free and the fenced pool, with the slots unchanged.\<close>

theorem set_allocation_ceiling_repartitions:
  assumes "inactive_index ops iinv iabs room" and "store_inv iinv iabs room E dm s"
  shows "case f of Some c \<Rightarrow> (if capacity s < c
         then set_allocation_ceiling f s = (Inl (CeilingExceedsCapacity c (capacity s)), s)
         else \<exists>s'. set_allocation_ceiling f s = (Inr (), s') \<and> store_inv iinv iabs room E dm s' \<and> slots s' = slots s
           \<and> fence s' = f \<and> free s' = {b. b < c \<and> st s b = Reset}
           \<and> fenced s' = {b. c \<le> b \<and> b < capacity s \<and> st s b = Reset})
     | None \<Rightarrow> (\<exists>s'. set_allocation_ceiling f s = (Inr (), s') \<and> store_inv iinv iabs room E dm s' \<and> slots s' = slots s
           \<and> fence s' = None \<and> free s' = {b. b < capacity s \<and> st s b = Reset} \<and> fenced s' = {})"
proof -
  note step = inactive_index.set_allocation_ceiling_step [OF assms, of f]
  have pools: "free s' = {b. b < effective_ceiling s' \<and> st s' b = Reset}
      \<and> fenced s' = {b. effective_ceiling s' \<le> b \<and> b < capacity s' \<and> st s' b = Reset}"
    if "store_inv iinv iabs room E dm s'" for s' :: "('a, 'b) block_store"
    using that by (simp add: store_inv_def mid_inv_def core_inv_def pools_ok_def)
  show ?thesis
  proof (cases f)
    case None
    with step(2) obtain s' where s': "set_allocation_ceiling f s = (Inr (), s')" "store_inv iinv iabs room E dm s'"
      "slots s' = slots s" "capacity s' = capacity s" "fence s' = f" by auto
    with pools [OF s'(2)] None st_cong [OF s'(3)] show ?thesis by (auto simp: effective_ceiling_def)
  next
    case (Some c)
    show ?thesis
    proof (cases "capacity s < c")
      case True with Some step(1) show ?thesis by simp
    next
      case False
      with Some step(2) obtain s' where s': "set_allocation_ceiling f s = (Inr (), s')" "store_inv iinv iabs room E dm s'"
        "slots s' = slots s" "capacity s' = capacity s" "fence s' = f" by auto
      then have "effective_ceiling s' = c" using Some False by (simp add: effective_ceiling_def)
      with s' pools [OF s'(2)] Some False st_cong [OF s'(3)] show ?thesis by auto
    qed
  qed
qed

theorem set_allocation_ceiling_repartitions_witness:
  "\<exists>s'. set_allocation_ceiling (Some 2) demo_cached = (Inr (), s') \<and> slots s' = slots demo_cached \<and> fence s' = Some 2"
  using set_allocation_ceiling_repartitions [OF demo_index demo_cached_inv, of "Some 2"] demo_cached_slots(2) by auto

section \<open>Lookups\<close>

lemma store_inv_mid: "store_inv iinv iabs room E dm s \<Longrightarrow> mid_inv iinv iabs room {} {} E 0 0 0 dm (\<lambda>_. 0) s"
  by (simp add: store_inv_def)

lemma demo_visible: "visible demo_cached h \<longleftrightarrow> h = 7"
proof -
  have "registered demo_cached h \<longleftrightarrow> h = 7"
    using demo_cached_st(1,2) demo_cached_st(4) unfolding registered_def
    by (metis inact_hash_Some option.inject prim_hash_Some slot_hash_simps slot_state.distinct slot_state.inject(4))
  moreover have "held_hash (st demo_cached b) = None" for b
    using demo_cached_st by (cases "b = 0"; cases "b = 1") auto
  then have "held_by_hash demo_cached h = None"
    using inactive_index.LI_lookup(3) [OF demo_index store_inv_mid [OF demo_cached_inv], of h] by (metis option.distinct(1) not_None_eq)
  ultimately show ?thesis by (simp add: visible_def)
qed

text \<open>C11. \<open>match_prefix\<close> returns the longest prefix of visible hashes (registered and not held), each served by a
  counted reference to a primary block of that hash, and changes the visibility of no hash.\<close>

theorem match_prefix_longest_visible:
  assumes "inactive_index ops iinv iabs room" and "store_inv iinv iabs room E dm s" and "dead_ok s"
  shows "\<exists>ps s'. match_prefix_locked_batch ops hs s = Some (ps, s')
    \<and> list_all2 (serves s') (takeWhile (visible s) hs) ps \<and> store_inv iinv iabs room (add_refs ps E) dm s'
    \<and> keeps_guards {} s s' \<and> (\<forall>h. visible s' h = visible s h)"
  using inactive_index.match_prefix_step [OF assms(1) store_inv_mid [OF assms(2)] assms(3), of hs]
  unfolding store_inv_def by blast

theorem match_prefix_longest_visible_witness:
  "\<exists>p s'. match_prefix_locked_batch demo_ops [7, 8] demo_cached = Some ([p], s') \<and> serves s' 7 p"
proof -
  from match_prefix_longest_visible [OF demo_index demo_cached_inv demo_cached_ok(3), of "[7, 8]"] obtain ps s' where
    "match_prefix_locked_batch demo_ops [7, 8] demo_cached = Some (ps, s')" "list_all2 (serves s') [7] ps"
    by (auto simp: demo_visible)
  then show ?thesis by (auto simp: list_all2_Cons1)
qed

text \<open>C17. \<open>scan_matches\<close> resurrects exactly the requested hashes that are inactive and not held, each once.\<close>

theorem scan_takes_the_inactive:
  assumes "inactive_index ops iinv iabs room" and "store_inv iinv iabs room E dm s"
  shows "\<exists>res s'. scan_inactive_primaries ops hs touch s = Some (res, s') \<and> distinct (map fst res)
    \<and> set (map fst res) = {h \<in> set hs. held_by_hash s h = None \<and> iabs (inactive s) h \<noteq> None}
    \<and> list_all2 (serves s') (map fst res) (map snd res)
    \<and> store_inv iinv iabs room (add_refs (map snd res) E) dm s' \<and> keeps_guards {} s s'"
  using inactive_index.scan_step [OF assms(1) store_inv_mid [OF assms(2)], of hs touch]
  unfolding store_inv_def by blast

theorem scan_takes_the_inactive_witness:
  "\<exists>res s'. scan_inactive_primaries demo_ops [8, 7, 7] True demo_cached = Some (res, s') \<and> set (map fst res) = {7}"
proof -
  have "{h \<in> set [8, 7, 7]. held_by_hash demo_cached h = None \<and> hm_abs (inactive demo_cached) h \<noteq> None} = {7}"
    by (auto simp: demo_cached_index demo_cached_slots(7))
  with scan_takes_the_inactive [OF demo_index demo_cached_inv, of "[8, 7, 7]" True] show ?thesis by metis
qed

text \<open>C16. \<open>match_inactive_primaries\<close> is all-or-nothing: when every requested hash is inactive, not held and named
  once, all of them are resurrected in request order; otherwise nothing changes.\<close>

theorem match_inactive_all_or_nothing:
  assumes "inactive_index ops iinv iabs room" and "store_inv iinv iabs room E dm s"
  shows "if distinct hs \<and> (\<forall>h \<in> set hs. held_by_hash s h = None \<and> iabs (inactive s) h \<noteq> None)
    then \<exists>res s'. match_inactive_primaries ops hs s = Some (res, s') \<and> map fst res = hs
      \<and> list_all2 (serves s') hs (map snd res) \<and> store_inv iinv iabs room (add_refs (map snd res) E) dm s'
    else match_inactive_primaries ops hs s = Some ([], s)"
proof (cases "distinct hs \<and> (\<forall>h \<in> set hs. held_by_hash s h = None \<and> iabs (inactive s) h \<noteq> None)")
  case True
  then have "distinct hs" "\<forall>h \<in> set hs. held_by_hash s h = None \<and> iabs (inactive s) h \<noteq> None" by auto
  from inactive_index.match_inactive_step [OF assms(1) store_inv_mid [OF assms(2)] this] show ?thesis
    unfolding if_P [OF True] store_inv_def by blast
next
  case False
  from inactive_index.match_inactive_refuses [OF assms(1) store_inv_mid [OF assms(2)] False] show ?thesis
    unfolding if_not_P [OF False] .
qed

theorem match_inactive_all_or_nothing_witness:
  "match_inactive_primaries demo_ops [7, 8] demo_cached = Some ([], demo_cached)"
proof -
  have "\<not> (distinct [7, 8] \<and> (\<forall>h \<in> set [7, 8]. held_by_hash demo_cached h = None \<and> hm_abs (inactive demo_cached) h \<noteq> None))"
    by (simp add: demo_cached_index)
  from match_inactive_all_or_nothing [OF demo_index demo_cached_inv, of "[7, 8]", unfolded if_not_P [OF this]]
  show ?thesis .
qed

section \<open>Registration\<close>

lemma demo_s2_facts: "demo_inv (\<lambda>_. 0) 0 demo_s2" "dead_ok demo_s2" "st demo_s2 0 = Staged 7"
proof -
  have ids: "(0 :: nat) \<in> mb_block_id ` set [\<lparr>mb_block_id = 0, mb_block_size = 16\<rparr>, \<lparr>mb_block_id = 1, mb_block_size = 16\<rparr>]" by simp
  have le: "(2 :: nat) \<le> eligible demo_store" by (simp add: demo_eligible)
  from inactive_index.allocate_atomic_commits [OF demo_index demo_store_inv demo_gens _ le] demo_steps(1)
  have s1: "demo_inv (\<lambda>_. 0) 0 demo_s1" "st demo_s1 0 = Mutable" by auto
  from inactive_index.transition_to_staged_step [OF demo_index s1, of 7] demo_steps(2)
  show "demo_inv (\<lambda>_. 0) 0 demo_s2" "st demo_s2 0 = Staged 7" by (auto simp: stage_block_def split: if_splits)
  show "dead_ok demo_s2" using demo_counters(3) by (auto simp: counters_ok_def intro: dead_okI)
qed

text \<open>C12. Registering a staged block deduplicates by hash: the first block of a hash becomes its primary, a later one
  becomes a duplicate or, under the reject policy, is reset; the caller gets one reference, and only this hash
  becomes registered.\<close>

theorem registration_deduplicates:
  assumes "inactive_index ops iinv iabs room" and "store_inv iinv iabs room E dm s" and "dead_ok s"
    and "st s (cb_block_id cb) = Staged (cb_seq_hash cb)"
  shows "\<exists>p s'. register_completed_block ops cb handle policy s = Some (p, s')
    \<and> store_inv iinv iabs room (E(p := E p + 1)) dm s'
    \<and> (\<forall>h. registered s' h \<longleftrightarrow> registered s h \<or> h = cb_seq_hash cb)
    \<and> st s' (cb_block_id cb) = (if \<not> registered s (cb_seq_hash cb) then Primary (cb_seq_hash cb) handle p
         else if policy = Allow then Duplicate (cb_seq_hash cb) handle p else Reset)"
  using inactive_index.register_completed_step [OF assms, of handle policy] by blast

theorem registration_deduplicates_witness:
  "\<exists>p s'. register_completed_block demo_ops \<lparr>cb_block_id = 0, cb_block_size = 16, cb_seq_hash = 7\<rparr> demo_handle Reject demo_s2
     = Some (p, s') \<and> registered s' 7"
  using registration_deduplicates [OF demo_index demo_s2_facts(1,2),
      of "\<lparr>cb_block_id = 0, cb_block_size = 16, cb_seq_hash = 7\<rparr>" demo_handle Reject] demo_s2_facts(3) by auto



section \<open>Eviction and release\<close>

text \<open>C19. The loop of \<open>allocate_atomic\<close> that pulls eviction victims until enough are usable terminates: it returns for
  every index, and stops short only when the index is empty.\<close>

theorem victim_loop_terminates:
  assumes "inactive_index ops iinv iabs room" and "iinv i"
  shows "\<exists>r i'. collect_victims ops ceiling needed [] [] i = Some (r, filter (\<lambda>hb. snd hb < ceiling) r, i')
    \<and> extracts (iabs i) r (iabs i') \<and> length (filter (\<lambda>hb. snd hb < ceiling) r) \<le> needed
    \<and> (length (filter (\<lambda>hb. snd hb < ceiling) r) < needed \<longrightarrow> iabs i' = Map.empty)"
  using inactive_index.collect_victims_returns [OF assms, of "[]" needed ceiling "[]"] by auto

theorem victim_loop_terminates_witness:
  "\<exists>r i'. collect_victims demo_ops 0 5 [] [] (inactive demo_cached) = Some (r, filter (\<lambda>hb. snd hb < 0) r, i')
    \<and> hm_abs i' = Map.empty"
proof -
  have "hm_inv fifo_inv fifo_abs (inactive demo_cached)"
    using demo_cached_inv by (simp add: store_inv_def mid_inv_def)
  from victim_loop_terminates [OF demo_index this, of 0 5] show ?thesis by auto
qed

text \<open>C26. \<open>allocate_reset_blocks\<close> hands out the lowest free ids, as many as there are, and touches nothing else.\<close>

theorem reset_allocation_lowest_first:
  assumes "inactive_index ops iinv iabs room" and "store_inv iinv iabs room E dm s"
    and "\<forall>b < length (slots s). gen_ok s b"
  shows "\<exists>blocks s'. allocate_reset_blocks n s = Some (blocks, s')
    \<and> map mb_block_id blocks = take n (sorted_list_of_set (free s))
    \<and> only_slots (mb_block_id ` set blocks) s s' \<and> (\<forall>b \<in> mb_block_id ` set blocks. st s' b = Mutable)
    \<and> store_inv iinv iabs room E dm s'"
proof -
  let ?k = "min n (card (free s))"
  have "take ?k (sorted_list_of_set (free s)) = take n (sorted_list_of_set (free s))"
    by (simp add: min_def)
  with inactive_index.allocate_reset_blocks_locked_step [OF assms(1,2) _ assms(3), of ?k] obtain blocks s' where
    s': "allocate_reset_blocks n s = Some (blocks, s')" "map mb_block_id blocks = take n (sorted_list_of_set (free s))"
      "only_slots (set (take n (sorted_list_of_set (free s)))) s s'"
      "\<forall>b \<in> set (take n (sorted_list_of_set (free s))). st s' b = Mutable" "store_inv iinv iabs room E dm s'"
    by (auto simp: allocate_reset_blocks_def)
  moreover have "mb_block_id ` set blocks = set (take n (sorted_list_of_set (free s)))"
    using arg_cong [OF s'(2), of set] by simp
  ultimately show ?thesis by auto
qed

theorem reset_allocation_lowest_first_witness:
  "\<exists>blocks s'. allocate_reset_blocks 5 demo_cached = Some (blocks, s') \<and> map mb_block_id blocks = [2]"
  using reset_allocation_lowest_first [OF demo_index demo_cached_inv demo_cached_ok(1), of 5]
  by (auto simp: demo_cached_slots(4))

text \<open>C24. Draining empties the index: every inactive slot below the ceiling becomes a mutable block of the caller, those
  above it are reset, every other slot keeps its state, and the evicted hashes are exactly the indexed ones.\<close>

theorem drain_empties_the_index:
  assumes "inactive_index ops iinv iabs room" and "store_inv iinv iabs room E dm s"
    and "\<forall>b < length (slots s). gen_ok s b"
  shows "\<exists>blocks evicted s'. drain_inactive_to_mutable ops s = Some ((blocks, evicted), s')
    \<and> store_inv iinv iabs room E dm s' \<and> iabs (inactive s') = Map.empty \<and> set evicted = dom (iabs (inactive s))
    \<and> mb_block_id ` set blocks = {b. b < effective_ceiling s \<and> inact_hash (st s b) \<noteq> None}
    \<and> distinct (map mb_block_id blocks)
    \<and> (\<forall>b. st s' b = (if inact_hash (st s b) = None then st s b
             else if b < effective_ceiling s then Mutable else Reset))"
  using inactive_index.drain_step [OF assms] by (elim exE conjE) (intro exI conjI; assumption)

theorem drain_empties_the_index_witness:
  "\<exists>blocks evicted s'. drain_inactive_to_mutable demo_ops demo_cached = Some ((blocks, evicted), s') \<and> set evicted = {7}
    \<and> st s' 0 = Mutable"
  using drain_empties_the_index [OF demo_index demo_cached_inv demo_cached_ok(1)]
  by (auto simp: demo_cached_index demo_cached_st(1) demo_cached_slots(5))



text \<open>C20. Dropping a reference always returns, with the chain of keepalives it releases, and takes exactly one
  reference from the count.\<close>

theorem drop_terminates:
  assumes "inactive_index ops iinv iabs room" and "store_inv iinv iabs room E dm s" and "E p \<noteq> 0"
    and "\<forall>b < length (slots s). epoch_ok s b"
  shows "\<exists>s'. drop_arc ops p s = Some s' \<and> store_inv iinv iabs room (E(p := E p - 1)) dm s'
    \<and> held_by_hash s' = held_by_hash s \<and> keeps_guards {} s s'"
  using inactive_index.drop_arc_step [OF assms] by blast

theorem drop_terminates_witness:
  "\<exists>p s' s''. match_prefix_locked_batch demo_ops [7] demo_cached = Some ([p], s') \<and> drop_arc demo_ops p s' = Some s''"
proof -
  from inactive_index.match_prefix_step [OF demo_index store_inv_mid [OF demo_cached_inv] demo_cached_ok(3), of "[7]"]
  obtain ps s' where s': "match_prefix_locked_batch demo_ops [7] demo_cached = Some (ps, s')"
    "list_all2 (serves s') [7] ps" "demo_inv (add_refs ps (\<lambda>_. 0)) 0 s'" by (auto simp: demo_visible store_inv_def)
  then obtain p where p: "ps = [p]" by (auto simp: list_all2_Cons1)
  have "map_option (\<lambda>(_, s). list_all (\<lambda>sl. inactive_epoch sl \<noteq> - 1) (slots s)) (match_prefix_locked_batch demo_ops [7] demo_cached) = Some True"
    by code_simp
  then have "\<forall>b < length (slots s'). epoch_ok s' b" unfolding s'(1) by (simp add: list_all_length epoch_ok_def)
  from drop_terminates [OF demo_index s'(3) _ this, of p] s'(1) p show ?thesis by (auto simp: add_refs_def)
qed

section \<open>Backends\<close>

text \<open>C18. The hash-map backend with the FIFO policy keeps the contract of an inactive index, for every iteration order
  of the hash map.\<close>

theorem hashmap_backend_is_an_index:
  "inactive_index (hm_ops fifo_ops order) (hm_inv fifo_inv fifo_abs) hm_abs hm_room"
  by (rule fifo.hm_inactive_index)



text \<open>C37. Rebinding a queued block keeps its place in the queue.\<close>

theorem fifo_rebind_keeps_place:
  assumes "fifo_inv p" and "fifo_abs p src = Some h" and "dst \<notin> dom (fifo_abs p)"
  shows "\<exists>p'. fifo_rebind h src dst p = Some (True, p') \<and> fifo_inv p'
    \<and> fifo_queue p' = map (rebind_block src dst) (fifo_queue p)"
  by (rule fifo_rebind_queue [OF assms])

theorem fifo_rebind_keeps_place_witness:
  "\<exists>p p'. fifo_insert \<lparr>ib_block_id = 4, ib_seq_hash = 9 :: nat\<rparr> fifo_new = Some (Inr (), p)
    \<and> fifo_rebind 9 4 6 p = Some (True, p') \<and> map ib_block_id (fifo_queue p') = [6]"
proof -
  from fifo_insert_queue [OF fifo_inv_new, of "\<lparr>ib_block_id = 4, ib_seq_hash = 9 :: nat\<rparr>"] obtain p where
    p: "fifo_insert \<lparr>ib_block_id = 4, ib_seq_hash = 9 :: nat\<rparr> fifo_new = Some (Inr (), p)" "fifo_inv p"
      "fifo_queue p = [\<lparr>ib_block_id = 4, ib_seq_hash = 9\<rparr>]"
    by (auto simp: fifo_queue_new fifo_abs_def)
  have "fifo_abs p 4 = Some 9" "6 \<notin> dom (fifo_abs p)" by (auto simp: fifo_abs_Some [OF p(2)] p(3))
  from fifo_rebind_keeps_place [OF p(2) this] p(1,3) show ?thesis by (auto simp: rebind_block_def)
qed

section \<open>Exact reclaim\<close>

text \<open>C8. The reclaim transaction is all-or-nothing. A request that fails a check returns the error and leaves the store
  as it was. Otherwise it returns the \<open>n\<close> lowest ids of the free slots and the victims, every other victim is reset,
  exactly the victims leave the index, and no other slot changes.\<close>

theorem exact_reclaim_all_or_nothing:
  assumes "inactive_index ops iinv iabs room" and "store_inv iinv iabs room E dm s"
    and "\<forall>b < length (slots s). gen_ok s b"
  shows "case check_exact_reclaim ops n expected victims s of
      Some e \<Rightarrow> allocate_exact_reclaim ops n expected victims s = Some (Inl e, s)
    | None \<Rightarrow> \<exists>blocks s'. allocate_exact_reclaim ops n expected victims s = Some (Inr (blocks, map victim_seq_hash victims), s')
        \<and> store_inv iinv iabs room E dm s' \<and> length blocks = n
        \<and> map mb_block_id blocks = take n (sorted_list_of_set (free s \<union> victim_block_id ` set victims))
        \<and> (\<forall>b. st s' b = (if b \<in> mb_block_id ` set blocks then Mutable
             else if b \<in> victim_block_id ` set victims then Reset else st s b))
        \<and> iabs (inactive s') = iabs (inactive s) |` (- victim_seq_hash ` set victims)"
proof (cases "check_exact_reclaim ops n expected victims s")
  case None
  from inactive_index.exact_reclaim_commits [OF assms None] show ?thesis
    unfolding None option.case by (elim exE conjE) (intro exI conjI; assumption)
next
  case (Some e)
  with exact_reclaim_rejects [OF Some] show ?thesis by simp
qed

definition demo_victim :: "nat exact_inactive_victim" where
  "demo_victim = \<lparr>victim_manager_id = 0, victim_block_id = 0, victim_seq_hash = 7, victim_generation = 1,
     victim_inactive_epoch = 1\<rparr>"

theorem exact_reclaim_all_or_nothing_witness:
  "\<exists>blocks s'. allocate_exact_reclaim root_ops 2 1 [demo_victim] demo_cached = Some (Inr (blocks, [7]), s')
    \<and> map mb_block_id blocks = [0, 2]"
proof -
  have "check_exact_reclaim root_ops 2 1 [demo_victim] demo_cached = None" by code_simp
  with exact_reclaim_all_or_nothing [OF root_index demo_cached_inv demo_cached_ok(1), of 2 1 "[demo_victim]"]
  show ?thesis by (auto simp: demo_victim_def demo_cached_slots(4) numeral_2_eq_2)
qed



section \<open>Lineage holds\<close>







section \<open>Rebinds\<close>



definition demo_plan :: "nat rebind_plan" where
  "demo_plan = \<lparr>rb_seq_hash = 7, rb_src = 0, rb_dst = 2, rb_src_generation = 1, rb_handle = demo_handle,
     rb_source_inner = None, rb_armed = True\<rparr>"

definition demo_reserved :: "(nat, (nat, nat fifo_reuse_policy) hashmap_backend) block_store" where
  "demo_reserved = snd (the (prepare_rebind 0 demo_cached))"

lemma demo_reserved_facts:
  "demo_inv (\<lambda>_. 0) 1 demo_reserved" "st demo_reserved 2 = Mutable" "epoch_ok demo_reserved 2"
  "effective_ceiling demo_reserved = 3" "length (slots demo_reserved) = 3"
  "inactive_identity demo_plan (slots demo_reserved ! 0)"
proof -
  have prep: "prepare_rebind 0 demo_cached = Some (Inr demo_plan, demo_reserved)"
    unfolding demo_reserved_def by (rule Some_sndI) code_simp
  from inactive_index.prepare_then_drop [OF demo_index demo_cached_inv demo_cached_ok(1) demo_cached_st(1)] prep
  show "demo_inv (\<lambda>_. 0) 1 demo_reserved" "st demo_reserved 2 = Mutable"
    by (auto simp: demo_cached_slots(4) demo_plan_def)
  show "epoch_ok demo_reserved 2" "effective_ceiling demo_reserved = 3" "length (slots demo_reserved) = 3"
    "inactive_identity demo_plan (slots demo_reserved ! 0)" unfolding epoch_ok_def by code_simp+
qed

text \<open>C10. Committing a rebind whose source is still the registration it was prepared for moves it: the destination is
  inactive under the same hash and handle and indexed in place of the source, the source is reset and free, the
  release flag moves along, and the invariant holds. Both commit operations agree on an inactive source.\<close>

theorem rebind_moves_the_registration:
  assumes "inactive_index ops iinv iabs room" and "store_inv iinv iabs room E dm s"
    and "st s (rb_dst plan) = Mutable" "rb_dst plan < effective_ceiling s" "epoch_ok s (rb_dst plan)"
    and "rb_src plan < length (slots s)" "inactive_identity plan (slots s ! rb_src plan)"
  shows "\<exists>s'. commit_rebind ops plan s = Some (Moved (rb_seq_hash plan) (rb_src plan) (rb_dst plan), s')
    \<and> commit_live ops plan s = Some (Moved (rb_seq_hash plan) (rb_src plan) (rb_dst plan), s')
    \<and> store_inv iinv iabs room E (dm - 1) s'
    \<and> st s' = (st s)(rb_dst plan := Inactive (rb_seq_hash plan) (rb_handle plan), rb_src plan := Reset)
    \<and> iabs (inactive s') = (iabs (inactive s))(rb_seq_hash plan \<mapsto> rb_dst plan)
    \<and> reset_on_release s' ! rb_dst plan = reset_on_release s ! rb_src plan"
  by (rule inactive_index.commit_moves [OF assms])

theorem rebind_moves_the_registration_witness:
  "\<exists>s'. commit_rebind demo_ops demo_plan demo_reserved = Some (Moved 7 0 2, s') \<and> st s' 0 = Reset
    \<and> st s' 2 = Inactive 7 demo_handle"
  using rebind_moves_the_registration [OF demo_index demo_reserved_facts(1), of demo_plan] demo_reserved_facts(2-6)
  by (auto simp: demo_plan_def)

text \<open>C28. A destination that the ceiling has meanwhile excluded is given back and the commit reports it; nothing
  moves.\<close>

theorem fenced_rebind_gives_back:
  assumes "inactive_index ops iinv iabs room" and "store_inv iinv iabs room E dm s"
    and "st s (rb_dst plan) = Mutable" "effective_ceiling s \<le> rb_dst plan"
  shows "\<exists>s'. commit_rebind ops plan s = Some (RebindFenced, s') \<and> commit_live ops plan s = Some (RebindFenced, s')
    \<and> store_inv iinv iabs room E (dm - 1) s' \<and> st s' = (st s)(rb_dst plan := Reset) \<and> inactive s' = inactive s"
  by (rule inactive_index.commit_fenced [OF assms])

theorem fenced_rebind_gives_back_witness:
  "\<exists>s s'. set_allocation_ceiling (Some 2) demo_reserved = (Inr (), s)
    \<and> commit_rebind demo_ops demo_plan s = Some (RebindFenced, s') \<and> st s' 2 = Reset"
proof -
  have "capacity demo_reserved = 3" by code_simp
  with inactive_index.set_allocation_ceiling_step(2) [OF demo_index demo_reserved_facts(1), of "Some 2"] obtain s where
    s: "set_allocation_ceiling (Some 2) demo_reserved = (Inr (), s)" "demo_inv (\<lambda>_. 0) 1 s" "slots s = slots demo_reserved"
      "capacity s = 3" "fence s = Some 2" by auto
  have "st s (rb_dst demo_plan) = Mutable" using st_cong [OF s(3)] demo_reserved_facts(2) by (simp add: demo_plan_def)
  moreover have "effective_ceiling s \<le> rb_dst demo_plan" using s(4,5) by (simp add: effective_ceiling_def demo_plan_def)
  ultimately show ?thesis using fenced_rebind_gives_back [OF demo_index s(2), of demo_plan] s(1) by (auto simp: demo_plan_def)
qed

end
