(* ===== verification/Tiny_LFU.thy ===== *)
theory Tiny_LFU
  imports Kvbm_Prelude
begin

unbundle bit_operations_syntax

text \<open>
  The frequency sketch of \<open>tinylfu.rs\<close>: a count-min sketch of four-bit counters, sixteen to a \<open>u64\<close>,
  with a pluggable decay policy. The keyed hash \<open>hash_with_secret\<close> (xxh3, a third-party function) is
  the parameter \<open>hws\<close>; its second argument is the number of the secret.
\<close>

section \<open>Decay policies\<close>

type_synonym decay_policy = "u32 \<Rightarrow> bool"

definition u32_MAX :: nat where "u32_MAX = 2 ^ 32 - 1"
definition usize_MAX :: nat where "usize_MAX = 2 ^ 64 - 1"

text \<open>\<open>FixedDecayPolicy\<close> is its threshold.\<close>

definition fixed_from_capacity :: "nat \<Rightarrow> u32" where
  "fixed_from_capacity capacity = of_nat (min (min (capacity * 10) usize_MAX) u32_MAX)"

definition fixed_should_decay :: "u32 \<Rightarrow> decay_policy" where
  "fixed_should_decay sample_size increments_since_last_reset \<longleftrightarrow> sample_size \<le> increments_since_last_reset"

section \<open>The sketch\<close>

record tinylfu_sketch =
  table :: "u64 list"
  sketch_size :: u32
  decay_policy :: decay_policy

definition RESET_MASK :: u64 where "RESET_MASK = 0x7777777777777777"
definition ONE_MASK :: u64 where "ONE_MASK = 0x1111111111111111"

definition with_decay_policy :: "nat \<Rightarrow> decay_policy \<Rightarrow> tinylfu_sketch" where
  "with_decay_policy cap policy =
     \<lparr>table = replicate (max 1 (cap div 4)) 0, sketch_size = 0, decay_policy = policy\<rparr>"

definition sketch_new :: "nat \<Rightarrow> tinylfu_sketch" where
  "sketch_new cap = with_decay_policy cap (fixed_should_decay (fixed_from_capacity cap))"

text \<open>\<open>TinyLFUSettings::into_sketch\<close>.\<close>

definition into_sketch :: "nat \<Rightarrow> decay_policy option \<Rightarrow> tinylfu_sketch" where
  "into_sketch cap policy = with_decay_policy cap
     (case policy of None \<Rightarrow> fixed_should_decay (fixed_from_capacity cap) | Some p \<Rightarrow> p)"

definition sketch_hash :: "('k \<Rightarrow> nat \<Rightarrow> u64) \<Rightarrow> 'k \<Rightarrow> nat \<Rightarrow> u64" where
  "sketch_hash hws key seed = hws key (if seed \<le> 3 then seed else 0)"

text \<open>The cell of a key: the index of the table word and of the counter in it.\<close>

definition table_index :: "u64 \<Rightarrow> nat \<Rightarrow> nat" where
  "table_index h len = unat h mod len"

definition counter_index :: "u64 \<Rightarrow> nat" where
  "counter_index h = unat (h AND 15)"

definition increment_at :: "nat \<Rightarrow> nat \<Rightarrow> tinylfu_sketch \<Rightarrow> (bool \<times> tinylfu_sketch) option" where
  "increment_at ti ci s =
     (let offset = ci * 4; mask = push_bit offset (0xF :: u64) in
      if ti < length (table s) then
        (if table s ! ti AND mask \<noteq> mask
         then Some (True, s\<lparr>table := (table s)[ti := table s ! ti + push_bit offset 1]\<rparr>)
         else Some (False, s))
      else None)"

definition count_at :: "tinylfu_sketch \<Rightarrow> nat \<Rightarrow> nat \<Rightarrow> u8 option" where
  "count_at s ti ci =
     (let offset = ci * 4; mask = push_bit offset (0xF :: u64) in
      if ti < length (table s) then Some (ucast (drop_bit offset (table s ! ti AND mask))) else None)"

definition count_ones :: "u64 \<Rightarrow> nat" where
  "count_ones w = length (filter (bit w) [0..<64])"

definition reset :: "tinylfu_sketch \<Rightarrow> tinylfu_sketch" where
  "reset s =
     (let odd_counters = (\<Sum>entry \<leftarrow> table s. of_nat (count_ones (entry AND ONE_MASK))) :: u32;
          half = drop_bit 1 (sketch_size s);
          dec = drop_bit 2 odd_counters in
      s\<lparr>table := map (\<lambda>entry. drop_bit 1 entry AND RESET_MASK) (table s),
        sketch_size := (if dec \<le> half then half - dec else 0)\<rparr>)"

fun increment_loop ::
  "('k \<Rightarrow> nat \<Rightarrow> u64) \<Rightarrow> 'k \<Rightarrow> nat list \<Rightarrow> bool \<Rightarrow> tinylfu_sketch \<Rightarrow> (bool \<times> tinylfu_sketch) option" where
  "increment_loop hws key [] added s = Some (added, s)"
| "increment_loop hws key (i # seeds) added s = do {
     let h = sketch_hash hws key i;
     (hit, s) \<leftarrow> increment_at (table_index h (length (table s))) (counter_index h) s;
     increment_loop hws key seeds (added \<or> hit) s
   }"

definition increment :: "('k \<Rightarrow> nat \<Rightarrow> u64) \<Rightarrow> 'k \<Rightarrow> tinylfu_sketch \<Rightarrow> tinylfu_sketch option" where
  "increment hws key s =
     (if table s = [] then Some s
      else do {
        (added, s) \<leftarrow> increment_loop hws key [0..<4] False s;
        if added then
          (let s = s\<lparr>sketch_size := sketch_size s + 1\<rparr> in
           Some (if decay_policy s (sketch_size s) then reset s else s))
        else Some s
      })"

fun estimate_loop ::
  "('k \<Rightarrow> nat \<Rightarrow> u64) \<Rightarrow> 'k \<Rightarrow> tinylfu_sketch \<Rightarrow> nat list \<Rightarrow> u32 \<Rightarrow> u32 option" where
  "estimate_loop hws key s [] min_count = Some min_count"
| "estimate_loop hws key s (i # seeds) min_count = do {
     let h = sketch_hash hws key i;
     c \<leftarrow> count_at s (table_index h (length (table s))) (counter_index h);
     estimate_loop hws key s seeds (min min_count (ucast c))
   }"

definition estimate :: "('k \<Rightarrow> nat \<Rightarrow> u64) \<Rightarrow> tinylfu_sketch \<Rightarrow> 'k \<Rightarrow> u32 option" where
  "estimate hws s key = (if table s = [] then Some 0 else estimate_loop hws key s [0..<4] (- 1))"

text \<open>\<open>TinyLFUTracker::touch_batch\<close>; the lock makes a touch one step.\<close>

fun touch_batch :: "('k \<Rightarrow> nat \<Rightarrow> u64) \<Rightarrow> 'k list \<Rightarrow> tinylfu_sketch \<Rightarrow> tinylfu_sketch option" where
  "touch_batch hws [] s = Some s"
| "touch_batch hws (key # keys) s = do {
     s \<leftarrow> increment hws key s;
     touch_batch hws keys s
   }"

section \<open>Counters\<close>

definition nibble :: "u64 \<Rightarrow> nat \<Rightarrow> nat" where
  "nibble w c = unat w div 16 ^ c mod 16"

lemma nat_nibble_add:
  fixes u :: nat
  assumes "u div 16 ^ c mod 16 < 15"
  shows "(u + 16 ^ c) div 16 ^ d mod 16 = (if d = c then u div 16 ^ c mod 16 + 1 else u div 16 ^ d mod 16)"
    and "c < d \<Longrightarrow> (u + 16 ^ c) div 16 ^ d = u div 16 ^ d"
proof -
  have q: "(u + 16 ^ c) div 16 ^ c = u div 16 ^ c + 1" using div_add_self2 [of "16 ^ c" u] by simp
  have above: "(u + 16 ^ c) div 16 ^ d = u div 16 ^ d" if "c < d" for d
  proof -
    obtain k where k: "d = c + Suc k" using less_imp_Suc_add [OF \<open>c < d\<close>] by auto
    have d: "(16 :: nat) ^ d = 16 ^ c * (16 * 16 ^ k)" unfolding k power_add by simp
    have "Suc q div 16 = q div 16" if "q mod 16 < 15" for q :: nat using that by (simp add: div_Suc mod_Suc)
    note this [OF assms]
    then show ?thesis unfolding d div_mult2_eq q by simp
  qed
  then show "c < d \<Longrightarrow> (u + 16 ^ c) div 16 ^ d = u div 16 ^ d" .
  consider "d = c" | "c < d" | "d < c" by linarith
  then show "(u + 16 ^ c) div 16 ^ d mod 16 = (if d = c then u div 16 ^ c mod 16 + 1 else u div 16 ^ d mod 16)"
  proof cases
    case 1
    have "(q + 1) mod 16 = q mod 16 + 1" if "q mod 16 < 15" for q :: nat using that by (simp add: mod_Suc)
    from this [OF assms] show ?thesis unfolding 1 q by simp
  next
    case 2
    with above show ?thesis by simp
  next
    case 3
    obtain k where k: "c = d + Suc k" using less_imp_Suc_add [OF 3] by auto
    have c: "(16 :: nat) ^ c = 16 * 16 ^ k * 16 ^ d" unfolding k power_add by simp
    have "(u + 16 ^ c) div 16 ^ d = u div 16 ^ d + 16 * 16 ^ k"
      unfolding c using div_mult_self1 [of "16 ^ d" u "16 * 16 ^ k"] by simp
    with 3 show ?thesis by simp
  qed
qed

lemma word_15: "(15 :: u64) = mask 4"
  by (simp add: mask_eq_exp_minus_1)

lemma bit_15: "bit (15 :: u64) n \<longleftrightarrow> n < 4"
  unfolding word_15 by (simp only: bit_mask_iff) auto

lemma nibble_bits: "drop_bit (c * 4) (w AND push_bit (c * 4) 15) = drop_bit (c * 4) w AND (15 :: u64)" if "c < 16"
  unfolding word_15
proof (rule bit_eqI)
  fix n assume n: "possible_bit TYPE(64 word) n"
  have "bit w (c * 4 + n) \<Longrightarrow> c * 4 + n < 64" using bit_imp_le_length [of w] by auto
  with n show "bit (drop_bit (c * 4) (w AND push_bit (c * 4) (mask 4))) n = bit (drop_bit (c * 4) w AND mask 4) n"
    by (auto simp: bit_simps)
qed

lemma nibble_word: "unat (drop_bit (c * 4) w AND (15 :: u64)) = nibble w c"
proof -
  have "drop_bit (c * 4) w AND 15 = take_bit 4 (drop_bit (c * 4) w)"
    unfolding word_15 take_bit_eq_mask ..
  then have "unat (drop_bit (c * 4) w AND 15) = take_bit 4 (drop_bit (c * 4) (unat w))"
    by (simp only: unat_drop_bit_eq unsigned_take_bit_eq)
  also have "\<dots> = nibble w c"
    by (simp add: nibble_def drop_bit_eq_div take_bit_eq_mod power_mult mult.commute [of c])
  finally show ?thesis .
qed

lemma nibble_less: "nibble w c < 16"
  by (simp add: nibble_def)

lemma nibble_full: "w AND push_bit (c * 4) 15 = push_bit (c * 4) (15 :: u64) \<longleftrightarrow> nibble w c = 15" if "c < 16"
proof -
  have w: "w AND push_bit (c * 4) 15 = push_bit (c * 4) (drop_bit (c * 4) w AND 15)"
    by (rule bit_eqI) (auto simp: bit_simps)
  have inj: "push_bit (c * 4) a = push_bit (c * 4) b \<longleftrightarrow> a = b" if "a AND 15 = a" "b AND 15 = b" for a b :: u64
  proof
    assume eq: "push_bit (c * 4) a = push_bit (c * 4) b"
    have "bit a n = bit b n" if "n < 4" for n
      using arg_cong [OF eq, of "\<lambda>w. bit w (n + c * 4)"] that \<open>c < 16\<close> by (simp add: bit_simps)
    moreover have "\<not> bit a n \<and> \<not> bit b n" if "4 \<le> n" for n
    proof -
      have "\<not> bit (15 :: u64) n" using that by (simp only: bit_15 not_less)
      with \<open>a AND 15 = a\<close> \<open>b AND 15 = b\<close> show ?thesis by (metis bit_and_iff)
    qed
    ultimately show "a = b" by (intro bit_eqI) (metis not_le)
  qed simp
  have "w AND push_bit (c * 4) 15 = push_bit (c * 4) 15 \<longleftrightarrow> drop_bit (c * 4) w AND 15 = (15 :: u64)"
    unfolding w by (rule inj) (simp_all only: and.assoc and.idem)
  also have "\<dots> \<longleftrightarrow> unat (drop_bit (c * 4) w AND 15) = unat (15 :: u64)" by (rule word_unat_eq_iff)
  also have "\<dots> \<longleftrightarrow> nibble w c = 15" unfolding nibble_word by simp
  finally show ?thesis .
qed

lemma unat_lt2: "unat (w :: u64) < 2 ^ 64"
  using unsigned_less [of w] by simp

lemma nibble_increment:
  assumes "c < 16" "nibble w c \<noteq> 15"
  shows "nibble (w + push_bit (c * 4) 1) d = (if d = c then nibble w c + 1 else nibble w d)"
proof -
  have c: "unat w div 16 ^ c mod 16 < 15" using assms(2) nibble_less [of w c] by (simp add: nibble_def)
  have one: "unat (push_bit (c * 4) (1 :: u64)) = 16 ^ c"
  proof -
    have "(2 :: nat) ^ (c * 4) < 2 ^ 64" using assms(1) by (intro power_strict_increasing) simp_all
    then have "unat (push_bit (c * 4) (1 :: u64)) = 2 ^ (c * 4)"
      unfolding unsigned_push_bit_eq using assms(1) by (simp add: take_bit_nat_eq_self_iff [THEN iffD2] push_bit_eq_mult)
    then show ?thesis by (simp add: power_mult [of 2 4 c, simplified] mult.commute [of c])
  qed
  have "unat w div 16 ^ 16 = 0" using unat_lt2 [of w] by simp
  then have "(unat w + 16 ^ c) div 16 ^ 16 = 0" using nat_nibble_add(2) [OF c assms(1)] by simp
  then have "unat w + 16 ^ c < 2 ^ LENGTH(64)" by (simp add: div_eq_0_iff)
  then have "unat (w + push_bit (c * 4) 1) = unat w + 16 ^ c"
    unfolding unat_word_ariths(1) one by simp
  then show ?thesis using nat_nibble_add(1) [OF c, of d] by (simp add: nibble_def)
qed

lemma bit_RESET_MASK: "k < 64 \<Longrightarrow> bit RESET_MASK k \<longleftrightarrow> k mod 4 \<noteq> 3"
proof -
  have "\<forall>k \<in> {0..<64}. bit RESET_MASK k \<longleftrightarrow> k mod 4 \<noteq> 3" unfolding RESET_MASK_def by code_simp
  then show "k < 64 \<Longrightarrow> ?thesis" by simp
qed

lemma nibble_halved:
  assumes "c < 16"
  shows "nibble (drop_bit 1 w AND RESET_MASK) c = nibble w c div 2"
proof -
  have "drop_bit (c * 4) (drop_bit 1 w AND RESET_MASK) AND mask 4 = drop_bit 1 (drop_bit (c * 4) w AND mask 4)"
  proof (rule bit_eqI)
    fix n assume "possible_bit TYPE(64 word) n"
    have bits: "bit RESET_MASK (c * 4 + n) \<longleftrightarrow> n \<noteq> 3" if "n < 4"
    proof -
      have "(c * 4 + n) mod 4 = n" using that by simp
      with bit_RESET_MASK [of "c * 4 + n"] assms that show ?thesis by simp
    qed
    have "bit (drop_bit (c * 4) (drop_bit 1 w AND RESET_MASK) AND mask 4) n
        \<longleftrightarrow> bit w (Suc (c * 4 + n)) \<and> bit RESET_MASK (c * 4 + n) \<and> n < 4"
      by (auto simp: bit_and_iff bit_drop_bit_eq bit_mask_iff)
    also have "\<dots> \<longleftrightarrow> bit w (Suc (c * 4 + n)) \<and> n < 3" using bits by (cases "n < 4") auto
    also have "\<dots> \<longleftrightarrow> bit (drop_bit 1 (drop_bit (c * 4) w AND mask 4)) n"
      by (auto simp: bit_and_iff bit_drop_bit_eq bit_mask_iff)
    finally show "bit (drop_bit (c * 4) (drop_bit 1 w AND RESET_MASK) AND mask 4) n
        = bit (drop_bit 1 (drop_bit (c * 4) w AND mask 4)) n" .
  qed
  then have "unat (drop_bit (c * 4) (drop_bit 1 w AND RESET_MASK) AND mask 4) = drop_bit 1 (unat (drop_bit (c * 4) w AND mask 4))"
    by (simp only: unat_drop_bit_eq)
  then show ?thesis unfolding word_15 [symmetric] nibble_word by (simp add: drop_bit_eq_div)
qed

section \<open>The sketch as a table of counters\<close>

text \<open>The value of counter \<open>c\<close> of word \<open>t\<close>.\<close>

definition cell :: "tinylfu_sketch \<Rightarrow> nat \<Rightarrow> nat \<Rightarrow> nat" where
  "cell s t c = nibble (table s ! t) c"

lemma counter_index_less: "counter_index h < 16"
proof -
  have "unat (h AND 15) \<le> unat (15 :: u64)" by (rule word_le_nat_alt [THEN iffD1]) (rule word_and_le1)
  then show ?thesis by (simp add: counter_index_def)
qed

lemma count_at_cell:
  assumes "t < length (table s)" "c < 16"
  shows "\<exists>x. count_at s t c = Some x \<and> unat x = cell s t c"
proof -
  have "unat (ucast (drop_bit (c * 4) (table s ! t AND push_bit (c * 4) 15)) :: u8) = cell s t c"
    unfolding nibble_bits [OF assms(2)] cell_def
    using nibble_less [of "table s ! t" c] by (simp add: unsigned_ucast_eq nibble_word take_bit_nat_eq_self_iff [THEN iffD2])
  with assms(1) show ?thesis by (auto simp: count_at_def Let_def)
qed

lemma increment_at_cell:
  assumes "t < length (table s)" "c < 16"
  shows "\<exists>s'. increment_at t c s = Some (cell s t c \<noteq> 15, s') \<and> length (table s') = length (table s)
    \<and> sketch_size s' = sketch_size s \<and> decay_policy s' = decay_policy s
    \<and> (\<forall>t' c'. t' < length (table s) \<longrightarrow> c' < 16 \<longrightarrow>
        cell s' t' c' = (if t' = t \<and> c' = c then min 15 (cell s t c + 1) else cell s t' c'))"
proof (cases "cell s t c = 15")
  case True
  then show ?thesis using assms nibble_full [OF assms(2), of "table s ! t"]
    by (auto simp: increment_at_def Let_def cell_def)
next
  case False
  with nibble_less [of "table s ! t" c] have lt: "nibble (table s ! t) c < 15" by (auto simp: cell_def)
  with False show ?thesis using assms nibble_full [OF assms(2), of "table s ! t"] nibble_increment [OF assms(2), of "table s ! t"]
    by (auto simp: increment_at_def Let_def cell_def nth_list_update)
qed

text \<open>The cell a seed selects.\<close>

definition word_of :: "('k \<Rightarrow> nat \<Rightarrow> u64) \<Rightarrow> 'k \<Rightarrow> tinylfu_sketch \<Rightarrow> nat \<Rightarrow> nat" where
  "word_of hws key s i = table_index (sketch_hash hws key i) (length (table s))"

definition count_of :: "('k \<Rightarrow> nat \<Rightarrow> u64) \<Rightarrow> 'k \<Rightarrow> tinylfu_sketch \<Rightarrow> nat \<Rightarrow> nat" where
  "count_of hws key s i = cell s (word_of hws key s i) (counter_index (sketch_hash hws key i))"

lemma word_of_less: "table s \<noteq> [] \<Longrightarrow> word_of hws key s i < length (table s)"
  by (simp add: word_of_def table_index_def)

lemma cell_le: "cell s t c \<le> 15"
  using nibble_less [of "table s ! t" c] by (simp add: cell_def)

text \<open>Two sketches of the same shape.\<close>

definition same_shape :: "tinylfu_sketch \<Rightarrow> tinylfu_sketch \<Rightarrow> bool" where
  "same_shape s s' \<longleftrightarrow> length (table s') = length (table s) \<and> sketch_size s' = sketch_size s
     \<and> decay_policy s' = decay_policy s"

lemma same_shape_word_of: "same_shape s s' \<Longrightarrow> word_of hws key s' i = word_of hws key s i"
  by (simp add: same_shape_def word_of_def)

lemma increment_loop_step:
  assumes "table s \<noteq> []"
  shows "\<exists>s'. increment_loop hws key seeds added s = Some (added \<or> (\<exists>i \<in> set seeds. count_of hws key s i \<noteq> 15), s')
    \<and> same_shape s s'
    \<and> (\<forall>t < length (table s). \<forall>c < 16. cell s t c \<le> cell s' t c
        \<and> (cell s' t c \<noteq> cell s t c \<longrightarrow> (\<exists>i \<in> set seeds. t = word_of hws key s i \<and> c = counter_index (sketch_hash hws key i))))
    \<and> (\<forall>i \<in> set seeds. min 15 (count_of hws key s i + 1) \<le> count_of hws key s' i)"
  using assms
proof (induction seeds arbitrary: s added)
  case Nil
  then show ?case by (simp add: same_shape_def)
next
  case (Cons i seeds)
  let ?t = "word_of hws key s i" and ?c = "counter_index (sketch_hash hws key i)"
  note t = word_of_less [OF Cons.prems, of hws key i] and c = counter_index_less [of "sketch_hash hws key i"]
  from increment_at_cell [OF t c] obtain s1 where s1:
    "increment_at ?t ?c s = Some (count_of hws key s i \<noteq> 15, s1)" "same_shape s s1"
    and cells: "\<And>t' c'. t' < length (table s) \<Longrightarrow> c' < 16 \<Longrightarrow>
        cell s1 t' c' = (if t' = ?t \<and> c' = ?c then min 15 (cell s ?t ?c + 1) else cell s t' c')"
    by (auto simp: count_of_def same_shape_def)
  have len: "length (table s1) = length (table s)" using s1(2) by (simp add: same_shape_def)
  then have ne: "table s1 \<noteq> []" using Cons.prems by auto
  note word = same_shape_word_of [OF s1(2)]
  have count1: "count_of hws key s1 j = (if word_of hws key s j = ?t \<and> counter_index (sketch_hash hws key j) = ?c
      then min 15 (count_of hws key s i + 1) else count_of hws key s j)" for j
    unfolding count_of_def word by (rule cells [OF word_of_less [OF Cons.prems] counter_index_less])
  from Cons.IH [OF ne, of "added \<or> count_of hws key s i \<noteq> 15"] obtain s' where s':
    "increment_loop hws key seeds (added \<or> count_of hws key s i \<noteq> 15) s1
       = Some ((added \<or> count_of hws key s i \<noteq> 15) \<or> (\<exists>j \<in> set seeds. count_of hws key s1 j \<noteq> 15), s')" "same_shape s1 s'"
    and grow: "\<And>t c. t < length (table s) \<Longrightarrow> c < 16 \<Longrightarrow> cell s1 t c \<le> cell s' t c
        \<and> (cell s' t c \<noteq> cell s1 t c \<longrightarrow> (\<exists>j \<in> set seeds. t = word_of hws key s j \<and> c = counter_index (sketch_hash hws key j)))"
    and seeds: "\<And>j. j \<in> set seeds \<Longrightarrow> min 15 (count_of hws key s1 j + 1) \<le> count_of hws key s' j"
    unfolding len word by blast
  have shape: "same_shape s s'" using s1(2) s'(2) by (simp add: same_shape_def)
  have "increment_loop hws key (i # seeds) added s
      = Some (added \<or> (\<exists>j \<in> set (i # seeds). count_of hws key s j \<noteq> 15), s')"
  proof -
    have "count_of hws key s1 j = count_of hws key s j" if "count_of hws key s i = 15" for j
      using that by (auto simp: count1) (simp add: count_of_def)
    then have added: "((added \<or> count_of hws key s i \<noteq> 15) \<or> (\<exists>j \<in> set seeds. count_of hws key s1 j \<noteq> 15))
        = (added \<or> (\<exists>j \<in> set (i # seeds). count_of hws key s j \<noteq> 15))" by auto
    show ?thesis using s1(1) s'(1) unfolding added by (simp add: word_of_def Let_def)
  qed
  moreover have "cell s t c \<le> cell s' t c \<and> (cell s' t c \<noteq> cell s t c \<longrightarrow>
      (\<exists>j \<in> set (i # seeds). t = word_of hws key s j \<and> c = counter_index (sketch_hash hws key j)))"
    if "t < length (table s)" "c < 16" for t c
  proof -
    have "cell s t c \<le> cell s1 t c" using cells [OF that] cell_le [of s t c] by auto
    moreover have "cell s1 t c \<noteq> cell s t c \<Longrightarrow> t = ?t \<and> c = ?c" using cells [OF that] by metis
    ultimately show ?thesis using grow [OF that] by force
  qed
  moreover have "min 15 (count_of hws key s j + 1) \<le> count_of hws key s' j" if "j \<in> set (i # seeds)" for j
  proof -
    have "count_of hws key s1 i \<le> count_of hws key s' i"
      unfolding count_of_def word same_shape_word_of [OF shape] using grow [OF t c] by simp
    moreover have "count_of hws key s j \<le> count_of hws key s1 j"
      unfolding count1 by (auto simp: count_of_def min_def cell_le)
    moreover have "count_of hws key s1 i = min 15 (count_of hws key s i + 1)" by (simp add: count1)
    ultimately show ?thesis using that seeds [of j] by (auto simp: min_def split: if_splits)
  qed
  ultimately show ?case using shape by blast
qed

lemma increment_cases:
  assumes "table s \<noteq> []"
  shows "\<exists>added s1. increment_loop hws key [0..<4] False s = Some (added, s1) \<and> same_shape s s1
    \<and> increment hws key s = Some (if added then (if decay_policy s (sketch_size s + 1)
        then reset (s1\<lparr>sketch_size := sketch_size s + 1\<rparr>) else s1\<lparr>sketch_size := sketch_size s + 1\<rparr>) else s1)"
proof -
  from increment_loop_step [OF assms, of hws key "[0..<4]" False] obtain added s1 where
    s1: "increment_loop hws key [0..<4] False s = Some (added, s1)" "same_shape s s1" by blast
  with assms show ?thesis by (auto simp: increment_def Let_def same_shape_def)
qed

lemma reset_fields [simp]: "length (table (reset s)) = length (table s)" "decay_policy (reset s) = decay_policy s"
  by (simp_all add: reset_def Let_def)

lemma touch_batch_returns:
  "table s \<noteq> [] \<Longrightarrow> \<exists>s'. touch_batch hws keys s = Some s' \<and> length (table s') = length (table s)"
proof (induction keys arbitrary: s)
  case (Cons key keys)
  from increment_cases [OF Cons.prems, of hws key] obtain s1 where
    s1: "increment hws key s = Some s1" "length (table s1) = length (table s)"
    by (auto simp: Let_def same_shape_def split: if_splits)
  then have "table s1 \<noteq> []" using Cons.prems by auto
  from Cons.IH [OF this] s1 show ?case by auto
qed simp

section \<open>Estimates\<close>

definition estimate_of :: "('k \<Rightarrow> nat \<Rightarrow> u64) \<Rightarrow> tinylfu_sketch \<Rightarrow> 'k \<Rightarrow> nat" where
  "estimate_of hws s key = Min (count_of hws key s ` {0..<4})"

lemma Min_insert_min: "finite A \<Longrightarrow> Min (insert (min a b) A) = min a (Min (insert b A))" for a b :: nat
  by (cases "A = {}") (simp_all add: min.assoc)

lemma estimate_loop_step:
  assumes "table s \<noteq> []"
  shows "\<exists>e. estimate_loop hws key s seeds m = Some e \<and> unat e = Min (insert (unat m) (count_of hws key s ` set seeds))"
proof (induction seeds arbitrary: m)
  case (Cons i seeds)
  from count_at_cell [OF word_of_less [OF assms, of hws key i] counter_index_less [of "sketch_hash hws key i"]] obtain x where
    x: "count_at s (word_of hws key s i) (counter_index (sketch_hash hws key i)) = Some x" "unat x = count_of hws key s i"
    unfolding count_of_def by blast
  have "unat (ucast x :: u32) = unat x" by (simp add: unsigned_ucast_eq take_bit_nat_eq_self_iff [THEN iffD2] less_le_trans [OF unsigned_less])
  then have m: "unat (min m (ucast x)) = min (unat m) (count_of hws key s i)"
    by (simp add: min_def word_le_nat_alt x(2))
  from Cons.IH [of "min m (ucast x)"] show ?case
    using x(1) by (auto simp: word_of_def Let_def m Min_insert_min)
qed simp

lemma estimate_Some:
  assumes "table s \<noteq> []"
  shows "\<exists>e. estimate hws s key = Some e \<and> unat e = estimate_of hws s key"
proof -
  have "count_of hws key s 0 \<le> 15" by (simp add: count_of_def cell_le)
  moreover have "15 \<le> unat (- 1 :: u32)" by (simp add: unsigned_minus_1_eq_mask mask_eq_exp_minus_1)
  moreover have "estimate_of hws s key \<le> count_of hws key s 0" unfolding estimate_of_def by (rule Min_le) auto
  ultimately have "min (unat (- 1 :: u32)) (estimate_of hws s key) = estimate_of hws s key" by simp
  then have "Min (insert (unat (- 1 :: u32)) (count_of hws key s ` set [0..<4])) = estimate_of hws s key"
    by (subst Min_insert) (simp_all add: estimate_of_def)
  with estimate_loop_step [OF assms, of hws key "[0..<4]" "- 1"] assms show ?thesis
    by (simp add: estimate_def)
qed


lemma count_of_reset: "table s \<noteq> [] \<Longrightarrow> count_of hws key (reset s) i = count_of hws key s i div 2"
  using word_of_less [of s hws key i] counter_index_less [of "sketch_hash hws key i"]
  by (simp add: count_of_def cell_def reset_def Let_def word_of_def nibble_halved del: One_nat_def)

lemma estimate_of_reset:
  assumes "table s \<noteq> []"
  shows "estimate_of hws (reset s) key = estimate_of hws s key div 2"
proof -
  have eq: "count_of hws key (reset s) ` {0..<4} = (\<lambda>x. x div 2) ` (count_of hws key s ` {0..<4})"
    by (simp add: image_image count_of_reset [OF assms])
  have "mono (\<lambda>x :: nat. x div 2)" by (simp add: mono_def div_le_mono)
  from mono_Min_commute [OF this, of "count_of hws key s ` {0..<4}"] show ?thesis
    unfolding estimate_of_def eq by simp
qed

lemma estimate_of_size [simp]: "estimate_of hws (s\<lparr>sketch_size := n\<rparr>) key = estimate_of hws s key"
  by (simp add: estimate_of_def count_of_def word_of_def cell_def)


section \<open>Properties\<close>

text \<open>C33. An estimate is always produced and never exceeds fifteen, the width of a counter.\<close>

theorem estimate_bounded: "\<exists>e. estimate hws s key = Some e \<and> unat e \<le> 15"
proof (cases "table s = []")
  case True
  then show ?thesis by (simp add: estimate_def)
next
  case False
  have "estimate_of hws s key \<le> count_of hws key s 0" unfolding estimate_of_def by (rule Min_le) auto
  with estimate_Some [OF False, of hws key] cell_le show ?thesis
    by (metis count_of_def le_trans)
qed

text \<open>C31. A decay halves every estimate, rounding down.\<close>

theorem reset_halves_estimates:
  assumes "estimate hws s key = Some e"
  shows "\<exists>e'. estimate hws (reset s) key = Some e' \<and> unat e' = unat e div 2"
proof (cases "table s = []")
  case True
  with assms show ?thesis by (auto simp: estimate_def reset_def Let_def)
next
  case False
  then have "table (reset s) \<noteq> []" by (simp add: reset_def Let_def)
  from estimate_Some [OF this, of hws key] estimate_Some [OF False, of hws key] assms show ?thesis
    by (simp add: estimate_of_reset [OF False])
qed

theorem reset_halves_estimates_witness:
  "\<exists>e'. estimate (\<lambda>_ _. 0) (reset \<lparr>table = [7], sketch_size = 7, decay_policy = fixed_should_decay 10\<rparr>) () = Some e'
     \<and> unat e' = 3"
proof -
  have "estimate (\<lambda>_ _. 0) \<lparr>table = [7], sketch_size = 7, decay_policy = fixed_should_decay 10\<rparr> () = Some 7"
    by code_simp
  from reset_halves_estimates [OF this] show ?thesis by simp
qed





lemma reset_size_le: "unat (sketch_size (reset s)) \<le> unat (sketch_size s) div 2"
proof -
  have "unat (drop_bit 1 (sketch_size s)) = unat (sketch_size s) div 2"
    by (simp only: unat_drop_bit_eq) (simp add: drop_bit_eq_div)
  moreover have "unat (if b \<le> a then a - b else 0) \<le> unat a" for a b :: u32
    by (simp add: word_le_nat_alt unat_sub)
  moreover have "\<exists>dec. sketch_size (reset s)
      = (if dec \<le> drop_bit 1 (sketch_size s) then drop_bit 1 (sketch_size s) - dec else 0)"
    by (rule exI [of _ "drop_bit 2 (\<Sum>entry \<leftarrow> table s. of_nat (count_ones (entry AND ONE_MASK)))"])
       (simp add: reset_def Let_def del: One_nat_def)
  ultimately show ?thesis by metis
qed

text \<open>C32. With the fixed policy the increment counter stays below the threshold, so its \<open>u32\<close> addition
  never wraps around.\<close>

theorem fixed_policy_size_bounded:
  assumes "decay_policy s = fixed_should_decay sample" "unat (sketch_size s) < max 1 (unat sample)"
  shows "\<exists>s'. increment hws key s = Some s' \<and> decay_policy s' = fixed_should_decay sample
    \<and> unat (sketch_size s') < max 1 (unat sample) \<and> unat (sketch_size s + 1) = unat (sketch_size s) + 1"
proof -
  have "unat (sketch_size s) + 1 < 2 ^ 32"
  proof -
    have "unat sample < 2 ^ 32" using unsigned_less [of sample] by simp
    with assms(2) show ?thesis by (auto simp: max_def split: if_splits)
  qed
  then have plus: "unat (sketch_size s + 1) = unat (sketch_size s) + 1" by (simp add: unat_word_ariths)
  show ?thesis
  proof (cases "table s = []")
    case True
    with assms plus show ?thesis by (simp add: increment_def)
  next
    case False
    from increment_cases [OF this, of hws key] obtain added s1 where shape: "same_shape s s1"
      and inc: "increment hws key s = Some (if added then (if fixed_should_decay sample (sketch_size s + 1)
        then reset (s1\<lparr>sketch_size := sketch_size s + 1\<rparr>) else s1\<lparr>sketch_size := sketch_size s + 1\<rparr>) else s1)"
      unfolding assms(1) by blast
    have "unat (sketch_size (reset (s1\<lparr>sketch_size := sketch_size s + 1\<rparr>))) < max 1 (unat sample)"
      using reset_size_le [of "s1\<lparr>sketch_size := sketch_size s + 1\<rparr>"] assms(2) plus by auto
    moreover have "unat (sketch_size s + 1) < max 1 (unat sample)" if "\<not> fixed_should_decay sample (sketch_size s + 1)"
      using that by (auto simp: fixed_should_decay_def word_le_nat_alt)
    moreover have "decay_policy (reset x) = decay_policy x" for x by (simp add: reset_def Let_def)
    ultimately show ?thesis using inc shape assms plus by (auto simp: same_shape_def)
  qed
qed

theorem fixed_policy_size_bounded_witness:
  "\<exists>s'. increment (\<lambda>k i. of_nat (k + i)) (5 :: nat) (sketch_new 8) = Some s'
    \<and> unat (sketch_size s') < 80"
proof -
  have "decay_policy (sketch_new 8) = fixed_should_decay 80" "unat (sketch_size (sketch_new 8)) < max 1 (unat (80 :: u32))"
    by (simp_all add: sketch_new_def with_decay_policy_def fixed_from_capacity_def usize_MAX_def u32_MAX_def)
  from fixed_policy_size_bounded [OF this, of "\<lambda>k i. of_nat (k + i)" 5] show ?thesis by auto
qed

lemma counter_index_mod: "counter_index h = unat h mod 16"
proof -
  have "h AND 15 = take_bit 4 h" unfolding word_15 take_bit_eq_mask ..
  then show ?thesis by (simp only: counter_index_def unsigned_take_bit_eq) (simp add: take_bit_eq_mod)
qed

lemma word_of_diagonal: "16 dvd length (table s) \<Longrightarrow> word_of hws key s i mod 16 = counter_index (sketch_hash hws key i)"
  by (simp add: word_of_def table_index_def counter_index_mod mod_mod_cancel)

lemma increment_diagonal:
  assumes "16 dvd length (table s)" "increment hws key s = Some s'"
    and "\<forall>t < length (table s). \<forall>c < 16. c \<noteq> t mod 16 \<longrightarrow> cell s t c = 0"
  shows "length (table s') = length (table s) \<and> (\<forall>t < length (table s). \<forall>c < 16. c \<noteq> t mod 16 \<longrightarrow> cell s' t c = 0)"
proof (cases "table s = []")
  case True
  with assms(2,3) show ?thesis by (simp add: increment_def)
next
  case False
  from increment_cases [OF this, of hws key] obtain added s1 where
    loop: "increment_loop hws key [0..<4] False s = Some (added, s1)" "same_shape s s1"
    and inc: "s' = (if added then (if decay_policy s (sketch_size s + 1)
        then reset (s1\<lparr>sketch_size := sketch_size s + 1\<rparr>) else s1\<lparr>sketch_size := sketch_size s + 1\<rparr>) else s1)"
    using assms(2) by (auto simp: Let_def)
  have s1: "cell s1 t c = 0" if "t < length (table s)" "c < 16" "c \<noteq> t mod 16" for t c
  proof (rule ccontr)
    assume "cell s1 t c \<noteq> 0"
    with assms(3) that have "cell s1 t c \<noteq> cell s t c" by simp
    with increment_loop_step [OF False, of hws key "[0..<4]" False, unfolded loop(1)] that
    obtain i where "t = word_of hws key s i" "c = counter_index (sketch_hash hws key i)" by auto
    with word_of_diagonal [OF assms(1), of hws key i] that(3) show False by simp
  qed
  have len: "length (table s1) = length (table s)" using loop(2) by (simp add: same_shape_def)
  have "cell (reset x) t c = cell x t c div 2" if "t < length (table x)" "c < 16" for x t c
    using that by (simp add: cell_def reset_def Let_def nibble_halved del: One_nat_def)
  moreover have "cell (x\<lparr>sketch_size := n\<rparr>) t c = cell x t c" for x n t c by (simp add: cell_def)
  moreover have "length (table (reset x)) = length (table x)" for x by (simp add: reset_def Let_def)
  ultimately show ?thesis using s1 len by (simp add: inc)
qed

text \<open>C34. Word index and counter index come from the same low bits of the hash. When sixteen divides the
  table length, only counter \<open>t mod 16\<close> of word \<open>t\<close> is ever used: fifteen of sixteen counters stay zero.\<close>

theorem sketch_uses_one_counter_per_word:
  assumes "touch_batch hws keys (sketch_new (64 * k)) = Some s" "0 < k" "t < length (table s)" "c < 16" "c \<noteq> t mod 16"
  shows "count_at s t c = Some 0"
proof -
  have "16 dvd length (table s) \<and> (\<forall>t < length (table s). \<forall>c < 16. c \<noteq> t mod 16 \<longrightarrow> cell s t c = 0)"
    if "touch_batch hws keys s0 = Some s" "16 dvd length (table s0)"
      "\<forall>t < length (table s0). \<forall>c < 16. c \<noteq> t mod 16 \<longrightarrow> cell s0 t c = 0" for s0
    using that
  proof (induction keys arbitrary: s0)
    case (Cons key keys)
    then obtain s1 where s1: "increment hws key s0 = Some s1" "touch_batch hws keys s1 = Some s"
      by (auto elim: bind_eq_SomeE)
    from increment_diagonal [OF Cons.prems(2) s1(1) Cons.prems(3)] Cons.IH [OF s1(2)] Cons.prems(2) show ?case by simp
  qed simp
  moreover have "16 dvd length (table (sketch_new (64 * k)))"
    "\<forall>t < length (table (sketch_new (64 * k))). \<forall>c < 16. c \<noteq> t mod 16 \<longrightarrow> cell (sketch_new (64 * k)) t c = 0"
    using assms(2) by (simp_all add: sketch_new_def with_decay_policy_def cell_def nibble_def max_def)
  ultimately have "cell s t c = 0" using assms by blast
  with count_at_cell [OF assms(3,4)] show ?thesis by (auto simp: unat_eq_zero)
qed

theorem sketch_uses_one_counter_per_word_witness:
  "count_at (the (touch_batch (\<lambda>k i. of_nat (k + i)) [3, 20 :: nat] (sketch_new (64 * 1)))) 4 5 = Some 0"
proof -
  have "table (sketch_new (64 * 1)) \<noteq> []" "length (table (sketch_new (64 * 1))) = 16"
    by (simp_all add: sketch_new_def with_decay_policy_def)
  with touch_batch_returns [of "sketch_new (64 * 1)" "\<lambda>k i. of_nat (k + i)" "[3, 20 :: nat]"] obtain s where
    s: "touch_batch (\<lambda>k i. of_nat (k + i)) [3, 20 :: nat] (sketch_new (64 * 1)) = Some s" "length (table s) = 16" by auto
  from sketch_uses_one_counter_per_word [OF s(1), of 4 5] s(2) show ?thesis unfolding s(1) by simp
qed

end
