(* ===== verification/Ordered_Batcher.thy ===== *)
theory Ordered_Batcher
  imports Kvbm_Prelude
begin

text \<open>The order-preserving batcher of the event streams (\<^verbatim>\<open>kvbm-logical/src/events/ordered_batcher.rs\<close>). The clock is
  abstracted to the sequence of wake-ups of the loop: an item of the input, the end of the window, or the end of the input,
  in any order. The properties hold for every such sequence.\<close>

datatype 'a wake_up = Item 'a | WindowElapsed | EndOfInput

text \<open>The loop of \<open>batch\<close>, with the buffer as its state: the batches it yields and what is still buffered after the
  given wake-ups.\<close>

fun batch_loop :: "nat \<Rightarrow> 'a list \<Rightarrow> 'a wake_up list \<Rightarrow> 'a list list \<times> 'a list" where
  "batch_loop max_size buf [] = ([], buf)"
| "batch_loop max_size buf (Item x # evs) =
     (let buf = buf @ [x] in
      if max_size \<le> length buf
      then (let (bs, rest) = batch_loop max_size [] evs in (buf # bs, rest))
      else batch_loop max_size buf evs)"
| "batch_loop max_size buf (EndOfInput # evs) = (if buf = [] then ([], []) else ([buf], []))"
| "batch_loop max_size buf (WindowElapsed # evs) =
     (if buf = [] then batch_loop max_size [] evs
      else (let (bs, rest) = batch_loop max_size [] evs in (buf # bs, rest)))"

definition ordered_batch :: "nat \<Rightarrow> 'a wake_up list \<Rightarrow> 'a list list \<times> 'a list" where
  "ordered_batch max_size evs = batch_loop max_size [] evs"

text \<open>The items that arrive before the end of the input.\<close>

fun arrivals :: "'a wake_up list \<Rightarrow> 'a list" where
  "arrivals [] = []"
| "arrivals (Item x # evs) = x # arrivals evs"
| "arrivals (WindowElapsed # evs) = arrivals evs"
| "arrivals (EndOfInput # evs) = []"

lemma batch_loop_content: "concat (fst (batch_loop m buf evs)) @ snd (batch_loop m buf evs) = buf @ arrivals evs"
proof (induction evs arbitrary: buf)
  case (Cons e evs)
  then show ?case by (cases e) (auto simp: Let_def split_beta)
qed simp

lemma batch_loop_sizes:
  "length buf < m \<Longrightarrow> (\<forall>b \<in> set (fst (batch_loop m buf evs)). b \<noteq> [] \<and> length b \<le> m)
    \<and> length (snd (batch_loop m buf evs)) < m"
proof (induction evs arbitrary: buf)
  case (Cons e evs)
  note IH = Cons.prems Cons.IH [of "[]"]
  show ?case
  proof (cases e)
    case (Item x)
    with IH Cons.IH [of "buf @ [x]"] show ?thesis by (auto simp: Let_def split_beta)
  next
    case WindowElapsed
    with IH show ?thesis by (cases "buf = []") (auto simp: Let_def split_beta)
  next
    case EndOfInput
    with IH show ?thesis by simp
  qed
qed simp

lemma batch_loop_end: "EndOfInput \<in> set evs \<Longrightarrow> snd (batch_loop m buf evs) = []"
proof (induction evs arbitrary: buf)
  case (Cons e evs)
  then show ?case by (cases e) (auto simp: Let_def split_beta)
qed simp

text \<open>C38. The ordered batcher never reorders, coalesces or drops: whatever the timing, the batches in order, followed by
  what is still buffered, are the items in arrival order. No batch is empty or above the size limit, the buffer stays below
  it, and the end of the input leaves nothing buffered.\<close>

theorem ordered_batch_keeps_the_stream:
  assumes "0 < max_size" and "ordered_batch max_size evs = (bs, rest)"
  shows "concat bs @ rest = arrivals evs \<and> (\<forall>b \<in> set bs. b \<noteq> [] \<and> length b \<le> max_size) \<and> length rest < max_size
    \<and> (EndOfInput \<in> set evs \<longrightarrow> rest = [])"
  using batch_loop_content [of max_size "[]" evs] batch_loop_sizes [of "[]" max_size evs] assms
    batch_loop_end [of evs max_size "[]"] by (simp add: ordered_batch_def)

theorem ordered_batch_keeps_the_stream_witness:
  "ordered_batch 2 [Item (9::nat), Item 5, Item 3, WindowElapsed, Item 9, EndOfInput] = ([[9, 5], [3], [9]], [])
    \<and> concat [[9, 5], [3], [9]] = [9, 5, 3, 9 :: nat]"
proof -
  have run: "ordered_batch 2 [Item (9::nat), Item 5, Item 3, WindowElapsed, Item 9, EndOfInput] = ([[9, 5], [3], [9]], [])"
    by (simp add: ordered_batch_def)
  have "concat [[9, 5], [3], [9]] @ [] = arrivals [Item (9::nat), Item 5, Item 3, WindowElapsed, Item 9, EndOfInput]"
    using ordered_batch_keeps_the_stream [OF _ run] by (rule conjunct1) simp
  then have "concat [[9, 5], [3], [9]] = [9, 5, 3, 9 :: nat]" by simp
  with run show ?thesis by (rule conjI)
qed

end
