(* ===== verification/Axis_Slice.thy ===== *)
theory Axis_Slice
  imports Kvbm_Prelude
begin

text \<open>Slices of a tensor axis and their intersection (\<^verbatim>\<open>kvbm-common/src/slice.rs\<close>), which translate the coordinates that
  two differently sharded layouts share. A \<open>usize\<close> is a natural number; its wrap-around is written out where a
  slice can reach it, in \<open>end\<close> and in the checked addition of \<open>new\<close>.\<close>

datatype kv_dim = Dim_Block | Dim_Layer | Dim_Outer | Dim_Page | Dim_HeadCount | Dim_HeadSize | Dim_Payload

record axis_slice =
  ax_dim :: kv_dim
  ax_start :: nat
  ax_len :: nat
  ax_global_len :: nat

record axis_extent =
  ext_local :: nat
  ext_global :: nat
  ext_start :: nat

text \<open>The ranges of an intersection, lower bound inclusive and upper bound exclusive.\<close>

record axis_intersection =
  ai_dim :: kv_dim
  ai_src_local :: "nat \<times> nat"
  ai_dst_local :: "nat \<times> nat"

datatype slice_error = WorldZero | RankOutOfRange nat nat | NotDivisible nat nat | LenZero | ExceedsGlobal nat nat nat
  | DimMismatch kv_dim kv_dim | GlobalLenMismatch nat nat

definition axis_full :: "kv_dim \<Rightarrow> nat \<Rightarrow> axis_slice" where
  "axis_full d g = \<lparr>ax_dim = d, ax_start = 0, ax_len = g, ax_global_len = g\<rparr>"

definition axis_shard :: "kv_dim \<Rightarrow> nat \<Rightarrow> nat \<Rightarrow> nat \<Rightarrow> slice_error + axis_slice" where
  "axis_shard d rank world g =
     (if world = 0 then Inl WorldZero
      else if world \<le> rank then Inl (RankOutOfRange rank world)
      else if g mod world \<noteq> 0 then Inl (NotDivisible g world)
      else let n = g div world in Inr \<lparr>ax_dim = d, ax_start = rank * n, ax_len = n, ax_global_len = g\<rparr>)"

definition axis_new :: "kv_dim \<Rightarrow> nat \<Rightarrow> nat \<Rightarrow> nat \<Rightarrow> slice_error + axis_slice" where
  "axis_new d start n g =
     (if n = 0 then Inl LenZero
      else if (if start + n < 2 ^ 64 then g < start + n else True) then Inl (ExceedsGlobal start n g)
      else Inr \<lparr>ax_dim = d, ax_start = start, ax_len = n, ax_global_len = g\<rparr>)"

definition axis_end :: "axis_slice \<Rightarrow> nat" where
  "axis_end s = (ax_start s + ax_len s) mod 2 ^ 64"

definition axis_is_full :: "axis_slice \<Rightarrow> bool" where
  "axis_is_full s \<longleftrightarrow> ax_start s = 0 \<and> ax_len s = ax_global_len s"

definition extent_full :: "nat \<Rightarrow> axis_extent" where
  "extent_full n = \<lparr>ext_local = n, ext_global = n, ext_start = 0\<rparr>"

definition extent_from_slice :: "axis_slice \<Rightarrow> axis_extent" where
  "extent_from_slice s = \<lparr>ext_local = ax_len s, ext_global = ax_global_len s, ext_start = ax_start s\<rparr>"

definition extent_is_full :: "axis_extent \<Rightarrow> bool" where
  "extent_is_full e \<longleftrightarrow> ext_local e = ext_global e \<and> ext_start e = 0"

definition intersect_axis :: "axis_slice \<Rightarrow> axis_slice \<Rightarrow> slice_error + axis_intersection option" where
  "intersect_axis src dst =
     (if ax_dim src \<noteq> ax_dim dst then Inl (DimMismatch (ax_dim src) (ax_dim dst))
      else if ax_global_len src \<noteq> ax_global_len dst
      then Inl (GlobalLenMismatch (ax_global_len src) (ax_global_len dst))
      else
        (let global_start = max (ax_start src) (ax_start dst);
             global_end = min (axis_end src) (axis_end dst) in
         if global_end \<le> global_start then Inr None
         else
           (let n = global_end - global_start in
            Inr (Some \<lparr>ai_dim = ax_dim src,
                       ai_src_local = (global_start - ax_start src, global_start - ax_start src + n),
                       ai_dst_local = (global_start - ax_start dst, global_start - ax_start dst + n)\<rparr>))))"

text \<open>What every constructor establishes: the slice lies within its axis, which a \<open>usize\<close> can measure.\<close>

definition slice_ok :: "axis_slice \<Rightarrow> bool" where
  "slice_ok s \<longleftrightarrow> ax_start s + ax_len s \<le> ax_global_len s \<and> ax_global_len s < 2 ^ 64"

lemma axis_end_ok: "slice_ok s \<Longrightarrow> axis_end s = ax_start s + ax_len s"
  by (simp add: slice_ok_def axis_end_def)

lemma shard_ok: "axis_shard d rank world g = Inr s \<Longrightarrow> g < 2 ^ 64 \<Longrightarrow> slice_ok s"
proof -
  assume s: "axis_shard d rank world g = Inr s" and g: "g < 2 ^ 64"
  from s have r: "rank < world" "g mod world = 0"
    and def: "s = \<lparr>ax_dim = d, ax_start = rank * (g div world), ax_len = g div world, ax_global_len = g\<rparr>"
    by (auto simp: axis_shard_def Let_def split: if_splits)
  have "Suc rank * (g div world) \<le> world * (g div world)" using r(1) by (intro mult_le_mono1) simp
  also have "\<dots> = g" using r(2) by (simp add: mod_0_imp_dvd)
  finally show ?thesis using g by (simp add: slice_ok_def def)
qed

lemma range_image: "(\<lambda>i. i + (k::nat)) ` {a..<b} = {a + k..<b + k}"
  by (simp add: add.commute image_add_atLeastLessThan')

text \<open>C39. The intersection of two slices of one axis is exact: it is absent precisely when they share no global
  coordinate, and otherwise either local range, shifted by the start of its slice, is the set of shared coordinates.\<close>

theorem intersect_axis_exact:
  assumes "slice_ok src" "slice_ok dst" and "ax_dim src = ax_dim dst" "ax_global_len src = ax_global_len dst"
  shows "\<exists>r. intersect_axis src dst = Inr r
    \<and> (let shared = {ax_start src..<axis_end src} \<inter> {ax_start dst..<axis_end dst} in
       case r of None \<Rightarrow> shared = {}
       | Some i \<Rightarrow> shared \<noteq> {}
         \<and> (\<lambda>c. c + ax_start src) ` {fst (ai_src_local i)..<snd (ai_src_local i)} = shared
         \<and> (\<lambda>c. c + ax_start dst) ` {fst (ai_dst_local i)..<snd (ai_dst_local i)} = shared)"
  using assms by (auto simp: intersect_axis_def Let_def axis_end_ok range_image simp del: image_add_atLeastLessThan')

theorem intersect_axis_exact_witness:
  "\<exists>r. intersect_axis (axis_full Dim_HeadCount 8)
      \<lparr>ax_dim = Dim_HeadCount, ax_start = 2, ax_len = 4, ax_global_len = 8\<rparr> = Inr (Some r)"
proof -
  let ?s = "axis_full Dim_HeadCount 8"
  let ?d = "\<lparr>ax_dim = Dim_HeadCount, ax_start = 2, ax_len = 4, ax_global_len = 8\<rparr>"
  have ok: "slice_ok ?s" "slice_ok ?d" by (simp_all add: slice_ok_def axis_full_def)
  from intersect_axis_exact [OF ok] obtain r where r: "intersect_axis ?s ?d = Inr r"
    and "r = None \<longrightarrow> {ax_start ?s..<axis_end ?s} \<inter> {ax_start ?d..<axis_end ?d} = {}"
    by (auto simp: axis_full_def Let_def split: option.splits)
  then have "r \<noteq> None" by (auto simp: axis_end_def axis_full_def)
  with r show ?thesis by auto
qed

text \<open>C40. The shards of an evenly divisible axis partition it: every global coordinate belongs to the shard of exactly
  one rank.\<close>

theorem shards_partition_the_axis:
  assumes "0 < world" "world dvd g" "g < 2 ^ 64" and "c < g"
  shows "\<exists>!rank. \<exists>s. axis_shard d rank world g = Inr s \<and> ax_start s \<le> c \<and> c < axis_end s"
proof -
  let ?n = "g div world"
  have n: "0 < ?n" "g = world * ?n" using assms by (auto simp: div_greater_zero_iff intro: dvd_imp_le)
  have iff: "(\<exists>s. axis_shard d rank world g = Inr s \<and> ax_start s \<le> c \<and> c < axis_end s) \<longleftrightarrow> rank = c div ?n" (is "?L \<longleftrightarrow> ?R") for rank
  proof
    assume ?L
    then obtain s where s: "axis_shard d rank world g = Inr s" "ax_start s \<le> c" "c < axis_end s" by blast
    then have "rank * ?n \<le> c" "c < rank * ?n + ?n" using axis_end_ok [OF shard_ok [OF s(1) assms(3)]]
      by (auto simp: axis_shard_def Let_def split: if_splits)
    then show ?R by (intro div_nat_eqI [symmetric]) (simp_all add: mult.commute)
  next
    assume r: ?R
    have "c div ?n < world" using n assms(4) by (metis less_mult_imp_div_less)
    then obtain s where s: "axis_shard d rank world g = Inr s" "ax_start s = rank * ?n" "ax_len s = ?n"
      using assms(2) r by (auto simp: axis_shard_def Let_def)
    moreover have "rank * ?n \<le> c" "c < rank * ?n + ?n" using n(1) r by (simp_all add: dividend_less_div_times add.commute)
    ultimately show ?L using axis_end_ok [OF shard_ok [OF s(1) assms(3)]] by auto
  qed
  then show ?thesis by simp
qed

theorem shards_partition_the_axis_witness:
  "\<exists>!rank. \<exists>s. axis_shard Dim_HeadCount rank 4 8 = Inr s \<and> ax_start s \<le> 5 \<and> 5 < axis_end s"
  by (rule shards_partition_the_axis) simp_all

end
