(* ===== verification/Spec2Isabelle.thy ===== *)
theory Spec2Isabelle
  imports Operation_Properties Tiny_LFU Ordered_Batcher Axis_Slice
begin

text \<open>
  Verification of the block store of kvbm, the key-value-cache block manager under \<^verbatim>\<open>src/crates/kvbm-logical\<close>.

  \<^bold>\<open>The program.\<close> A store owns a fixed array of slots. A slot is reset (free or fenced), mutable, staged, registered
  as the primary or a duplicate of a sequence hash, inactive (registered, evictable) or held. Clients own slots through
  guards: \<^verbatim>\<open>MutableBlock\<close>, \<^verbatim>\<open>CompleteBlock\<close>, and \<^verbatim>\<open>ImmutableBlock\<close>, a counted reference to an inner value whose drop releases
  the slot. Inactive blocks are kept in an eviction index behind the trait \<^verbatim>\<open>InactiveIndex\<close>; one of its backends is a
  hash map ordered by a \<^verbatim>\<open>ReusePolicy\<close>. Three extensions work on inactive blocks: exact reclaim takes named victims,
  a lineage hold hides a chain of blocks while its leaf is moved away, and a rebind moves a registration to another slot.
  The TinyLFU sketch estimates how often a hash was touched.

  \<^bold>\<open>Theories and code\<close> (paths relative to \<^verbatim>\<open>src/crates/kvbm-logical/src\<close>).
  \<^item> \<^verbatim>\<open>Kvbm_Prelude\<close>: lists, options, maps, the option monad with assertions.
  \<^item> \<^verbatim>\<open>Inactive_Index\<close>: the trait as a record of operations with its provided methods (\<^verbatim>\<open>pools/store.rs\<close>), the advice
    and victim records, and its contract, the locale \<^verbatim>\<open>inactive_index\<close>.
  \<^item> \<^verbatim>\<open>Reuse_Policy\<close>, \<^verbatim>\<open>Hashmap_Backend\<close>: \<^verbatim>\<open>pools/inactive/backends/{reuse_policy,fifo,hashmap_backend}.rs\<close>, with the
    locale \<^verbatim>\<open>reuse_policy\<close>, its interpretation by the FIFO policy and that of \<^verbatim>\<open>inactive_index\<close> by the backend.
  \<^item> \<^verbatim>\<open>Block_Store\<close>: the state and operations of \<^verbatim>\<open>pools/store.rs\<close> and of the guards in \<^verbatim>\<open>blocks/\<close>, in the order of the code.
    One operation is one critical section of the mutex. \<^verbatim>\<open>Arc\<close> values live in a heap with strong counts; weak
    references are pointers into it.
  \<^item> \<^verbatim>\<open>Block_Store_Inv\<close>, \<^verbatim>\<open>Block_Store_Steps\<close>: the invariant (slots against pools, index, active and held maps; reference
    counts; gauges), also in the middle of an operation, and its preservation by the elementary updates.
  \<^item> \<^verbatim>\<open>Block_Store_Alloc\<close>, \<^verbatim>\<open>_Capacity\<close>, \<^verbatim>\<open>_Life\<close>, \<^verbatim>\<open>_Lookup\<close>, \<^verbatim>\<open>_Register\<close>, \<^verbatim>\<open>_Frame\<close>, \<^verbatim>\<open>_Moves\<close>: what each operation does,
    proved once in the locale \<^verbatim>\<open>inactive_index\<close>.
  \<^item> \<^verbatim>\<open>Block_Store_System\<close>: the store with its clients' guards as a step relation, in which the drop of the last reference and
    the release it triggers are separate steps, so that other operations run between them.
  \<^item> \<^verbatim>\<open>Exact_Reclaim\<close>: \<^verbatim>\<open>pools/store/exact_reclaim.rs\<close>, \<^verbatim>\<open>pools/exact_reclaim.rs\<close>. \<^verbatim>\<open>Lineage_Hold\<close>: the inactive lineage hold.
    \<^verbatim>\<open>Rebind\<close>: the rebind plans of both kinds. \<^verbatim>\<open>Tiny_LFU\<close>: \<^verbatim>\<open>tinylfu.rs\<close>, at machine width.
  \<^item> \<^verbatim>\<open>Ordered_Batcher\<close>: \<^verbatim>\<open>events/ordered_batcher.rs\<close>, for every order of the loop's wake-ups. \<^verbatim>\<open>Axis_Slice\<close>: slices of a tensor
    axis and their intersection, \<^verbatim>\<open>slice.rs\<close> of the crate \<^verbatim>\<open>kvbm-common\<close>.

  \<^bold>\<open>What is shown.\<close> \<^verbatim>\<open>System_Properties\<close>: in every reachable state the invariant holds, guards own their slots exclusively,
  no guard operation, lookup or allocation panics, gauges are exact, and nothing leaks. \<^verbatim>\<open>Block_Store_Properties\<close> and
  \<^verbatim>\<open>Operation_Properties\<close>: the effect of the operations on success and on error, for every index that keeps the contract;
  termination of the eviction loop and of drops; the round trips of holds, rebinds and refreshed plans; the backend keeps
  the contract. \<^verbatim>\<open>Tiny_LFU\<close>: bounds and accuracy of the estimates, and a defect of the counter addressing. \<^verbatim>\<open>Ordered_Batcher\<close>: the batches are the
  stream, in order. \<^verbatim>\<open>Axis_Slice\<close>: intersections are exact and the shards partition the axis.

  \<^bold>\<open>Conventions.\<close> A panic is \<open>None\<close>. Block ids and sizes are natural numbers; the generation and epoch counters of a slot
  have their machine maximum, and the properties that need it assume that a counter has not reached it. Debug assertions
  are those of a release build: none. The victim loop is a \<^verbatim>\<open>partial_function\<close> with a theorem that it returns; a drop
  runs with the number of allocated inner values as fuel, which suffices because a keepalive points to an
  older value. The drain order of a hash map and the keyed hash of the sketch are parameters.

  \<^bold>\<open>Not modelled.\<close> The LRU, multi-LRU and lineage backends, for which the store theorems hold under the contract; typed
  attachments and event release of handles; the manager facade, sequences, the other event streams and the branch tracker,
  which delegate to the store or publish events; the other crates (engine, hub, physical, memory, connector, service, kernels, bindings),
  which are asynchronous services, device memory and network code around it. Exact reclaim, holds and rebinds are
  not steps of the system relation: their theorems start from any state with the invariant.
\<close>

end
